(* ===== verification/Socks_Prelude.thy ===== *)
theory Socks_Prelude
  imports Main "HOL-Library.Word" "HOL-Library.Sublist" "HOL-Library.Multiset"
begin

text \<open>
  Shared vocabulary of the development: the machine types, \<open>Result\<close> values as sums
  (\<open>Inl\<close> is \<open>Err\<close>, \<open>Inr\<close> is \<open>Ok\<close>), fallible effects on a state
  (\<open>sio\<close>: what a Rust \<open>async fn\<close> with \<open>?\<close> does to the stream it borrows), and
  the parts of Rust's standard library the sources use: \<open>str::split_once\<close>,
  \<open>rsplit_once\<close>, \<open>strip_prefix\<close>, \<open>strip_suffix\<close>, \<open>trim\<close>,
  \<open>to_ascii_lowercase\<close>, the unsigned \<open>FromStr\<close> parsers with their three error
  kinds, decimal \<open>Display\<close>, \<open>to_be_bytes\<close> and \<open>octets\<close>. Rust strings are UTF-8
  byte sequences, so a \<open>string\<close> here is its list of bytes and \<open>length\<close> is
  \<open>str::len\<close>.
\<close>

named_theorems rust_std "characteristic equations of the modelled standard library"
named_theorems sio_simps "unfolding of the effect combinators at a given state"

type_synonym byte = "8 word"
type_synonym u16 = "16 word"
type_synonym u32 = "32 word"
type_synonym u64 = "64 word"
type_synonym bytes = "byte list"

section \<open>Results\<close>

definition rbind :: "'e + 'a \<Rightarrow> ('a \<Rightarrow> 'e + 'b) \<Rightarrow> 'e + 'b" where
  "rbind r f = (case r of Inl e \<Rightarrow> Inl e | Inr a \<Rightarrow> f a)"

definition ok_or :: "'e \<Rightarrow> 'a option \<Rightarrow> 'e + 'a" where
  "ok_or e x = (case x of None \<Rightarrow> Inl e | Some a \<Rightarrow> Inr a)"

definition map_err :: "('e \<Rightarrow> 'f) \<Rightarrow> 'e + 'a \<Rightarrow> 'f + 'a" where
  "map_err f r = (case r of Inl e \<Rightarrow> Inl (f e) | Inr a \<Rightarrow> Inr a)"

section \<open>Effects that may fail\<close>

type_synonym ('s, 'e, 'a) sio = "'s \<Rightarrow> ('e + 'a) \<times> 's"

definition sio_return :: "'a \<Rightarrow> ('s, 'e, 'a) sio" where
  "sio_return a = (\<lambda>s. (Inr a, s))"

definition sio_fail :: "'e \<Rightarrow> ('s, 'e, 'a) sio" where
  "sio_fail e = (\<lambda>s. (Inl e, s))"

definition sio_bind :: "('s, 'e, 'a) sio \<Rightarrow> ('a \<Rightarrow> ('s, 'e, 'b) sio) \<Rightarrow> ('s, 'e, 'b) sio" where
  "sio_bind m f = (\<lambda>s. case m s of (Inl e, s') \<Rightarrow> (Inl e, s') | (Inr a, s') \<Rightarrow> f a s')"

definition sio_map_err :: "('e \<Rightarrow> 'f) \<Rightarrow> ('s, 'e, 'a) sio \<Rightarrow> ('s, 'f, 'a) sio" where
  "sio_map_err f m = (\<lambda>s. case m s of (r, s') \<Rightarrow> (map_err f r, s'))"

text \<open>An effect that does not fail with a given error, at any state.\<close>

definition never :: "'e \<Rightarrow> ('s, 'e, 'a) sio \<Rightarrow> bool" where
  "never e m \<longleftrightarrow> (\<forall>s. fst (m s) \<noteq> Inl e)"

section \<open>Strings\<close>

fun split_once :: "string \<Rightarrow> string \<Rightarrow> (string \<times> string) option" where
  "split_once pat [] = (if pat = [] then Some ([], []) else None)"
| "split_once pat (c # cs) =
     (if prefix pat (c # cs) then Some ([], drop (length pat) (c # cs))
      else map_option (\<lambda>(a, b). (c # a, b)) (split_once pat cs))"

fun rsplit_once :: "char \<Rightarrow> string \<Rightarrow> (string \<times> string) option" where
  "rsplit_once d [] = None"
| "rsplit_once d (c # cs) =
     (case rsplit_once d cs of
        Some (a, b) \<Rightarrow> Some (c # a, b)
      | None \<Rightarrow> if c = d then Some ([], cs) else None)"

definition strip_prefix :: "string \<Rightarrow> string \<Rightarrow> string option" where
  "strip_prefix pat s = (if prefix pat s then Some (drop (length pat) s) else None)"

definition strip_suffix :: "string \<Rightarrow> string \<Rightarrow> string option" where
  "strip_suffix pat s = (if suffix pat s then Some (take (length s - length pat) s) else None)"

definition ascii_lower :: "char \<Rightarrow> char" where
  "ascii_lower c =
     (if 65 \<le> (of_char c :: nat) \<and> (of_char c :: nat) \<le> 90
      then char_of ((of_char c :: nat) + 32) else c)"

definition to_ascii_lowercase :: "string \<Rightarrow> string" where
  "to_ascii_lowercase s = map ascii_lower s"

definition as_bytes :: "string \<Rightarrow> bytes" where
  "as_bytes s = map (\<lambda>c. word_of_nat (of_char c)) s"

definition from_bytes :: "bytes \<Rightarrow> string" where
  "from_bytes bs = map (\<lambda>b. char_of (unat b)) bs"

text \<open>
  The UTF-8 encodings of the characters with the Unicode property \<open>White_Space\<close>, which is
  what \<open>str::trim\<close> removes: U+0009 to U+000D, U+0020, U+0085, U+00A0, U+1680,
  U+2000 to U+200A, U+2028, U+2029, U+202F, U+205F, U+3000.
\<close>

definition white_space :: "string list" where
  "white_space = map (map (char_of :: nat \<Rightarrow> char))
     ([[9], [10], [11], [12], [13], [32], [194, 133], [194, 160], [225, 154, 128],
       [226, 128, 168], [226, 128, 169], [226, 128, 175], [226, 129, 159], [227, 128, 128]]
      @ map (\<lambda>i. [226, 128, i]) [128 ..< 139])"

definition strip_any :: "string list \<Rightarrow> string \<Rightarrow> string option" where
  "strip_any pats s = (case filter (\<lambda>p. prefix p s) pats of [] \<Rightarrow> None | p # _ \<Rightarrow> strip_prefix p s)"

function trim_with :: "string list \<Rightarrow> string \<Rightarrow> string" where
  "trim_with pats s =
     (case strip_any pats s of
        None \<Rightarrow> s
      | Some s' \<Rightarrow> if length s' < length s then trim_with pats s' else s)"
  by pat_completeness auto
termination
  by (relation "measure (\<lambda>(pats, s). length s)") auto

declare trim_with.simps [simp del]

definition trim_start :: "string \<Rightarrow> string" where
  "trim_start s = trim_with white_space s"

definition trim_end :: "string \<Rightarrow> string" where
  "trim_end s = rev (trim_with (map rev white_space) (rev s))"

definition trim :: "string \<Rightarrow> string" where
  "trim s = trim_end (trim_start s)"

section \<open>Unsigned integers\<close>

datatype int_error_kind = Empty | InvalidDigit | PosOverflow

definition to_digit :: "char \<Rightarrow> nat option" where
  "to_digit c =
     (if 48 \<le> (of_char c :: nat) \<and> (of_char c :: nat) \<le> 57 then Some (of_char c - 48) else None)"

text \<open>
  The digit loop of \<open>from_str_radix\<close> at radix 10 for a type whose largest value is
  \<open>mx\<close>: a character that is no digit is reported before the overflow it would follow.
\<close>

fun parse_digits :: "nat \<Rightarrow> nat \<Rightarrow> string \<Rightarrow> int_error_kind + nat" where
  "parse_digits mx acc [] = Inr acc"
| "parse_digits mx acc (c # cs) =
     (case to_digit c of
        None \<Rightarrow> Inl InvalidDigit
      | Some d \<Rightarrow>
          if mx < acc * 10 then Inl PosOverflow
          else if mx < acc * 10 + d then Inl PosOverflow
          else parse_digits mx (acc * 10 + d) cs)"

fun parse_uint :: "nat \<Rightarrow> string \<Rightarrow> int_error_kind + nat" where
  "parse_uint mx [] = Inl Empty"
| "parse_uint mx [c] =
     (if c = CHR ''+'' \<or> c = CHR ''-'' then Inl InvalidDigit else parse_digits mx 0 [c])"
| "parse_uint mx (c # cs) =
     (if c = CHR ''+'' then parse_digits mx 0 cs else parse_digits mx 0 (c # cs))"

definition parse_u16 :: "string \<Rightarrow> int_error_kind + u16" where
  "parse_u16 s = map_sum id word_of_nat (parse_uint (2 ^ 16 - 1) s)"

definition parse_u32 :: "string \<Rightarrow> int_error_kind + u32" where
  "parse_u32 s = map_sum id word_of_nat (parse_uint (2 ^ 32 - 1) s)"

definition parse_u64 :: "string \<Rightarrow> int_error_kind + u64" where
  "parse_u64 s = map_sum id word_of_nat (parse_uint (2 ^ 64 - 1) s)"

definition digit_char :: "nat \<Rightarrow> char" where
  "digit_char d = char_of (48 + d)"

fun show_nat :: "nat \<Rightarrow> string" where
  "show_nat n = (if n < 10 then [digit_char n] else show_nat (n div 10) @ [digit_char (n mod 10)])"

declare show_nat.simps [simp del]

definition show_u16 :: "u16 \<Rightarrow> string" where
  "show_u16 w = show_nat (unat w)"

text \<open>The value a string of digits denotes, and the decimal literals \<open>FromStr\<close> accepts.\<close>

definition dec_value :: "nat \<Rightarrow> string \<Rightarrow> nat" where
  "dec_value acc s = foldl (\<lambda>a c. a * 10 + the (to_digit c)) acc s"

definition is_decimal :: "string \<Rightarrow> bool" where
  "is_decimal s \<longleftrightarrow> s \<noteq> [] \<and> list_all (\<lambda>c. to_digit c \<noteq> None) s"

section \<open>Big-endian byte sequences\<close>

fun be_octets :: "nat \<Rightarrow> nat \<Rightarrow> bytes" where
  "be_octets 0 v = []"
| "be_octets (Suc n) v = be_octets n (v div 256) @ [word_of_nat v]"

definition be_value :: "bytes \<Rightarrow> nat" where
  "be_value bs = foldl (\<lambda>a b. 256 * a + unat b) 0 bs"

definition to_be_bytes :: "u16 \<Rightarrow> bytes" where
  "to_be_bytes w = be_octets 2 (unat w)"

section \<open>Internet addresses\<close>

datatype ip_addr = V4 u32 | V6 "128 word"

record socket_addr =
  sa_ip :: ip_addr
  sa_port :: u16

definition v4_octets :: "u32 \<Rightarrow> bytes" where
  "v4_octets a = be_octets 4 (unat a)"

definition v6_octets :: "128 word \<Rightarrow> bytes" where
  "v6_octets a = be_octets 16 (unat a)"

section \<open>Lemmas on results and effects\<close>

lemma rbind_simps [simp]:
  "rbind (Inl e) f = Inl e"
  "rbind (Inr a) f = f a"
  by (simp_all add: rbind_def)

lemma rbind_eq_Inr [simp]: "rbind r f = Inr b \<longleftrightarrow> (\<exists>a. r = Inr a \<and> f a = Inr b)"
  by (cases r) auto

lemma rbind_eq_Inl: "rbind r f = Inl e \<longleftrightarrow> r = Inl e \<or> (\<exists>a. r = Inr a \<and> f a = Inl e)"
  by (cases r) auto

lemma ok_or_simps [simp]:
  "ok_or e None = Inl e"
  "ok_or e (Some a) = Inr a"
  by (simp_all add: ok_or_def)

lemma ok_or_eq_Inr [simp]: "ok_or e x = Inr a \<longleftrightarrow> x = Some a"
  by (cases x) auto

lemma ok_or_eq_Inl [simp]: "ok_or e x = Inl e' \<longleftrightarrow> x = None \<and> e = e'"
  by (cases x) auto

lemma map_err_simps [simp]:
  "map_err f (Inl e) = Inl (f e)"
  "map_err f (Inr a) = Inr a"
  by (simp_all add: map_err_def)

lemma map_err_eq_Inr [simp]: "map_err f r = Inr a \<longleftrightarrow> r = Inr a"
  by (cases r) auto

lemma map_err_eq_Inl: "map_err f r = Inl e \<longleftrightarrow> (\<exists>e'. r = Inl e' \<and> e = f e')"
  by (cases r) auto

lemma sio_return_apply [sio_simps]: "sio_return a s = (Inr a, s)"
  by (simp add: sio_return_def)

lemma sio_fail_apply [sio_simps]: "sio_fail e s = (Inl e, s)"
  by (simp add: sio_fail_def)

lemma sio_bind_apply [sio_simps]:
  "sio_bind m f s = (case m s of (Inl e, s') \<Rightarrow> (Inl e, s') | (Inr a, s') \<Rightarrow> f a s')"
  by (simp add: sio_bind_def)

lemma sio_map_err_apply [sio_simps]:
  "sio_map_err f m s = (case m s of (r, s') \<Rightarrow> (map_err f r, s'))"
  by (simp add: sio_map_err_def)

lemma sio_bind_Ok:
  "sio_bind m f s = (Inr b, s') \<longleftrightarrow> (\<exists>a s1. m s = (Inr a, s1) \<and> f a s1 = (Inr b, s'))"
  by (auto simp: sio_bind_apply split: prod.splits sum.splits)

lemma sio_bind_Err:
  "sio_bind m f s = (Inl e, s') \<longleftrightarrow>
     m s = (Inl e, s') \<or> (\<exists>a s1. m s = (Inr a, s1) \<and> f a s1 = (Inl e, s'))"
  by (auto simp: sio_bind_apply split: prod.splits sum.splits)

lemma sio_bind_cases:
  assumes "sio_bind m f s = (r, s')"
  obtains (err) e where "m s = (Inl e, s')" "r = Inl e"
  | (ok) a s1 where "m s = (Inr a, s1)" "f a s1 = (r, s')"
  using assms by (auto simp: sio_bind_apply split: prod.splits sum.splits)

lemma sio_map_err_Ok: "sio_map_err f m s = (Inr a, s') \<longleftrightarrow> m s = (Inr a, s')"
  by (auto simp: sio_map_err_apply split: prod.splits)

lemma sio_map_err_Err:
  "sio_map_err f m s = (Inl e, s') \<longleftrightarrow> (\<exists>e'. m s = (Inl e', s') \<and> e = f e')"
  by (auto simp: sio_map_err_apply map_err_eq_Inl split: prod.splits)

lemma neverD: "never e m \<Longrightarrow> fst (m s) \<noteq> Inl e"
  by (simp add: never_def)

lemma never_return [intro!]: "never e (sio_return a)"
  by (simp add: never_def sio_return_apply)

lemma never_fail [intro!]: "e' \<noteq> e \<Longrightarrow> never e (sio_fail e')"
  by (simp add: never_def sio_fail_apply)

lemma never_bind [intro!]:
  "never e m \<Longrightarrow> (\<And>a. never e (f a)) \<Longrightarrow> never e (sio_bind m f)"
  by (simp add: never_def sio_bind_apply split: prod.splits sum.splits) (metis fst_conv)

lemma never_map_err [intro!]: "(\<And>x. f x \<noteq> e) \<Longrightarrow> never e (sio_map_err f m)"
  by (auto simp: never_def sio_map_err_apply map_err_def split: prod.splits sum.splits)

section \<open>Lemmas on strings\<close>

lemma split_once_Some: "split_once pat s = Some (a, b) \<Longrightarrow> s = a @ pat @ b"
  by (induction pat s arbitrary: a rule: split_once.induct)
    (auto simp: prefix_def split: if_splits)

lemma split_once_fresh [rust_std]:
  "pat = p # ps \<Longrightarrow> p \<notin> set a \<Longrightarrow> split_once pat (a @ pat @ b) = Some (a, b)"
proof (induction a)
  case Nil
  then show ?case by simp
next
  case (Cons c a)
  then have "\<not> prefix pat (c # a @ pat @ b)" by auto
  with Cons show ?case by simp
qed

lemma split_once_None: "p \<notin> set s \<Longrightarrow> split_once (p # ps) s = None"
  by (induction s) auto

lemma split_once_char_None [simp]: "split_once [c] s = None \<longleftrightarrow> c \<notin> set s"
  by (induction s) auto

lemma split_once_char_Some: "split_once [c] s = Some (a, b) \<longleftrightarrow> s = a @ c # b \<and> c \<notin> set a"
proof
  show "split_once [c] s = Some (a, b) \<Longrightarrow> s = a @ c # b \<and> c \<notin> set a"
    by (induction s arbitrary: a) (auto split: if_splits)
  show "s = a @ c # b \<and> c \<notin> set a \<Longrightarrow> split_once [c] s = Some (a, b)"
    using split_once_fresh [of "[c]" c "[]" a b] by simp
qed

lemma rsplit_once_None [simp]: "rsplit_once d s = None \<longleftrightarrow> d \<notin> set s"
  by (induction s) (auto split: option.splits)

lemma rsplit_once_Some:
  "rsplit_once d s = Some (a, b) \<longleftrightarrow> s = a @ d # b \<and> d \<notin> set b"
proof
  show "rsplit_once d s = Some (a, b) \<Longrightarrow> s = a @ d # b \<and> d \<notin> set b"
    by (induction s arbitrary: a) (auto split: option.splits if_splits)
  show "s = a @ d # b \<and> d \<notin> set b \<Longrightarrow> rsplit_once d s = Some (a, b)"
  proof (induction a arbitrary: s)
    case Nil
    then have "rsplit_once d b = None" by simp
    with Nil show ?case by (auto simp del: rsplit_once_None)
  qed auto
qed

lemma rsplit_once_append [rust_std]: "d \<notin> set b \<Longrightarrow> rsplit_once d (a @ d # b) = Some (a, b)"
  by (simp add: rsplit_once_Some)

lemma strip_prefix_append [simp]: "strip_prefix p (p @ s) = Some s"
  by (simp add: strip_prefix_def)

lemma strip_prefix_Some: "strip_prefix p s = Some t \<longleftrightarrow> s = p @ t"
  by (auto simp: strip_prefix_def prefix_def)

lemma strip_prefix_None: "strip_prefix p s = None \<longleftrightarrow> \<not> prefix p s"
  by (simp add: strip_prefix_def)

lemma strip_suffix_append [simp]: "strip_suffix p (s @ p) = Some s"
  by (simp add: strip_suffix_def suffix_def)

lemma strip_suffix_Some: "strip_suffix p s = Some t \<longleftrightarrow> s = t @ p"
  by (auto simp: strip_suffix_def suffix_def)

lemma length_to_ascii_lowercase [simp]: "length (to_ascii_lowercase s) = length s"
  by (simp add: to_ascii_lowercase_def)

lemma length_as_bytes [simp]: "length (as_bytes s) = length s"
  by (simp add: as_bytes_def)

lemma from_bytes_as_bytes [simp]: "from_bytes (as_bytes s) = s"
  by (simp add: from_bytes_def as_bytes_def comp_def unat_of_nat nat_of_char_less_256 map_idI)

section \<open>Lemmas on integers and byte sequences\<close>

lemma of_char_digit_char [simp]: "d < 10 \<Longrightarrow> (of_char (digit_char d) :: nat) = 48 + d"
  by (simp add: digit_char_def)

lemma to_digit_digit_char [simp]: "d < 10 \<Longrightarrow> to_digit (digit_char d) = Some d"
  by (simp add: to_digit_def)

lemma digit_char_not_sign: "d < 10 \<Longrightarrow> digit_char d \<noteq> CHR ''+'' \<and> digit_char d \<noteq> CHR ''-''"
proof -
  assume "d < 10"
  then have "(of_char (digit_char d) :: nat) = 48 + d" by simp
  then show ?thesis by auto
qed

lemma parse_digits_append:
  "parse_digits mx acc (xs @ ys) = rbind (parse_digits mx acc xs) (\<lambda>a. parse_digits mx a ys)"
  by (induction xs arbitrary: acc) (auto split: option.splits)

lemma parse_digits_show: "n \<le> mx \<Longrightarrow> parse_digits mx 0 (show_nat n) = Inr n"
proof (induction n rule: show_nat.induct)
  case (1 n)
  show ?case
  proof (cases "n < 10")
    case True
    with 1 show ?thesis by (simp add: show_nat.simps [of n])
  next
    case False
    with 1 have "parse_digits mx 0 (show_nat (n div 10)) = Inr (n div 10)" by auto
    with False 1 show ?thesis
      by (simp add: show_nat.simps [of n] parse_digits_append)
  qed
qed

lemma show_nat_chars: "set (show_nat n) \<subseteq> digit_char ` {..<10}"
  by (induction n rule: show_nat.induct) (subst show_nat.simps, auto)

lemma show_nat_not_Nil [simp]: "show_nat n \<noteq> []"
  by (subst show_nat.simps) simp

lemma parse_uint_digits:
  "s \<noteq> [] \<Longrightarrow> hd s \<noteq> CHR ''+'' \<Longrightarrow> hd s \<noteq> CHR ''-'' \<Longrightarrow> parse_uint mx s = parse_digits mx 0 s"
  by (cases "(mx, s)" rule: parse_uint.cases) auto

lemma parse_uint_show [rust_std]: "n \<le> mx \<Longrightarrow> parse_uint mx (show_nat n) = Inr n"
proof -
  assume "n \<le> mx"
  have "hd (show_nat n) \<in> digit_char ` {..<10}"
    using show_nat_chars [of n] hd_in_set [OF show_nat_not_Nil] by blast
  then show ?thesis
    using \<open>n \<le> mx\<close> digit_char_not_sign by (auto simp: parse_uint_digits parse_digits_show)
qed

lemma dec_value_mono: "acc \<le> dec_value acc s"
proof (induction s arbitrary: acc)
  case (Cons c s)
  have "acc \<le> acc * 10 + the (to_digit c)" by simp
  also have "\<dots> \<le> dec_value (acc * 10 + the (to_digit c)) s" by (rule Cons)
  finally show ?case by (simp add: dec_value_def)
qed (simp add: dec_value_def)

lemma parse_digits_Ok:
  "acc \<le> mx \<Longrightarrow> parse_digits mx acc s = Inr n \<longleftrightarrow>
     list_all (\<lambda>c. to_digit c \<noteq> None) s \<and> n = dec_value acc s \<and> n \<le> mx"
proof (induction mx acc s rule: parse_digits.induct)
  case (1 mx acc)
  then show ?case by (auto simp: dec_value_def)
next
  case (2 mx acc c cs)
  show ?case
  proof (cases "to_digit c")
    case (Some d)
    have step: "dec_value acc (c # cs) = dec_value (acc * 10 + d) cs"
      using Some by (simp add: dec_value_def)
    show ?thesis
    proof (cases "mx < acc * 10 + d")
      case True
      then have "mx < dec_value acc (c # cs)"
        using step dec_value_mono [of "acc * 10 + d" cs] by simp
      with True Some show ?thesis by auto
    next
      case False
      then have "\<not> mx < acc * 10" by simp
      with False Some 2 step show ?thesis by auto
    qed
  qed simp
qed

lemma parse_uint_Ok:
  "parse_uint mx s = Inr n \<longleftrightarrow>
     (\<exists>ds. (s = ds \<or> s = CHR ''+'' # ds) \<and> is_decimal ds \<and> n = dec_value 0 ds \<and> n \<le> mx)"
proof -
  have plus: "to_digit CHR ''+'' = None" and minus: "to_digit CHR ''-'' = None"
    by (simp_all add: to_digit_def)
  show ?thesis
    by (cases "(mx, s)" rule: parse_uint.cases)
      (auto simp: parse_digits_Ok is_decimal_def plus minus simp del: parse_digits.simps)
qed

lemma parse_digits_bound: "acc \<le> mx \<Longrightarrow> parse_digits mx acc s = Inr n \<Longrightarrow> n \<le> mx"
  by (induction mx acc s rule: parse_digits.induct) (auto split: option.splits if_splits)

lemma parse_uint_bound: "parse_uint mx s = Inr n \<Longrightarrow> n \<le> mx"
  by (cases "(mx, s)" rule: parse_uint.cases) (auto simp del: parse_digits.simps dest: parse_digits_bound [rotated] split: if_splits)

lemma unat_lt2p_16: "unat (w :: u16) < 2 ^ 16"
  using unsigned_less [of w, where ?'a = nat] by simp

lemma parse_u16_show [rust_std]: "parse_u16 (show_u16 w) = Inr w"
proof -
  have "unat w \<le> 2 ^ 16 - 1" using unat_lt2p_16 [of w] by simp
  then show ?thesis by (simp add: parse_u16_def show_u16_def parse_uint_show)
qed

lemma parse_u16_unat: "parse_u16 s = Inr w \<longleftrightarrow> parse_uint (2 ^ 16 - 1) s = Inr (unat w)"
proof
  assume "parse_u16 s = Inr w"
  then obtain n where n: "parse_uint (2 ^ 16 - 1) s = Inr n" and w: "w = word_of_nat n"
    by (cases "parse_uint (2 ^ 16 - 1) s") (auto simp: parse_u16_def)
  with parse_uint_bound [OF n] have "unat w = n" by (simp add: unat_of_nat)
  with n show "parse_uint (2 ^ 16 - 1) s = Inr (unat w)" by simp
qed (simp add: parse_u16_def)

lemma length_be_octets [simp]: "length (be_octets n v) = n"
  by (induction n arbitrary: v) auto

lemma be_octets_numeral:
  "be_octets (numeral k) v = be_octets (pred_numeral k) (v div 256) @ [word_of_nat v]"
  by (simp only: numeral_eq_Suc be_octets.simps)

lemma be_value_snoc: "be_value (bs @ [b]) = 256 * be_value bs + unat b"
  by (simp add: be_value_def)

lemma be_value_octets: "be_value (be_octets n v) = v mod 256 ^ n"
proof (induction n arbitrary: v)
  case 0
  then show ?case by (simp add: be_value_def)
next
  case (Suc n)
  have "unat (word_of_nat v :: byte) = v mod 256" by (simp add: unat_of_nat)
  with Suc show ?case by (simp add: be_value_snoc mod_mult2_eq)
qed

lemma be_value_to_be_bytes [simp]: "be_value (to_be_bytes w) = unat w"
  using unat_lt2p_16 [of w] by (simp add: to_be_bytes_def be_value_octets)

lemma length_to_be_bytes [simp]: "length (to_be_bytes w) = 2"
  by (simp add: to_be_bytes_def)

lemma unat_mod_len: "unat (w :: 'a::len word) mod 2 ^ LENGTH('a) = unat w"
  using unsigned_less [of w, where ?'a = nat] by simp

lemma be_value_v4_octets [simp]: "be_value (v4_octets a) = unat a"
  using unat_mod_len [of a] by (simp add: v4_octets_def be_value_octets)

lemma be_value_v6_octets [simp]: "be_value (v6_octets a) = unat a"
  using unat_mod_len [of a] by (simp add: v6_octets_def be_value_octets)

lemma length_octets [simp]: "length (v4_octets a) = 4" "length (v6_octets b) = 16"
  by (simp_all add: v4_octets_def v6_octets_def)

lemma set_mono_subseq: "subseq xs ys \<Longrightarrow> set xs \<subseteq> set ys"
  by (induction rule: list_emb.induct) auto

lemma length_one: "length xs = Suc 0 \<longleftrightarrow> (\<exists>a. xs = [a])"
  by (cases xs) auto

lemma length_two: "length xs = 2 \<longleftrightarrow> (\<exists>a b. xs = [a, b])"
  by (cases xs; cases "tl xs") auto

lemma length_three: "length xs = 3 \<longleftrightarrow> (\<exists>a b c. xs = [a, b, c])"
  by (cases xs; cases "tl xs"; cases "tl (tl xs)") auto

lemmas length_small = length_one length_two length_three

section \<open>Transition systems\<close>

text \<open>
  A system whose steps keep an invariant and that is never stuck while it runs: from any good
  state, everything reachable is good and can move on.
\<close>

locale transition_system =
  fixes step :: "'s \<Rightarrow> 's \<Rightarrow> bool" and inv :: "'s \<Rightarrow> bool"
  assumes step_inv: "inv s \<Longrightarrow> step s s' \<Longrightarrow> inv s'"
begin

lemma steps_inv: "step\<^sup>*\<^sup>* s s' \<Longrightarrow> inv s \<Longrightarrow> inv s'"
  by (induction rule: rtranclp_induct) (auto intro: step_inv)

end

locale live_system = transition_system step inv for step :: "'s \<Rightarrow> 's \<Rightarrow> bool" and inv :: "'s \<Rightarrow> bool" +
  fixes running :: "'s \<Rightarrow> bool" and advance :: "'s \<Rightarrow> 's \<Rightarrow> bool"
  assumes progress: "inv s \<Longrightarrow> running s \<Longrightarrow> \<exists>s'. step s s' \<and> advance s s'"
begin

lemma steps_progress: "step\<^sup>*\<^sup>* s s' \<Longrightarrow> inv s \<Longrightarrow> running s' \<Longrightarrow> \<exists>s''. step s' s'' \<and> advance s' s''"
  using steps_inv progress by blast

end

end
