(* ===== verification/Tokio_Iface.thy ===== *)
theory Tokio_Iface
  imports Socks_Prelude
begin

text \<open>
  The parts of tokio the program calls, as parameters: a record of operations for a duplex
  byte stream (\<open>AsyncReadExt\<close> / \<open>AsyncWriteExt\<close>) and one for a bounded
  \<open>mpsc\<close> channel. The definitions of the program take these records as arguments. What
  the program relies on is stated as predicates (\<open>stream_laws\<close>, \<open>reliable_stream\<close>,
  \<open>mpsc_laws\<close>) over history or queue observers of the unknown state, and each predicate
  is shown satisfiable by a concrete instance that the witnesses use.
\<close>

section \<open>Byte streams\<close>

record ('s, 'e) stream_ops =
  write_all :: "bytes \<Rightarrow> ('s, 'e, unit) sio"
  read_exact :: "nat \<Rightarrow> ('s, 'e, bytes) sio"
  read_some :: "nat \<Rightarrow> ('s, 'e, bytes) sio"
  flush :: "('s, 'e, unit) sio"
  readable :: "'s \<Rightarrow> bool"
  writable :: "'s \<Rightarrow> bool"
  peer_moves :: "'s \<Rightarrow> 's \<Rightarrow> bool"

text \<open>
  \<open>sent\<close> and \<open>rcvd\<close> observe the bytes written to and taken from the stream so far.
  \<open>write_all\<close> writes the whole buffer or fails after some prefix of it;
  \<open>read_exact\<close> fills the buffer, or fails having taken no more than it needed;
  \<open>read\<close> returns at most as many bytes as the buffer holds. A call is awaited: a read
  completes only once the stream is \<open>readable\<close>, a write or flush once it is
  \<open>writable\<close>, and neither need ever happen. What the other end does meanwhile is
  \<open>peer_moves\<close>; it may make the stream ready, and changes nothing already written or read.
\<close>

definition stream_laws ::
  "('s, 'e) stream_ops \<Rightarrow> ('s \<Rightarrow> bytes) \<Rightarrow> ('s \<Rightarrow> bytes) \<Rightarrow> bool" where
  "stream_laws S sent rcvd \<longleftrightarrow>
     (\<forall>bs s s'. write_all S bs s = (Inr (), s') \<longrightarrow> sent s' = sent s @ bs \<and> rcvd s' = rcvd s) \<and>
     (\<forall>bs s e s'. write_all S bs s = (Inl e, s') \<longrightarrow>
        (\<exists>p. prefix p bs \<and> sent s' = sent s @ p) \<and> rcvd s' = rcvd s) \<and>
     (\<forall>n s bs s'. read_exact S n s = (Inr bs, s') \<longrightarrow>
        length bs = n \<and> rcvd s' = rcvd s @ bs \<and> sent s' = sent s) \<and>
     (\<forall>n s e s'. read_exact S n s = (Inl e, s') \<longrightarrow>
        (\<exists>p. length p \<le> n \<and> rcvd s' = rcvd s @ p) \<and> sent s' = sent s) \<and>
     (\<forall>n s bs s'. read_some S n s = (Inr bs, s') \<longrightarrow>
        length bs \<le> n \<and> rcvd s' = rcvd s @ bs \<and> sent s' = sent s) \<and>
     (\<forall>n s e s'. read_some S n s = (Inl e, s') \<longrightarrow> rcvd s' = rcvd s \<and> sent s' = sent s) \<and>
     (\<forall>s r s'. flush S s = (r, s') \<longrightarrow> rcvd s' = rcvd s \<and> sent s' = sent s) \<and>
     (\<forall>s s'. peer_moves S s s' \<longrightarrow> rcvd s' = rcvd s \<and> sent s' = sent s)"

text \<open>
  A stream on a working connection: writes succeed, and a read finds the bytes the peer sends,
  of which \<open>incoming\<close> are still unread.
\<close>

definition reliable_stream ::
  "('s, 'e) stream_ops \<Rightarrow> ('s \<Rightarrow> bytes) \<Rightarrow> ('s \<Rightarrow> bytes) \<Rightarrow> bool" where
  "reliable_stream S sent incoming \<longleftrightarrow>
     (\<forall>bs s. \<exists>s'. write_all S bs s = (Inr (), s') \<and> sent s' = sent s @ bs \<and>
        incoming s' = incoming s) \<and>
     (\<forall>n s. n \<le> length (incoming s) \<longrightarrow>
        (\<exists>s'. read_exact S n s = (Inr (take n (incoming s)), s') \<and>
           incoming s' = drop n (incoming s) \<and> sent s' = sent s))"

text \<open>A concrete stream: a script of bytes to be read and a transcript of what was written.\<close>

record script =
  to_read :: bytes
  written :: bytes
  was_read :: bytes

datatype script_error = UnexpectedEof

definition script_stream :: "(script, script_error) stream_ops" where
  "script_stream = \<lparr>
     write_all = (\<lambda>bs s. (Inr (), s\<lparr>written := written s @ bs\<rparr>)),
     read_exact = (\<lambda>n s. if n \<le> length (to_read s)
        then (Inr (take n (to_read s)),
              s\<lparr>to_read := drop n (to_read s), was_read := was_read s @ take n (to_read s)\<rparr>)
        else (Inl UnexpectedEof, s\<lparr>to_read := [], was_read := was_read s @ to_read s\<rparr>)),
     read_some = (\<lambda>n s. (Inr (take n (to_read s)),
        s\<lparr>to_read := drop n (to_read s), was_read := was_read s @ take n (to_read s)\<rparr>)),
     flush = (\<lambda>s. (Inr (), s)),
     readable = (\<lambda>_. True), writable = (\<lambda>_. True), peer_moves = (\<lambda>s s'. s' = s)\<rparr>"

text \<open>
  The same stream on a connection that stays open: with nothing to read a read waits, and the
  peer may send more at any time.
\<close>

definition live_stream :: "(script, script_error) stream_ops" where
  "live_stream = script_stream\<lparr>
     readable := (\<lambda>s. to_read s \<noteq> []),
     peer_moves := (\<lambda>s s'. prefix (to_read s) (to_read s') \<and> written s' = written s \<and> was_read s' = was_read s)\<rparr>"

definition script_start :: "bytes \<Rightarrow> script" where
  "script_start bs = \<lparr>to_read = bs, written = [], was_read = []\<rparr>"

section \<open>Bounded channels\<close>

text \<open>
  \<open>'c\<close> is the state of a channel as its receiver sees it. \<open>try_recv\<close> and
  \<open>try_send\<close> never wait; \<open>rx_closed\<close> is \<open>Receiver::is_closed\<close>, \<open>rx_empty\<close>
  is \<open>Receiver::is_empty\<close>.
\<close>

record ('c, 'a) mpsc_ops =
  chan_new :: "nat \<Rightarrow> 'c"
  try_send :: "'a \<Rightarrow> 'c \<Rightarrow> bool \<times> 'c"
  try_recv :: "'c \<Rightarrow> 'a option \<times> 'c"
  rx_closed :: "'c \<Rightarrow> bool"
  rx_empty :: "'c \<Rightarrow> bool"

text \<open>
  \<open>queue\<close> observes the messages in the channel, oldest first, \<open>cap\<close> its capacity.
  A send is accepted only while there is room and appends; a refused message is dropped; a
  receive takes the oldest message and reports an empty channel only when it is empty.
\<close>

definition mpsc_laws ::
  "('c, 'a) mpsc_ops \<Rightarrow> ('c \<Rightarrow> 'a list) \<Rightarrow> ('c \<Rightarrow> nat) \<Rightarrow> bool" where
  "mpsc_laws M queue cap \<longleftrightarrow>
     (\<forall>n. queue (chan_new M n) = [] \<and> cap (chan_new M n) = n) \<and>
     (\<forall>x c c'. try_send M x c = (True, c') \<longrightarrow>
        queue c' = queue c @ [x] \<and> length (queue c) < cap c \<and> cap c' = cap c) \<and>
     (\<forall>x c c'. try_send M x c = (False, c') \<longrightarrow> queue c' = queue c \<and> cap c' = cap c) \<and>
     (\<forall>c x c'. try_recv M c = (Some x, c') \<longrightarrow> queue c = x # queue c' \<and> cap c' = cap c) \<and>
     (\<forall>c c'. try_recv M c = (None, c') \<longrightarrow> queue c = [] \<and> queue c' = [] \<and> cap c' = cap c) \<and>
     (\<forall>c. rx_empty M c \<longleftrightarrow> queue c = [])"

text \<open>
  While a channel is open and has room a send is accepted; neither a send nor a receive closes
  or reopens it.
\<close>

definition open_laws :: "('c, 'a) mpsc_ops \<Rightarrow> ('c \<Rightarrow> 'a list) \<Rightarrow> ('c \<Rightarrow> nat) \<Rightarrow> bool" where
  "open_laws M queue cap \<longleftrightarrow>
     (\<forall>x c. \<not> rx_closed M c \<longrightarrow> length (queue c) < cap c \<longrightarrow> fst (try_send M x c)) \<and>
     (\<forall>x c. rx_closed M (snd (try_send M x c)) = rx_closed M c) \<and>
     (\<forall>c. rx_closed M (snd (try_recv M c)) = rx_closed M c)"

text \<open>
  Of the senders: a new channel has one, sending needs one, and dropping the last leaves the
  messages in the channel.
\<close>

definition sender_laws :: "('c, 'x) mpsc_ops \<Rightarrow> ('c \<Rightarrow> 'c) \<Rightarrow> ('c \<Rightarrow> 'x list) \<Rightarrow> bool" where
  "sender_laws M drop_tx queue \<longleftrightarrow>
     (\<forall>n. \<not> rx_closed M (chan_new M n)) \<and> (\<forall>x c. rx_closed M (snd (try_send M x c)) = rx_closed M c) \<and>
     (\<forall>c. rx_closed M (drop_tx c) \<and> queue (drop_tx c) = queue c)"

text \<open>
  A concrete channel: its messages, its capacity and whether every sender is gone, so that
  nothing can be sent any more.
\<close>

record 'a buf_chan =
  bc_queue :: "'a list"
  bc_cap :: nat
  bc_closed :: bool

definition buf_mpsc :: "('a buf_chan, 'a) mpsc_ops" where
  "buf_mpsc = \<lparr>
     chan_new = (\<lambda>n. \<lparr>bc_queue = [], bc_cap = n, bc_closed = False\<rparr>),
     try_send = (\<lambda>x c. if length (bc_queue c) < bc_cap c \<and> \<not> bc_closed c
        then (True, c\<lparr>bc_queue := bc_queue c @ [x]\<rparr>) else (False, c)),
     try_recv = (\<lambda>c. case bc_queue c of [] \<Rightarrow> (None, c) | x # xs \<Rightarrow> (Some x, c\<lparr>bc_queue := xs\<rparr>)),
     rx_closed = bc_closed,
     rx_empty = (\<lambda>c. bc_queue c = [])\<rparr>"

section \<open>Consequences of the laws\<close>

lemma write_all_Ok:
  "stream_laws S sent rcvd \<Longrightarrow> write_all S bs s = (Inr u, s') \<Longrightarrow>
     sent s' = sent s @ bs \<and> rcvd s' = rcvd s"
  by (cases u) (auto simp: stream_laws_def)

lemma write_all_Err:
  "stream_laws S sent rcvd \<Longrightarrow> write_all S bs s = (Inl e, s') \<Longrightarrow>
     (\<exists>p. prefix p bs \<and> sent s' = sent s @ p) \<and> rcvd s' = rcvd s"
  by (auto simp: stream_laws_def)

lemma read_exact_Ok:
  "stream_laws S sent rcvd \<Longrightarrow> read_exact S n s = (Inr bs, s') \<Longrightarrow>
     length bs = n \<and> rcvd s' = rcvd s @ bs \<and> sent s' = sent s"
  by (auto simp: stream_laws_def)

lemma read_exact_Err:
  "stream_laws S sent rcvd \<Longrightarrow> read_exact S n s = (Inl e, s') \<Longrightarrow>
     (\<exists>p. length p \<le> n \<and> rcvd s' = rcvd s @ p) \<and> sent s' = sent s"
  by (auto simp: stream_laws_def)

lemma read_some_Ok:
  "stream_laws S sent rcvd \<Longrightarrow> read_some S n s = (Inr bs, s') \<Longrightarrow>
     length bs \<le> n \<and> rcvd s' = rcvd s @ bs \<and> sent s' = sent s"
  by (auto simp: stream_laws_def)

lemma read_some_Err:
  "stream_laws S sent rcvd \<Longrightarrow> read_some S n s = (Inl e, s') \<Longrightarrow> rcvd s' = rcvd s \<and> sent s' = sent s"
  by (auto simp: stream_laws_def)

lemma flush_frame:
  "stream_laws S sent rcvd \<Longrightarrow> flush S s = (r, s') \<Longrightarrow> rcvd s' = rcvd s \<and> sent s' = sent s"
  by (auto simp: stream_laws_def)

lemma peer_moves_frame:
  "stream_laws S sent rcvd \<Longrightarrow> peer_moves S s s' \<Longrightarrow> rcvd s' = rcvd s \<and> sent s' = sent s"
  by (auto simp: stream_laws_def)

lemma reliable_write:
  "reliable_stream S sent incoming \<Longrightarrow>
     \<exists>s'. write_all S bs s = (Inr (), s') \<and> sent s' = sent s @ bs \<and> incoming s' = incoming s"
  by (auto simp: reliable_stream_def)

lemma reliable_read:
  assumes "reliable_stream S sent incoming" and "incoming s = bs @ rest" and "length bs = n"
  shows "\<exists>s'. read_exact S n s = (Inr bs, s') \<and> incoming s' = rest \<and> sent s' = sent s"
proof -
  have "n \<le> length (incoming s)" using assms(2,3) by simp
  then obtain s' where "read_exact S n s = (Inr (take n (incoming s)), s')"
    and "incoming s' = drop n (incoming s)" and "sent s' = sent s"
    using assms(1) unfolding reliable_stream_def by blast
  then show ?thesis using assms(2,3) by auto
qed

lemma script_stream_laws: "stream_laws script_stream written was_read"
  by (auto simp: stream_laws_def script_stream_def split: if_splits)

lemma live_stream_laws: "stream_laws live_stream written was_read"
  by (auto simp: stream_laws_def live_stream_def script_stream_def split: if_splits)

lemma script_stream_reliable: "reliable_stream script_stream written to_read"
  by (auto simp: reliable_stream_def script_stream_def)

lemma try_send_True:
  "mpsc_laws M queue cap \<Longrightarrow> try_send M x c = (True, c') \<Longrightarrow>
     queue c' = queue c @ [x] \<and> length (queue c) < cap c \<and> cap c' = cap c"
  unfolding mpsc_laws_def by blast+

lemma try_send_False:
  "mpsc_laws M queue cap \<Longrightarrow> try_send M x c = (False, c') \<Longrightarrow> queue c' = queue c \<and> cap c' = cap c"
  unfolding mpsc_laws_def by blast+

lemma try_recv_Some:
  "mpsc_laws M queue cap \<Longrightarrow> try_recv M c = (Some x, c') \<Longrightarrow>
     queue c = x # queue c' \<and> cap c' = cap c"
  unfolding mpsc_laws_def by blast+

lemma try_recv_None:
  "mpsc_laws M queue cap \<Longrightarrow> try_recv M c = (None, c') \<Longrightarrow>
     queue c = [] \<and> queue c' = [] \<and> cap c' = cap c"
  unfolding mpsc_laws_def by blast+

lemma try_send_room:
  assumes "open_laws M queue cap" and "\<not> rx_closed M c" and "length (queue c) < cap c"
  shows "\<exists>c'. try_send M x c = (True, c')"
  using assms unfolding open_laws_def by (metis prod.collapse)

lemma open_laws_send: "open_laws M queue cap \<Longrightarrow> try_send M x c = (ok, c') \<Longrightarrow> rx_closed M c' = rx_closed M c"
  and open_laws_recv: "open_laws M queue cap \<Longrightarrow> try_recv M c = (r, c') \<Longrightarrow> rx_closed M c' = rx_closed M c"
  unfolding open_laws_def by (metis snd_conv)+

lemma chan_new_queue:
  "mpsc_laws M queue cap \<Longrightarrow> queue (chan_new M n) = []"
  "mpsc_laws M queue cap \<Longrightarrow> cap (chan_new M n) = n"
  unfolding mpsc_laws_def by blast+

lemma rx_empty_iff: "mpsc_laws M queue cap \<Longrightarrow> rx_empty M c \<longleftrightarrow> queue c = []"
  unfolding mpsc_laws_def by blast+

lemma try_recv_Nil:
  assumes "mpsc_laws M queue cap" and "queue c = []"
  shows "\<exists>c'. try_recv M c = (None, c') \<and> queue c' = []"
proof (cases "try_recv M c")
  case (Pair r c')
  then show ?thesis
    using assms try_recv_Some [OF assms(1), of c _ c'] try_recv_None [OF assms(1), of c c']
    by (cases r) simp_all
qed

lemma try_recv_Cons:
  assumes "mpsc_laws M queue cap" and "queue c = x # xs"
  shows "\<exists>c'. try_recv M c = (Some x, c') \<and> queue c' = xs \<and> cap c' = cap c"
proof (cases "try_recv M c")
  case (Pair r c')
  then show ?thesis
    using assms try_recv_Some [OF assms(1), of c _ c'] try_recv_None [OF assms(1), of c c']
    by (cases r) simp_all
qed

lemma buf_open_laws: "open_laws buf_mpsc bc_queue bc_cap"
  by (auto simp: open_laws_def buf_mpsc_def split: list.splits)

abbreviation demo_drop_tx :: "'x buf_chan \<Rightarrow> 'x buf_chan" where
  "demo_drop_tx \<equiv> bc_closed_update (\<lambda>_. True)"

lemma buf_sender_laws: "sender_laws buf_mpsc demo_drop_tx bc_queue"
  by (simp add: sender_laws_def buf_mpsc_def)

lemma buf_mpsc_laws: "mpsc_laws buf_mpsc bc_queue bc_cap"
  by (auto simp: mpsc_laws_def buf_mpsc_def split: if_splits list.splits)

end
