(* ===== verification/Vconn.thy ===== *)
theory Vconn
  imports Tokio_Iface
begin

text \<open>
  The virtual connection of \<open>src/netstack/vconn.rs\<close>: the metadata, the commands a relay
  sends to the actor, the errors it gets back, and the four calls of \<open>VConn\<close>. A call
  makes a oneshot channel, sends a command and awaits the reply; channels are tokio's and
  everything that happens between send and reply happens elsewhere, so these are operations
  on an unknown world (\<open>vconn_ops\<close>). An await that never completes is \<open>None\<close>;
  an await that completes gives a reply, or none when the reply half was dropped.
\<close>

section \<open>Data\<close>

record conn_meta =
  src :: socket_addr
  dst :: socket_addr

datatype io_error_kind = WouldBlock

datatype vconn_error = Closed | Reset | ActorGone | Io io_error_kind string

text \<open>\<open>'r\<close> names the reply half of a oneshot channel.\<close>

datatype 'r conn_cmd =
    Read nat 'r
  | Write bytes 'r
  | CloseWrite 'r
  | Close 'r

record 'tx vconn =
  meta :: conn_meta
  cmd :: 'tx

section \<open>Calls\<close>

record ('w, 'tx, 'r) vconn_ops =
  oneshot :: "'w \<Rightarrow> 'r \<times> 'w"
  send_cmd :: "'tx \<Rightarrow> 'r conn_cmd \<Rightarrow> 'w \<Rightarrow> bool \<times> 'w"
  await_read :: "'r \<Rightarrow> 'w \<Rightarrow> ((vconn_error + bytes) option \<times> 'w) option"
  await_write :: "'r \<Rightarrow> 'w \<Rightarrow> ((vconn_error + nat) option \<times> 'w) option"
  await_unit :: "'r \<Rightarrow> 'w \<Rightarrow> ((vconn_error + unit) option \<times> 'w) option"

type_synonym ('w, 'a) vconn_call = "'w \<Rightarrow> ((vconn_error + 'a) \<times> 'w) option"

definition vconn_new :: "conn_meta \<Rightarrow> 'tx \<Rightarrow> 'tx vconn" where
  "vconn_new m c = \<lparr>meta = m, cmd = c\<rparr>"

definition destination :: "'tx vconn \<Rightarrow> socket_addr" where
  "destination self = dst (meta self)"

text \<open>
  The shape the four calls share: a closed command channel, or a reply half dropped without a
  reply, is \<open>ActorGone\<close>.
\<close>

definition request ::
  "('w, 'tx, 'r) vconn_ops \<Rightarrow> ('r \<Rightarrow> 'w \<Rightarrow> ((vconn_error + 'a) option \<times> 'w) option) \<Rightarrow>
   'tx \<Rightarrow> ('r \<Rightarrow> 'r conn_cmd) \<Rightarrow> ('w, 'a) vconn_call" where
  "request V await tx mk w =
     (let (r, w1) = oneshot V w; (ok, w2) = send_cmd V tx (mk r) w1 in
      if \<not> ok then Some (Inl ActorGone, w2)
      else case await r w2 of
          None \<Rightarrow> None
        | Some (None, w3) \<Rightarrow> Some (Inl ActorGone, w3)
        | Some (Some res, w3) \<Rightarrow> Some (res, w3))"

definition vconn_read :: "('w, 'tx, 'r) vconn_ops \<Rightarrow> 'tx vconn \<Rightarrow> nat \<Rightarrow> ('w, bytes) vconn_call" where
  "vconn_read V self max_len = request V (await_read V) (cmd self) (Read max_len)"

definition vconn_write :: "('w, 'tx, 'r) vconn_ops \<Rightarrow> 'tx vconn \<Rightarrow> bytes \<Rightarrow> ('w, nat) vconn_call" where
  "vconn_write V self data = request V (await_write V) (cmd self) (Write data)"

definition vconn_close_write :: "('w, 'tx, 'r) vconn_ops \<Rightarrow> 'tx vconn \<Rightarrow> ('w, unit) vconn_call" where
  "vconn_close_write V self = request V (await_unit V) (cmd self) CloseWrite"

definition vconn_close :: "('w, 'tx, 'r) vconn_ops \<Rightarrow> 'tx vconn \<Rightarrow> ('w, unit) vconn_call" where
  "vconn_close V self = request V (await_unit V) (cmd self) Close"

section \<open>Lemmas\<close>

lemma request_cases:
  assumes "request V await tx mk w = Some (res, w')"
  obtains (refused) r w1 where "oneshot V w = (r, w1)" "send_cmd V tx (mk r) w1 = (False, w')" "res = Inl ActorGone"
  | (dropped) r w1 w2 where "oneshot V w = (r, w1)" "send_cmd V tx (mk r) w1 = (True, w2)"
      "await r w2 = Some (None, w')" "res = Inl ActorGone"
  | (replied) r w1 w2 where "oneshot V w = (r, w1)" "send_cmd V tx (mk r) w1 = (True, w2)"
      "await r w2 = Some (Some res, w')"
  using assms by (auto simp: request_def Let_def split: prod.splits if_splits option.splits)

end
