(* ===== verification/Socks5.thy ===== *)
theory Socks5
  imports Tokio_Iface
begin

text \<open>
  The SOCKS5 client of \<open>src/socks5.rs\<close>: the wire constants, address serialisation, the
  username/password sub-negotiation, the handshake and the dialer. The stream and the TCP
  dialer are tokio's, so they are parameters (\<open>stream_ops\<close>, \<open>dial_ops\<close>). The
  handshake is verified against a grammar of accepted conversations (\<open>conversation\<close>)
  and the serialisers against decoders written from RFC 1928 and RFC 1929.
\<close>

section \<open>Protocol constants\<close>

definition VERSION :: byte where "VERSION = 0x05"

definition NO_AUTH :: byte where "NO_AUTH = 0x00"
definition USER_PASS :: byte where "USER_PASS = 0x02"
definition NONE_ACCEPTABLE :: byte where "NONE_ACCEPTABLE = 0xff"

definition CONNECT :: byte where "CONNECT = 0x01"

definition IPV4 :: byte where "IPV4 = 0x01"
definition DOMAIN :: byte where "DOMAIN = 0x03"
definition IPV6 :: byte where "IPV6 = 0x04"

lemmas socks5_consts = VERSION_def NO_AUTH_def USER_PASS_def NONE_ACCEPTABLE_def CONNECT_def
  IPV4_def DOMAIN_def IPV6_def

section \<open>Data\<close>

datatype bind_addr = Ip ip_addr | Domain string

record credentials =
  username :: string
  password :: string

record socks5_proxy =
  host :: string
  port :: u16
  creds :: "credentials option"

record 's upstream =
  up_stream :: 's
  up_local_addr :: socket_addr

text \<open>One constructor per \<open>bail!\<close> and \<open>anyhow!\<close> of the file; \<open>IoError\<close> is \<open>?\<close> on I/O.\<close>

datatype 'e socks_error =
    IoError 'e
  | VersionMismatched byte
  | AuthRequired
  | NoAcceptableMethod
  | UnsupportedMethod byte
  | AuthEmpty
  | AuthTooLong
  | AuthRejected
  | ConnectRejected string
  | UnsupportedReplyAtyp byte

datatype 'e connect_error =
    ConnectSocks5 string 'e
  | HandshakeError "'e socks_error"

section \<open>Serialisation\<close>

definition write_request :: "bind_addr \<Rightarrow> bytes \<Rightarrow> u16 \<Rightarrow> bytes" where
  "write_request self w pt =
     (case self of
        Ip (V4 v4) \<Rightarrow> w @ [IPV4] @ v4_octets v4
      | Ip (V6 v6) \<Rightarrow> w @ [IPV6] @ v6_octets v6
      | Domain d \<Rightarrow> w @ [DOMAIN] @ [word_of_nat (length d)] @ as_bytes d) @ to_be_bytes pt"

definition from_ip :: "ip_addr \<Rightarrow> bind_addr" where
  "from_ip ip = Ip ip"

definition v4_unspecified :: bind_addr where
  "v4_unspecified = Ip (V4 0)"

definition v6_unspecified :: bind_addr where
  "v6_unspecified = Ip (V6 0)"

definition reply_str :: "byte \<Rightarrow> string" where
  "reply_str rep =
     (if rep = 0x00 then ''succeeded''
      else if rep = 0x01 then ''general SOCKS server failure''
      else if rep = 0x02 then ''connection not allowed by ruleset''
      else if rep = 0x03 then ''network unreachable''
      else if rep = 0x04 then ''host unreachable''
      else if rep = 0x05 then ''connection refused''
      else if rep = 0x06 then ''TTL expired''
      else if rep = 0x07 then ''command not supported''
      else if rep = 0x08 then ''address type not supported''
      else ''unassigned'')"

section \<open>Handshake\<close>

abbreviation io :: "('s, 'e, 'a) sio \<Rightarrow> ('s, 'e socks_error, 'a) sio" where
  "io \<equiv> sio_map_err IoError"

definition auth_userpass ::
  "('s, 'e) stream_ops \<Rightarrow> credentials \<Rightarrow> ('s, 'e socks_error, unit) sio" where
  "auth_userpass S cr =
     (let u = username cr; p = password cr in
      if u = [] \<or> p = [] then sio_fail AuthEmpty
      else if length u > 255 \<or> length p > 255 then sio_fail AuthTooLong
      else
        sio_bind (io (write_all S
          ([0x01] @ [word_of_nat (length u)] @ as_bytes u @ [word_of_nat (length p)] @ as_bytes p)))
        (\<lambda>_. sio_bind (io (read_exact S 2))
        (\<lambda>status. if status ! 1 \<noteq> 0x00 then sio_fail AuthRejected else sio_return ())))"

definition read_bind_addr :: "('s, 'e) stream_ops \<Rightarrow> ('s, 'e socks_error, unit) sio" where
  "read_bind_addr S =
     sio_bind (io (read_exact S 1)) (\<lambda>atyp.
     sio_bind
       (if atyp ! 0 = IPV4 then sio_return 4
        else if atyp ! 0 = IPV6 then sio_return 16
        else if atyp ! 0 = DOMAIN then
          sio_bind (io (read_exact S 1)) (\<lambda>len. sio_return (unat (len ! 0)))
        else sio_fail (UnsupportedReplyAtyp (atyp ! 0)))
       (\<lambda>skip. sio_bind (io (read_exact S (skip + 2))) (\<lambda>_. sio_return ())))"

definition client_handshake ::
  "('s, 'e) stream_ops \<Rightarrow> socket_addr \<Rightarrow> credentials option \<Rightarrow> ('s, 'e socks_error, unit) sio" where
  "client_handshake S target user =
     (let method = (case user of Some _ \<Rightarrow> USER_PASS | None \<Rightarrow> NO_AUTH) in
      sio_bind (io (write_all S [VERSION, 0x01, method])) (\<lambda>_.
      sio_bind (io (read_exact S 2)) (\<lambda>greeting.
      if greeting ! 0 \<noteq> VERSION then sio_fail (VersionMismatched (greeting ! 0))
      else
        sio_bind
          (if greeting ! 1 = USER_PASS then
             (case user of
                None \<Rightarrow> sio_fail AuthRequired
              | Some cr \<Rightarrow> auth_userpass S cr)
           else if greeting ! 1 = NO_AUTH then sio_return ()
           else if greeting ! 1 = NONE_ACCEPTABLE then sio_fail NoAcceptableMethod
           else sio_fail (UnsupportedMethod (greeting ! 1)))
          (\<lambda>_.
        sio_bind (io (write_all S
          (write_request (Ip (sa_ip target)) [VERSION, CONNECT, 0x00] (sa_port target)))) (\<lambda>_.
        sio_bind (io (read_exact S 3)) (\<lambda>rep.
        if rep ! 1 \<noteq> 0x00 then sio_fail (ConnectRejected (reply_str (rep ! 1)))
        else sio_bind (read_bind_addr S) (\<lambda>_. sio_return ())))))))"

section \<open>The dialer\<close>

record ('s, 'e) dial_ops =
  tcp_connect :: "string \<Rightarrow> 'e + 's"
  set_nodelay :: "'s \<Rightarrow> 's"
  local_addr :: "'s \<Rightarrow> 'e + socket_addr"

definition socks5_proxy_new ::
  "string \<Rightarrow> u16 \<Rightarrow> string option \<Rightarrow> string option \<Rightarrow> socks5_proxy" where
  "socks5_proxy_new h p u pw =
     (let c = (case (u, pw) of
                 (Some u, Some p) \<Rightarrow> Some \<lparr>username = u, password = p\<rparr>
               | _ \<Rightarrow> None)
      in \<lparr>host = h, port = p, creds = c\<rparr>)"

definition server_addr :: "socks5_proxy \<Rightarrow> string" where
  "server_addr self = host self @ '':'' @ show_u16 (port self)"

definition handshake ::
  "('s, 'e) stream_ops \<Rightarrow> socks5_proxy \<Rightarrow> socket_addr \<Rightarrow> ('s, 'e socks_error, unit) sio" where
  "handshake S self target = client_handshake S target (creds self)"

definition connect ::
  "('s, 'e) dial_ops \<Rightarrow> ('s, 'e) stream_ops \<Rightarrow> socks5_proxy \<Rightarrow> socket_addr \<Rightarrow>
   'e connect_error + 's upstream" where
  "connect D S self target =
     (let addr = server_addr self in
      rbind (map_err (ConnectSocks5 addr) (tcp_connect D addr)) (\<lambda>stream0.
      let stream = set_nodelay D stream0;
          la = (case local_addr D stream of
                  Inr a \<Rightarrow> a
                | Inl _ \<Rightarrow> \<lparr>sa_ip = sa_ip target, sa_port = 0\<rparr>)
      in case handshake S self target stream of
           (Inl e, _) \<Rightarrow> Inl (HandshakeError e)
         | (Inr _, stream') \<Rightarrow> Inr \<lparr>up_stream = stream', up_local_addr = la\<rparr>))"

section \<open>Specification: the conversation and the server's decoders\<close>

definition greeting_msg :: "credentials option \<Rightarrow> bytes" where
  "greeting_msg user = [5, 1, if user = None then 0 else 2]"

definition userpass_msg :: "credentials \<Rightarrow> bytes" where
  "userpass_msg cr = [1, word_of_nat (length (username cr))] @ as_bytes (username cr) @
     [word_of_nat (length (password cr))] @ as_bytes (password cr)"

definition connect_msg :: "socket_addr \<Rightarrow> bytes" where
  "connect_msg t = write_request (Ip (sa_ip t)) [5, 1, 0] (sa_port t)"

definition creds_ok :: "credentials \<Rightarrow> bool" where
  "creds_ok cr \<longleftrightarrow> 0 < length (username cr) \<and> length (username cr) \<le> 255 \<and>
     0 < length (password cr) \<and> length (password cr) \<le> 255"

text \<open>A reply's BND.ADDR and BND.PORT: an address type, the address it announces, two port bytes.\<close>

inductive bnd_addr :: "bytes \<Rightarrow> bool" where
  v4: "length a = 4 \<Longrightarrow> length p = 2 \<Longrightarrow> bnd_addr ([1] @ a @ p)"
| v6: "length a = 16 \<Longrightarrow> length p = 2 \<Longrightarrow> bnd_addr ([4] @ a @ p)"
| domain: "length a = unat n \<Longrightarrow> length p = 2 \<Longrightarrow> bnd_addr ([3, n] @ a @ p)"

text \<open>
  \<open>conversation user t out inp\<close>: the client writes \<open>out\<close> and the server
  \<open>inp\<close> in a handshake for \<open>t\<close> that both sides complete.
\<close>

inductive conversation :: "credentials option \<Rightarrow> socket_addr \<Rightarrow> bytes \<Rightarrow> bytes \<Rightarrow> bool" where
  no_auth: "bnd_addr b \<Longrightarrow>
     conversation user t (greeting_msg user @ connect_msg t) ([5, 0] @ [v, 0, r] @ b)"
| userpass: "creds_ok cr \<Longrightarrow> bnd_addr b \<Longrightarrow>
     conversation (Some cr) t (greeting_msg (Some cr) @ userpass_msg cr @ connect_msg t)
       ([5, 2] @ [x, 0] @ [v, 0, r] @ b)"

inductive_cases conversation_None: "conversation None t out inp"

text \<open>The server's view of an address field: RFC 1928, section 5.\<close>

fun decode_addr :: "bytes \<Rightarrow> (bind_addr \<times> bytes) option" where
  "decode_addr [] = None"
| "decode_addr (t # bs) =
     (if t = 1 then
        if 4 \<le> length bs then Some (Ip (V4 (word_of_nat (be_value (take 4 bs)))), drop 4 bs) else None
      else if t = 4 then
        if 16 \<le> length bs then Some (Ip (V6 (word_of_nat (be_value (take 16 bs)))), drop 16 bs) else None
      else if t = 3 then
        (case bs of
           [] \<Rightarrow> None
         | n # bs' \<Rightarrow>
             if unat n \<le> length bs'
             then Some (Domain (from_bytes (take (unat n) bs')), drop (unat n) bs') else None)
      else None)"

definition decode_port :: "bytes \<Rightarrow> (u16 \<times> bytes) option" where
  "decode_port bs =
     (if 2 \<le> length bs then Some (word_of_nat (be_value (take 2 bs)), drop 2 bs) else None)"

text \<open>The server's view of a request (RFC 1928, section 4): command, destination, port, the rest.\<close>

definition decode_request :: "bytes \<Rightarrow> (byte \<times> bind_addr \<times> u16 \<times> bytes) option" where
  "decode_request bs =
     (case bs of
        v # c # r # rest \<Rightarrow>
          if v = 5 \<and> r = 0 then
            Option.bind (decode_addr rest) (\<lambda>(a, rest').
            Option.bind (decode_port rest') (\<lambda>(p, rest''). Some (c, a, p, rest'')))
          else None
      | _ \<Rightarrow> None)"

text \<open>The server's view of the sub-negotiation (RFC 1929): VER, ULEN, UNAME, PLEN, PASSWD.\<close>

definition decode_userpass :: "bytes \<Rightarrow> (credentials \<times> bytes) option" where
  "decode_userpass bs =
     (case bs of
        v # n # rest \<Rightarrow>
          if v = 1 \<and> unat n \<le> length rest then
            (case drop (unat n) rest of
               m # rest' \<Rightarrow>
                 if unat m \<le> length rest'
                 then Some (\<lparr>username = from_bytes (take (unat n) rest),
                             password = from_bytes (take (unat m) rest')\<rparr>, drop (unat m) rest')
                 else None
             | [] \<Rightarrow> None)
          else None
      | _ \<Rightarrow> None)"

text \<open>The part after method selection and authentication.\<close>

definition request_phase :: "('s, 'e) stream_ops \<Rightarrow> socket_addr \<Rightarrow> ('s, 'e socks_error, unit) sio" where
  "request_phase S target =
     sio_bind (io (write_all S (connect_msg target))) (\<lambda>_.
     sio_bind (io (read_exact S 3)) (\<lambda>rep.
     if rep ! 1 \<noteq> 0x00 then sio_fail (ConnectRejected (reply_str (rep ! 1)))
     else sio_bind (read_bind_addr S) (\<lambda>_. sio_return ())))"

text \<open>Method selection and authentication, from the server's choice.\<close>

definition method_phase ::
  "('s, 'e) stream_ops \<Rightarrow> credentials option \<Rightarrow> byte \<Rightarrow> ('s, 'e socks_error, unit) sio" where
  "method_phase S user m =
     (if m = 2 then (case user of None \<Rightarrow> sio_fail AuthRequired | Some cr \<Rightarrow> auth_userpass S cr)
      else if m = 0 then sio_return ()
      else if m = 0xff then sio_fail NoAcceptableMethod
      else sio_fail (UnsupportedMethod m))"

text \<open>
  What the client may have written by the time the server has sent \<open>inp\<close>: a part of the
  greeting; credentials only once the server has selected them; the request only once the
  server has selected no authentication or has accepted the credentials.
\<close>

inductive may_send :: "credentials option \<Rightarrow> socket_addr \<Rightarrow> bytes \<Rightarrow> bytes \<Rightarrow> bool" where
  greeting: "prefix o' (greeting_msg user) \<Longrightarrow> may_send user t o' inp"
| auth: "creds_ok cr \<Longrightarrow> prefix [5, 2] inp \<Longrightarrow> prefix o' (userpass_msg cr) \<Longrightarrow>
     may_send (Some cr) t (greeting_msg (Some cr) @ o') inp"
| request_no_auth: "prefix [5, 0] inp \<Longrightarrow> prefix o' (connect_msg t) \<Longrightarrow>
     may_send user t (greeting_msg user @ o') inp"
| request_auth: "creds_ok cr \<Longrightarrow> prefix [5, 2, x, 0] inp \<Longrightarrow> prefix o' (connect_msg t) \<Longrightarrow>
     may_send (Some cr) t (greeting_msg (Some cr) @ userpass_msg cr @ o') inp"

text \<open>An effect that writes nothing and may take bytes from the stream.\<close>

definition reads_only ::
  "('s \<Rightarrow> bytes) \<Rightarrow> ('s \<Rightarrow> bytes) \<Rightarrow> ('s, 'e, 'a) sio \<Rightarrow> bool" where
  "reads_only sent rcvd m \<longleftrightarrow>
     (\<forall>s r s'. m s = (r, s') \<longrightarrow> sent s' = sent s \<and> prefix (rcvd s) (rcvd s'))"

text \<open>The error a method selection \<open>g0 g1\<close> leads to before anything else is written.\<close>

definition method_verdict :: "credentials option \<Rightarrow> byte \<Rightarrow> byte \<Rightarrow> 'e socks_error option" where
  "method_verdict user g0 g1 =
     (if g0 \<noteq> 5 then Some (VersionMismatched g0)
      else if g1 = 0 then None
      else if g1 = 0xff then Some NoAcceptableMethod
      else if g1 \<noteq> 2 then Some (UnsupportedMethod g1)
      else case user of
        None \<Rightarrow> Some AuthRequired
      | Some cr \<Rightarrow> if creds_ok cr then None
          else if username cr = [] \<or> password cr = [] then Some AuthEmpty else Some AuthTooLong)"

section \<open>Soundness of the handshake\<close>

lemma greeting_bytes:
  "[VERSION, 0x01, case user of Some _ \<Rightarrow> USER_PASS | None \<Rightarrow> NO_AUTH] = greeting_msg user"
  by (cases user) (simp_all add: greeting_msg_def socks5_consts)

lemma userpass_bytes:
  "[0x01] @ [word_of_nat (length (username cr))] @ as_bytes (username cr) @
     [word_of_nat (length (password cr))] @ as_bytes (password cr) = userpass_msg cr"
  by (simp add: userpass_msg_def)

lemma connect_bytes:
  "write_request (Ip (sa_ip t)) [VERSION, CONNECT, 0x00] (sa_port t) = connect_msg t"
  by (simp add: connect_msg_def socks5_consts)

lemmas sio_Ok = sio_bind_Ok sio_map_err_Ok sio_return_apply sio_fail_apply

lemma auth_userpass_Ok:
  assumes L: "stream_laws S sent rcvd" and "auth_userpass S cr s = (Inr u, s')"
  shows "creds_ok cr \<and> (\<exists>x. sent s' = sent s @ userpass_msg cr \<and> rcvd s' = rcvd s @ [x, 0])"
proof -
  from assms(2) have ok: "creds_ok cr"
    by (auto simp: auth_userpass_def Let_def creds_ok_def sio_fail_apply split: if_splits)
  with assms(2) obtain s1 st w where w: "write_all S (userpass_msg cr) s = (Inr w, s1)"
    and r: "read_exact S 2 s1 = (Inr st, s')" and z: "st ! 1 = 0"
    unfolding auth_userpass_def Let_def userpass_bytes
    by (auto simp: creds_ok_def sio_Ok split: if_splits)
  from write_all_Ok [OF L w] read_exact_Ok [OF L r] z ok show ?thesis
    by (auto simp: length_two)
qed

lemma read_bind_addr_Ok:
  assumes L: "stream_laws S sent rcvd" and "read_bind_addr S s = (Inr u, s')"
  shows "\<exists>b. bnd_addr b \<and> rcvd s' = rcvd s @ b \<and> sent s' = sent s"
proof -
  from assms(2) obtain s1 t s2 skip p where r1: "read_exact S 1 s = (Inr t, s1)"
    and sk: "(if t ! 0 = IPV4 then sio_return 4
        else if t ! 0 = IPV6 then sio_return 16
        else if t ! 0 = DOMAIN then
          sio_bind (io (read_exact S 1)) (\<lambda>len. sio_return (unat (len ! 0)))
        else sio_fail (UnsupportedReplyAtyp (t ! 0))) s1 = (Inr skip, s2)"
    and r2: "read_exact S (skip + 2) s2 = (Inr p, s')"
    unfolding read_bind_addr_def by (auto simp: sio_Ok)
  from read_exact_Ok [OF L r1] obtain y where t: "t = [y]" "rcvd s1 = rcvd s @ [y]" "sent s1 = sent s"
    by (auto simp: length_small)
  from read_exact_Ok [OF L r2] have p: "length p = skip + 2" "rcvd s' = rcvd s2 @ p" "sent s' = sent s2"
    by auto
  have split_p: "p = take skip p @ drop skip p" "length (take skip p) = skip" "length (drop skip p) = 2"
    using p(1) by auto
  consider "y = 1" "skip = 4" "s2 = s1" | "y = 4" "skip = 16" "s2 = s1"
    | n where "y = 3" "skip = unat n" "rcvd s2 = rcvd s1 @ [n]" "sent s2 = sent s1"
    using sk t(1) read_exact_Ok [OF L, of 1 s1 _ s2]
    by (auto simp: sio_Ok socks5_consts length_small split: if_splits)
  then show ?thesis
  proof cases
    case 1
    then have "bnd_addr ([1] @ take skip p @ drop skip p)"
      using split_p by (intro bnd_addr.v4) auto
    with 1 t p split_p(1) show ?thesis by auto
  next
    case 2
    then have "bnd_addr ([4] @ take skip p @ drop skip p)"
      using split_p by (intro bnd_addr.v6) auto
    with 2 t p split_p(1) show ?thesis by auto
  next
    case 3
    then have "bnd_addr ([3, n] @ take skip p @ drop skip p)"
      using split_p by (intro bnd_addr.domain) auto
    with 3 t p split_p(1) show ?thesis by auto
  qed
qed

lemma client_handshake_phases:
  "client_handshake S target user =
     sio_bind (io (write_all S (greeting_msg user))) (\<lambda>_.
     sio_bind (io (read_exact S 2)) (\<lambda>g.
     if g ! 0 \<noteq> 5 then sio_fail (VersionMismatched (g ! 0))
     else sio_bind (method_phase S user (g ! 1)) (\<lambda>_. request_phase S target)))"
  unfolding client_handshake_def Let_def greeting_bytes connect_bytes method_phase_def
    request_phase_def
  by (simp only: socks5_consts cong: if_cong)

lemma request_phase_Ok:
  assumes L: "stream_laws S sent rcvd" and "request_phase S t s = (Inr u, s')"
  shows "\<exists>v r b. bnd_addr b \<and> sent s' = sent s @ connect_msg t \<and> rcvd s' = rcvd s @ [v, 0, r] @ b"
proof -
  from assms(2) obtain s1 s2 w rep where w: "write_all S (connect_msg t) s = (Inr w, s1)"
    and r: "read_exact S 3 s1 = (Inr rep, s2)" and z: "rep ! 1 = 0"
    and b: "read_bind_addr S s2 = (Inr (), s')"
    by (auto simp: request_phase_def sio_Ok split: if_splits)
  from write_all_Ok [OF L w] read_exact_Ok [OF L r] read_bind_addr_Ok [OF L b] z show ?thesis
    by (fastforce simp: length_small)
qed

lemma method_phase_Ok:
  assumes L: "stream_laws S sent rcvd" and "method_phase S user m s = (Inr u, s')"
  shows "m = 0 \<and> s' = s \<or>
    (\<exists>cr x. m = 2 \<and> user = Some cr \<and> creds_ok cr \<and> sent s' = sent s @ userpass_msg cr \<and>
       rcvd s' = rcvd s @ [x, 0])"
  using assms(2) auth_userpass_Ok [OF L]
  by (fastforce simp: method_phase_def sio_Ok split: if_splits option.splits)

lemma client_handshake_conversation:
  assumes "stream_laws S sent rcvd"
    and "client_handshake S target user s = (Inr (), s')"
  shows "\<exists>out inp. conversation user target out inp \<and>
    sent s' = sent s @ out \<and> rcvd s' = rcvd s @ inp"
proof -
  note L = assms(1)
  from assms(2) obtain s1 s2 s3 w g u where w: "write_all S (greeting_msg user) s = (Inr w, s1)"
    and r: "read_exact S 2 s1 = (Inr g, s2)" and v: "g ! 0 = 5"
    and m: "method_phase S user (g ! 1) s2 = (Inr u, s3)"
    and q: "request_phase S target s3 = (Inr (), s')"
    by (auto simp: client_handshake_phases sio_Ok split: if_splits)
  from read_exact_Ok [OF L r] v obtain y where y: "g = [5, y]" by (auto simp: length_small)
  with read_exact_Ok [OF L r] write_all_Ok [OF L w]
  have s2: "sent s2 = sent s @ greeting_msg user" "rcvd s2 = rcvd s @ [5, y]" by auto
  from request_phase_Ok [OF L q] obtain a c b where b: "bnd_addr b"
    and s': "sent s' = sent s3 @ connect_msg target" "rcvd s' = rcvd s3 @ [a, 0, c] @ b"
    by blast
  from method_phase_Ok [OF L m] y consider "y = 0" "s3 = s2"
    | cr x where "y = 2" "user = Some cr" "creds_ok cr" "sent s3 = sent s2 @ userpass_msg cr"
        "rcvd s3 = rcvd s2 @ [x, 0]"
    by auto
  then show ?thesis
  proof cases
    case 1
    then show ?thesis using s2 s' conversation.no_auth [OF b, of user target a c] by auto
  next
    case 2
    then show ?thesis using s2 s' conversation.userpass [OF 2(3) b, of target x a c] by auto
  qed
qed

text \<open>
  C4. Whenever the handshake returns \<open>Ok\<close>, on any stream, the bytes it wrote and the bytes
  it took from the stream are together a complete SOCKS5 conversation for the requested
  target: nothing more was written, and exactly the server's replies were consumed, so that
  the next byte read is the first byte of proxied data.
\<close>
theorem client_handshake_sound:
  assumes "stream_laws S sent rcvd"
    and "client_handshake S target user s = (Inr (), s')"
  shows "\<exists>out inp. conversation user target out inp \<and>
    sent s' = sent s @ out \<and> rcvd s' = rcvd s @ inp"
  using assms by (rule client_handshake_conversation)

section \<open>Completeness and errors on a working connection\<close>

lemma sio_bindI: "m s = (Inr a, s1) \<Longrightarrow> f a s1 = r \<Longrightarrow> sio_bind m f s = r"
  by (simp add: sio_bind_apply)

lemma ioI: "m s = (Inr a, s1) \<Longrightarrow> io m s = (Inr a, s1)"
  by (simp add: sio_map_err_apply)

lemma reliable_io_write:
  assumes "reliable_stream S sent inc"
  obtains s' where "io (write_all S bs) s = (Inr (), s')" "sent s' = sent s @ bs" "inc s' = inc s"
proof -
  obtain s' where "write_all S bs s = (Inr (), s')" "sent s' = sent s @ bs" "inc s' = inc s"
    using reliable_write [OF assms, of bs s] by auto
  then show thesis by (intro that [of s'] ioI)
qed

lemma reliable_io_read:
  assumes "reliable_stream S sent inc" and "inc s = bs @ rest" and "length bs = n"
  obtains s' where "io (read_exact S n) s = (Inr bs, s')" "inc s' = rest" "sent s' = sent s"
proof -
  obtain s' where "read_exact S n s = (Inr bs, s')" "inc s' = rest" "sent s' = sent s"
    using reliable_read [OF assms] by auto
  then show thesis by (intro that [of s'] ioI)
qed

lemma read_bind_addr_complete:
  assumes R: "reliable_stream S sent inc" and "bnd_addr b" and "inc s = b @ rest"
  shows "\<exists>s'. read_bind_addr S s = (Inr (), s') \<and> inc s' = rest \<and> sent s' = sent s"
proof -
  obtain y b' where b: "b = y # b'" using assms(2) by (cases rule: bnd_addr.cases) auto
  obtain s1 where r1: "io (read_exact S 1) s = (Inr [y], s1)" and s1: "inc s1 = b' @ rest" "sent s1 = sent s"
    by (rule reliable_io_read [OF R, of s "[y]" "b' @ rest" 1]) (use assms(3) b in auto)
  from assms(2) b consider "y = 1" "length b' = 6" | "y = 4" "length b' = 18"
    | n b'' where "y = 3" "b' = n # b''" "length b'' = unat n + 2"
    by (cases rule: bnd_addr.cases) auto
  then show ?thesis
  proof cases
    case 1
    obtain s2 where "io (read_exact S 6) s1 = (Inr b', s2)" "inc s2 = rest" "sent s2 = sent s1"
      by (rule reliable_io_read [OF R s1(1) 1(2)])
    with r1 s1 1 show ?thesis
      by (auto simp: read_bind_addr_def sio_bind_apply sio_return_apply socks5_consts)
  next
    case 2
    obtain s2 where "io (read_exact S 18) s1 = (Inr b', s2)" "inc s2 = rest" "sent s2 = sent s1"
      by (rule reliable_io_read [OF R s1(1) 2(2)])
    with r1 s1 2 show ?thesis
      by (auto simp: read_bind_addr_def sio_bind_apply sio_return_apply socks5_consts)
  next
    case 3
    obtain s2 where r2: "io (read_exact S 1) s1 = (Inr [n], s2)" and s2: "inc s2 = b'' @ rest" "sent s2 = sent s1"
      by (rule reliable_io_read [OF R, of s1 "[n]" "b'' @ rest" 1]) (use s1 3 in auto)
    obtain s3 where "io (read_exact S (unat n + 2)) s2 = (Inr b'', s3)" "inc s3 = rest" "sent s3 = sent s2"
      by (rule reliable_io_read [OF R s2(1) 3(3)])
    with r1 s1 r2 s2 3 show ?thesis
      by (auto simp: read_bind_addr_def sio_bind_apply sio_return_apply socks5_consts)
  qed
qed

lemma request_phase_complete:
  assumes R: "reliable_stream S sent inc" and "bnd_addr b" and "inc s = [v, 0, r] @ b @ rest"
  shows "\<exists>s'. request_phase S t s = (Inr (), s') \<and> inc s' = rest \<and> sent s' = sent s @ connect_msg t"
proof -
  obtain s1 where w: "io (write_all S (connect_msg t)) s = (Inr (), s1)"
    and s1: "sent s1 = sent s @ connect_msg t" "inc s1 = inc s"
    by (rule reliable_io_write [OF R])
  obtain s2 where r: "io (read_exact S 3) s1 = (Inr [v, 0, r], s2)"
    and s2: "inc s2 = b @ rest" "sent s2 = sent s1"
    by (rule reliable_io_read [OF R, of s1 "[v, 0, r]" "b @ rest" 3]) (use s1 assms(3) in auto)
  from read_bind_addr_complete [OF R assms(2) s2(1)] show ?thesis
    using w r s1 s2 by (auto simp: request_phase_def sio_bind_apply sio_return_apply)
qed

lemma auth_userpass_complete:
  assumes R: "reliable_stream S sent inc" and "creds_ok cr" and "inc s = [x, y] @ rest"
  shows "\<exists>s'. auth_userpass S cr s = ((if y = 0 then Inr () else Inl AuthRejected), s') \<and>
    inc s' = rest \<and> sent s' = sent s @ userpass_msg cr"
proof -
  obtain s1 where w: "io (write_all S (userpass_msg cr)) s = (Inr (), s1)"
    and s1: "sent s1 = sent s @ userpass_msg cr" "inc s1 = inc s"
    by (rule reliable_io_write [OF R])
  obtain s2 where r: "io (read_exact S 2) s1 = (Inr [x, y], s2)"
    and s2: "inc s2 = rest" "sent s2 = sent s1"
    by (rule reliable_io_read [OF R, of s1 "[x, y]" rest 2]) (use s1 assms(3) in auto)
  from assms(2) w r s1 s2 show ?thesis
    unfolding auth_userpass_def Let_def userpass_bytes
    by (auto simp: creds_ok_def sio_bind_apply sio_return_apply sio_fail_apply)
qed

lemma greeting_complete:
  assumes R: "reliable_stream S sent inc" and "inc s = [g0, g1] @ rest"
  obtains s2 where "inc s2 = rest" and "sent s2 = sent s @ greeting_msg user"
    and "client_handshake S t user s =
      (if g0 \<noteq> 5 then sio_fail (VersionMismatched g0)
       else sio_bind (method_phase S user g1) (\<lambda>_. request_phase S t)) s2"
proof -
  obtain s1 where w: "io (write_all S (greeting_msg user)) s = (Inr (), s1)"
    and s1: "sent s1 = sent s @ greeting_msg user" "inc s1 = inc s"
    by (rule reliable_io_write [OF R])
  obtain s2 where r: "io (read_exact S 2) s1 = (Inr [g0, g1], s2)"
    and s2: "inc s2 = rest" "sent s2 = sent s1"
    by (rule reliable_io_read [OF R, of s1 "[g0, g1]" rest 2]) (use s1 assms(2) in auto)
  show thesis
    by (rule that [of s2]) (use w r s1 s2 in \<open>auto simp: client_handshake_phases sio_bind_apply [of "io _"]\<close>)
qed

text \<open>
  C10. On a working connection the handshake succeeds against every server that speaks the
  protocol: if the bytes the server sends begin with the server side of a complete
  conversation, the call returns \<open>Ok\<close>, has written the client side, and leaves every
  later byte unread.
\<close>
theorem client_handshake_complete:
  assumes "reliable_stream S sent incoming" and "conversation user target out inp"
    and "incoming s = inp @ rest"
  shows "\<exists>s'. client_handshake S target user s = (Inr (), s') \<and>
    sent s' = sent s @ out \<and> incoming s' = rest"
  using assms(2)
proof cases
  case (no_auth b v r)
  obtain s2 where s2: "incoming s2 = [v, 0, r] @ b @ rest" "sent s2 = sent s @ greeting_msg user"
    and eq: "client_handshake S target user s =
      (if 5 \<noteq> (5 :: byte) then sio_fail (VersionMismatched 5)
       else sio_bind (method_phase S user 0) (\<lambda>_. request_phase S target)) s2"
    by (rule greeting_complete [OF assms(1), of s 5 0 "[v, 0, r] @ b @ rest" user target])
      (use assms(3) no_auth in auto)
  from request_phase_complete [OF assms(1) no_auth(3) s2(1), of target] eq s2(2) no_auth(1)
  show ?thesis by (auto simp: method_phase_def sio_bind_apply sio_return_apply)
next
  case (userpass cr b x v r)
  obtain s2 where s2: "incoming s2 = [x, 0] @ [v, 0, r] @ b @ rest" "sent s2 = sent s @ greeting_msg user"
    and eq: "client_handshake S target user s =
      (if 5 \<noteq> (5 :: byte) then sio_fail (VersionMismatched 5)
       else sio_bind (method_phase S user 2) (\<lambda>_. request_phase S target)) s2"
    by (rule greeting_complete [OF assms(1), of s 5 2 "[x, 0] @ [v, 0, r] @ b @ rest" user target])
      (use assms(3) userpass in auto)
  from auth_userpass_complete [OF assms(1) userpass(4) s2(1)] obtain s3
    where s3: "auth_userpass S cr s2 = (Inr (), s3)" "incoming s3 = [v, 0, r] @ b @ rest"
      "sent s3 = sent s2 @ userpass_msg cr" by auto
  from request_phase_complete [OF assms(1) userpass(5) s3(2), of target] eq s2(2) s3 userpass(1,2)
  show ?thesis by (auto simp: method_phase_def sio_bind_apply)
qed

text \<open>
  C6. On a working connection every method selection the client cannot go on with ends the
  handshake with the error for it, with nothing but the greeting written and only the two
  selection bytes consumed: a wrong version byte, no acceptable method, an unknown method,
  credentials demanded but none or unusable ones configured.
\<close>
theorem client_handshake_refused_method:
  assumes "reliable_stream S sent incoming" and "incoming s = g0 # g1 # rest"
    and "method_verdict user g0 g1 = Some e"
  shows "\<exists>s'. client_handshake S target user s = (Inl e, s') \<and>
    sent s' = sent s @ greeting_msg user \<and> incoming s' = rest"
proof -
  obtain s2 where s2: "incoming s2 = rest" "sent s2 = sent s @ greeting_msg user"
    and eq: "client_handshake S target user s =
      (if g0 \<noteq> 5 then sio_fail (VersionMismatched g0)
       else sio_bind (method_phase S user g1) (\<lambda>_. request_phase S target)) s2"
    by (rule greeting_complete [OF assms(1), of s g0 g1 rest user target]) (use assms(2) in auto)
  have "(if g0 \<noteq> 5 then sio_fail (VersionMismatched g0)
       else sio_bind (method_phase S user g1) (\<lambda>_. request_phase S target)) s2 = (Inl e, s2)"
    using assms(3)
    by (cases user) (auto simp: method_verdict_def method_phase_def auth_userpass_def Let_def
        creds_ok_def sio_fail_apply sio_bind_apply split: if_splits)
  with eq s2 show ?thesis by auto
qed

text \<open>
  The server lets the client through to its request: it selects no authentication, or it
  selects and accepts the credentials. With what the client has written by then.
\<close>

inductive admits :: "credentials option \<Rightarrow> bytes \<Rightarrow> bytes \<Rightarrow> bool" where
  without_auth: "admits user [5, 0] (greeting_msg user)"
| with_creds: "creds_ok cr \<Longrightarrow> admits (Some cr) [5, 2, x, 0] (greeting_msg (Some cr) @ userpass_msg cr)"

lemma admits_request:
  assumes R: "reliable_stream S sent inc" and adm: "admits user inp out" and inc: "inc s = inp @ rest"
  obtains s2 where "inc s2 = rest" and "sent s2 = sent s @ out" and "client_handshake S t user s = request_phase S t s2"
  using adm
proof cases
  case without_auth
  show thesis
    by (rule greeting_complete [OF R, of s 5 0 rest user t])
      (use inc without_auth in \<open>auto simp: method_phase_def sio_bind_apply sio_return_apply intro: that\<close>)
next
  case (with_creds cr x)
  obtain s2 where s2: "inc s2 = [x, 0] @ rest" "sent s2 = sent s @ greeting_msg user"
    and eq: "client_handshake S t user s = (if 5 \<noteq> (5 :: byte) then sio_fail (VersionMismatched 5)
       else sio_bind (method_phase S user 2) (\<lambda>_. request_phase S t)) s2"
    by (rule greeting_complete [OF R, of s 5 2 "[x, 0] @ rest" user t]) (use inc with_creds in auto)
  from auth_userpass_complete [OF R with_creds(4) s2(1)] obtain s3 where
    "auth_userpass S cr s2 = (Inr (), s3)" "inc s3 = rest" "sent s3 = sent s2 @ userpass_msg cr" by auto
  with eq s2(2) with_creds show thesis by (intro that [of s3]) (auto simp: method_phase_def sio_bind_apply)
qed

text \<open>
  C40. On a working connection a server that answers the request with a non-zero reply code
  makes the handshake fail with the text for that code, whether the client went without
  authentication or with its credentials; everything up to the request has been written, and
  the bytes after the three reply bytes stay unread.
\<close>
theorem client_handshake_rejected:
  assumes "reliable_stream S sent incoming" and "admits user inp out"
    and "incoming s = inp @ [v, rep, r] @ rest" and "rep \<noteq> 0"
  shows "\<exists>s'. client_handshake S target user s = (Inl (ConnectRejected (reply_str rep)), s') \<and>
    sent s' = sent s @ out @ connect_msg target \<and> incoming s' = rest"
proof -
  obtain s2 where s2: "incoming s2 = [v, rep, r] @ rest" "sent s2 = sent s @ out"
    and eq: "client_handshake S target user s = request_phase S target s2"
    by (rule admits_request [OF assms(1-3), of target])
  obtain s3 where w: "io (write_all S (connect_msg target)) s2 = (Inr (), s3)"
    and s3: "sent s3 = sent s2 @ connect_msg target" "incoming s3 = incoming s2"
    by (rule reliable_io_write [OF assms(1)])
  obtain s4 where r: "io (read_exact S 3) s3 = (Inr [v, rep, r], s4)"
    and s4: "incoming s4 = rest" "sent s4 = sent s3"
    by (rule reliable_io_read [OF assms(1), of s3 "[v, rep, r]" rest 3]) (use s2 s3 in auto)
  from eq w r s2 s3 s4 assms(4) show ?thesis
    by (auto simp: request_phase_def sio_bind_apply sio_return_apply sio_fail_apply)
qed

section \<open>What is written, whatever happens\<close>

lemma io_write_any:
  assumes "stream_laws S sent rcvd" and "io (write_all S bs) s = (r, s')"
  shows "\<exists>p. prefix p bs \<and> sent s' = sent s @ p \<and> rcvd s' = rcvd s \<and> (\<forall>u. r = Inr u \<longrightarrow> p = bs)"
proof (cases "write_all S bs s")
  case (Pair r0 s0)
  then show ?thesis
    using assms(2) write_all_Ok [OF assms(1), of bs s _ s0] write_all_Err [OF assms(1), of bs s _ s0]
    by (cases r0) (auto simp: sio_map_err_apply)
qed

lemma io_read_any:
  assumes "stream_laws S sent rcvd" and "io (read_exact S n) s = (r, s')"
  shows "sent s' = sent s \<and> (\<exists>p. rcvd s' = rcvd s @ p \<and> (\<forall>bs. r = Inr bs \<longrightarrow> bs = p \<and> length p = n))"
proof (cases "read_exact S n s")
  case (Pair r0 s0)
  then show ?thesis
    using assms(2) read_exact_Ok [OF assms(1), of n s _ s0] read_exact_Err [OF assms(1), of n s _ s0]
    by (cases r0) (auto simp: sio_map_err_apply)
qed

lemma auth_userpass_any:
  assumes L: "stream_laws S sent rcvd" and "auth_userpass S cr s = (r, s')"
  shows "\<exists>p q. sent s' = sent s @ p \<and> rcvd s' = rcvd s @ q \<and> prefix p (userpass_msg cr) \<and>
    (p \<noteq> [] \<longrightarrow> creds_ok cr) \<and> (\<forall>u. r = Inr u \<longrightarrow> creds_ok cr \<and> p = userpass_msg cr \<and> (\<exists>x. q = [x, 0]))"
proof (cases "creds_ok cr")
  case False
  then have "r \<noteq> Inr ()" "s' = s"
    using assms(2)
    by (auto simp: auth_userpass_def Let_def creds_ok_def sio_fail_apply split: if_splits)
  then show ?thesis by (auto intro!: exI [of _ "[]"])
next
  case True
  then have "sio_bind (io (write_all S (userpass_msg cr))) (\<lambda>_. sio_bind (io (read_exact S 2))
      (\<lambda>st. if st ! 1 \<noteq> 0x00 then sio_fail AuthRejected else sio_return ())) s = (r, s')"
    using assms(2) unfolding auth_userpass_def Let_def userpass_bytes by (auto simp: creds_ok_def)
  then show ?thesis
  proof (cases rule: sio_bind_cases)
    case (err e)
    with io_write_any [OF L err(1)] True show ?thesis by auto
  next
    case (ok a s1)
    from io_write_any [OF L ok(1)] have s1: "sent s1 = sent s @ userpass_msg cr" "rcvd s1 = rcvd s" by auto
    from ok(2) show ?thesis
    proof (cases rule: sio_bind_cases)
      case (err e)
      with io_read_any [OF L err(1)] s1 True show ?thesis by auto
    next
      case (ok st s2)
      with io_read_any [OF L ok(1)] s1 True show ?thesis
        by (auto simp: sio_fail_apply sio_return_apply length_two split: if_splits)
    qed
  qed
qed

lemma reads_onlyI:
  "(\<And>s r s'. m s = (r, s') \<Longrightarrow> sent s' = sent s \<and> prefix (rcvd s) (rcvd s')) \<Longrightarrow> reads_only sent rcvd m"
  by (simp add: reads_only_def)

lemma reads_onlyD:
  "reads_only sent rcvd m \<Longrightarrow> m s = (r, s') \<Longrightarrow> sent s' = sent s \<and> prefix (rcvd s) (rcvd s')"
  by (simp add: reads_only_def)

lemma reads_only_bind:
  assumes "reads_only sent rcvd m" and "\<And>a. reads_only sent rcvd (f a)"
  shows "reads_only sent rcvd (sio_bind m f)"
proof (rule reads_onlyI)
  fix s r s'
  assume "sio_bind m f s = (r, s')"
  then show "sent s' = sent s \<and> prefix (rcvd s) (rcvd s')"
  proof (cases rule: sio_bind_cases)
    case (err e)
    then show ?thesis using reads_onlyD [OF assms(1)] by blast
  next
    case (ok a s1)
    then show ?thesis
      using reads_onlyD [OF assms(1) ok(1)] reads_onlyD [OF assms(2) ok(2)] prefix_order.trans by metis
  qed
qed

lemma reads_only_return: "reads_only sent rcvd (sio_return a)"
  and reads_only_fail: "reads_only sent rcvd (sio_fail e)"
  by (auto simp: reads_only_def sio_return_apply sio_fail_apply)

lemma reads_only_read: "stream_laws S sent rcvd \<Longrightarrow> reads_only sent rcvd (io (read_exact S n))"
  by (rule reads_onlyI, drule (1) io_read_any) auto

lemma read_bind_addr_reads_only: "stream_laws S sent rcvd \<Longrightarrow> reads_only sent rcvd (read_bind_addr S)"
  unfolding read_bind_addr_def
  by (auto intro!: reads_only_bind reads_only_return reads_only_fail reads_only_read)

lemma request_phase_any:
  assumes L: "stream_laws S sent rcvd" and "request_phase S t s = (r, s')"
  shows "\<exists>p. sent s' = sent s @ p \<and> prefix p (connect_msg t) \<and> prefix (rcvd s) (rcvd s')"
  using assms(2) unfolding request_phase_def
proof (cases rule: sio_bind_cases)
  case (err e)
  with io_write_any [OF L err(1)] show ?thesis by auto
next
  case (ok a s1)
  from io_write_any [OF L ok(1)] have s1: "sent s1 = sent s @ connect_msg t" "rcvd s1 = rcvd s" by auto
  have "reads_only sent rcvd (sio_bind (io (read_exact S 3)) (\<lambda>rep.
      if rep ! 1 \<noteq> 0x00 then sio_fail (ConnectRejected (reply_str (rep ! 1)))
      else sio_bind (read_bind_addr S) (\<lambda>_. sio_return ())))"
    by (auto intro!: reads_only_bind reads_only_return reads_only_fail reads_only_read
        read_bind_addr_reads_only L)
  from reads_onlyD [OF this ok(2)] s1 show ?thesis by auto
qed

lemma method_request_order:
  assumes L: "stream_laws S sent rcvd"
    and "sio_bind (method_phase S user m) (\<lambda>_. request_phase S t) s = (r, s')"
    and s: "sent s = o0 @ greeting_msg user" "rcvd s = i0 @ [5, m]"
  shows "\<exists>out inp. sent s' = o0 @ out \<and> rcvd s' = i0 @ inp \<and> may_send user t out inp"
proof (cases "m = 2 \<and> user \<noteq> None")
  case True
  then obtain cr where cr: "user = Some cr" by auto
  have auth: "method_phase S user m = auth_userpass S cr" using True cr by (simp add: method_phase_def)
  from assms(2) show ?thesis
  proof (cases rule: sio_bind_cases)
    case (err e)
    from auth_userpass_any [OF L err(1) [unfolded auth]] obtain p q where "sent s' = sent s @ p"
      "rcvd s' = rcvd s @ q" "prefix p (userpass_msg cr)" "p \<noteq> [] \<longrightarrow> creds_ok cr" by auto
    with s True cr show ?thesis
      using may_send.greeting [of "greeting_msg user" user t "[5, 2] @ q"]
        may_send.auth [of cr "[5, 2] @ q" p t] by (cases "p = []") auto
  next
    case (ok u s1)
    from auth_userpass_any [OF L ok(1) [unfolded auth]] obtain x where "creds_ok cr"
      "sent s1 = sent s @ userpass_msg cr" "rcvd s1 = rcvd s @ [x, 0]" by auto
    moreover from request_phase_any [OF L ok(2)] obtain p where "sent s' = sent s1 @ p"
      "prefix p (connect_msg t)" "prefix (rcvd s1) (rcvd s')" by blast
    ultimately show ?thesis using s True cr
      by (auto simp: prefix_def [of "_ @ _"] intro!: may_send.request_auth)
  qed
next
  case False
  show ?thesis
  proof (cases "m = 0")
    case True
    with assms(2) have "request_phase S t s = (r, s')"
      by (simp add: method_phase_def sio_bind_apply sio_return_apply)
    from request_phase_any [OF L this] s True show ?thesis
      by (auto simp: prefix_def [of "_ @ _"] intro!: may_send.request_no_auth)
  next
    case no_auth: False
    with False assms(2) have "s' = s"
      by (auto simp: method_phase_def sio_bind_apply sio_fail_apply split: if_splits option.splits)
    with s show ?thesis by (auto intro!: may_send.greeting)
  qed
qed

text \<open>
  C11. Whatever the outcome, and wherever the conversation broke off, the client has written only
  what the protocol allows at that point: the credentials are written only after the server
  has selected the username/password method with the right version byte, and the CONNECT
  request only after the server selected no authentication or accepted the credentials.
\<close>
theorem client_handshake_order:
  assumes "stream_laws S sent rcvd" and "client_handshake S target user s = (res, s')"
  shows "\<exists>out inp. sent s' = sent s @ out \<and> rcvd s' = rcvd s @ inp \<and> may_send user target out inp"
  using assms(2) unfolding client_handshake_phases
proof (cases rule: sio_bind_cases)
  case (err e)
  with io_write_any [OF assms(1) err(1)] show ?thesis by (auto intro: may_send.greeting)
next
  case (ok u s1)
  from io_write_any [OF assms(1) ok(1)] have s1: "sent s1 = sent s @ greeting_msg user" "rcvd s1 = rcvd s"
    by auto
  from ok(2) show ?thesis
  proof (cases rule: sio_bind_cases)
    case (err e)
    with io_read_any [OF assms(1) err(1)] s1 show ?thesis by (auto intro: may_send.greeting)
  next
    case (ok g s2)
    from io_read_any [OF assms(1) ok(1)] s1 obtain g0 g1 where g: "g = [g0, g1]"
      and s2: "sent s2 = sent s @ greeting_msg user" "rcvd s2 = rcvd s @ [g0, g1]"
      by (auto simp: length_two)
    show ?thesis
    proof (cases "g0 = 5")
      case False
      with ok(2) g s2 show ?thesis by (auto simp: sio_fail_apply intro: may_send.greeting)
    next
      case True
      with ok(2) g have "sio_bind (method_phase S user g1) (\<lambda>_. request_phase S target) s2 = (res, s')"
        by simp
      then show ?thesis
        by (rule method_request_order [OF assms(1)]) (use s2 True in auto)
    qed
  qed
qed

text \<open>Non-empty credentials rule out the error for empty ones.\<close>

lemma client_handshake_never_AuthEmpty:
  assumes "\<And>cr. user = Some cr \<Longrightarrow> username cr \<noteq> [] \<and> password cr \<noteq> []"
  shows "never AuthEmpty (client_handshake S t user)"
proof -
  have auth: "never AuthEmpty (auth_userpass S cr)" if "user = Some cr" for cr
    using assms [OF that] by (auto simp: auth_userpass_def Let_def)
  have bnd: "never AuthEmpty (read_bind_addr S)" by (auto simp: read_bind_addr_def)
  have req: "never AuthEmpty (request_phase S t)" using bnd by (auto simp: request_phase_def)
  have "never AuthEmpty (method_phase S user m)" for m
    using auth by (auto simp: method_phase_def split: option.splits)
  with req show ?thesis by (auto simp: client_handshake_phases)
qed

section \<open>Round trips with the server's decoders\<close>

lemma unat_length_byte: "length xs \<le> 255 \<Longrightarrow> unat (word_of_nat (length xs) :: byte) = length xs"
  by (simp add: unat_of_nat)

lemma decode_port_to_be_bytes: "decode_port (to_be_bytes p @ rest) = Some (p, rest)"
  by (simp add: decode_port_def)

lemma decode_addr_bytes:
  "decode_addr ([IPV4] @ v4_octets a @ rest) = Some (Ip (V4 a), rest)"
  "decode_addr ([IPV6] @ v6_octets b @ rest) = Some (Ip (V6 b), rest)"
  "length d \<le> 255 \<Longrightarrow>
     decode_addr ([DOMAIN, word_of_nat (length d)] @ as_bytes d @ rest) = Some (Domain d, rest)"
  by (simp_all add: socks5_consts unat_length_byte)

lemma decode_write_request:
  assumes "\<And>d. b = Domain d \<Longrightarrow> length d \<le> 255"
  shows "decode_request (write_request b [VERSION, CONNECT, 0x00] p @ rest) = Some (CONNECT, b, p, rest)"
proof (cases b)
  case (Ip ip)
  then show ?thesis
    using decode_addr_bytes(1,2) [of _ "to_be_bytes p @ rest"]
    by (cases ip) (simp_all add: write_request_def decode_request_def decode_port_to_be_bytes VERSION_def)
next
  case (Domain d)
  then show ?thesis
    using decode_addr_bytes(3) [of d "to_be_bytes p @ rest"] assms [of d]
    by (simp add: write_request_def decode_request_def decode_port_to_be_bytes VERSION_def)
qed



text \<open>
  The length byte of a domain is its length modulo 256, so the bound in the round trip is needed:
  a 256-byte name is announced as empty.
\<close>

lemma write_request_domain_wraps:
  "length d = 256 \<Longrightarrow> write_request (Domain d) [] p = [3, 0] @ as_bytes d @ to_be_bytes p"
  by (simp add: write_request_def DOMAIN_def)

text \<open>
  C14. What the username/password sub-negotiation writes is what a server reading RFC 1929
  messages decodes as exactly these credentials, with no byte left over.
\<close>
theorem auth_userpass_roundtrip:
  assumes "stream_laws S sent rcvd" and "auth_userpass S cr s = (Inr (), s')"
  shows "\<exists>msg. sent s' = sent s @ msg \<and> decode_userpass msg = Some (cr, [])"
proof -
  have "creds_ok cr" and "sent s' = sent s @ userpass_msg cr"
    using auth_userpass_Ok [OF assms] by auto
  then show ?thesis
    by (auto simp: decode_userpass_def userpass_msg_def creds_ok_def unat_length_byte)
qed

text \<open>The request fits the 29 bytes \<open>client_handshake\<close> reserves for it.\<close>

lemma connect_request_size:
  "length (write_request (Ip ip) [VERSION, CONNECT, 0x00] p) = (case ip of V4 _ \<Rightarrow> 10 | V6 _ \<Rightarrow> 22)"
  by (cases ip) (simp_all add: write_request_def)

section \<open>The dialer\<close>

lemma connect_Ok:
  assumes "connect D S self target = Inr up"
  shows "\<exists>s0. tcp_connect D (server_addr self) = Inr s0 \<and>
    client_handshake S target (creds self) (set_nodelay D s0) = (Inr (), up_stream up)"
proof (cases "tcp_connect D (server_addr self)")
  case (Inl e)
  with assms show ?thesis by (simp add: connect_def Let_def)
next
  case (Inr s0)
  with assms show ?thesis
    by (cases "handshake S self target (set_nodelay D s0)")
      (auto simp: connect_def Let_def handshake_def split: sum.splits)
qed

lemma connect_request:
  assumes "stream_laws S sent rcvd" and "connect D S self target = Inr up"
  shows "\<exists>s0 out inp pre. tcp_connect D (server_addr self) = Inr s0 \<and>
    conversation (creds self) target out inp \<and>
    sent (up_stream up) = sent (set_nodelay D s0) @ out \<and>
    rcvd (up_stream up) = rcvd (set_nodelay D s0) @ inp \<and>
    out = pre @ write_request (Ip (sa_ip target)) [VERSION, CONNECT, 0x00] (sa_port target) \<and>
    decode_request (drop (length pre) out) = Some (CONNECT, Ip (sa_ip target), sa_port target, [])"
proof -
  from connect_Ok [OF assms(2)] obtain s0 where s0: "tcp_connect D (server_addr self) = Inr s0"
    and h: "client_handshake S target (creds self) (set_nodelay D s0) = (Inr (), up_stream up)"
    by blast
  from client_handshake_conversation [OF assms(1) h] obtain out inp
    where c: "conversation (creds self) target out inp"
      and s: "sent (up_stream up) = sent (set_nodelay D s0) @ out"
        "rcvd (up_stream up) = rcvd (set_nodelay D s0) @ inp"
    by blast
  from c obtain pre where pre: "out = pre @ connect_msg target"
    by cases (auto simp: append_assoc [symmetric] simp del: append_assoc)
  then have "decode_request (drop (length pre) out) = Some (CONNECT, Ip (sa_ip target), sa_port target, [])"
    using decode_write_request [of "Ip (sa_ip target)" "sa_port target" "[]"]
    by (simp add: connect_bytes [symmetric])
  with s0 c s pre show ?thesis unfolding connect_bytes by blast
qed

text \<open>
  C12. A connect call that returns a stream has dialled the configured server, and on the stream it
  returns a complete conversation for the target has taken place: the client's bytes are the
  greeting, the credentials if they were asked for, and one request that a server decodes as
  CONNECT to exactly the target's address and port.
\<close>
theorem connect_establishes:
  assumes "stream_laws S sent rcvd" and "connect D S self target = Inr up"
  shows "\<exists>s0 out inp pre. tcp_connect D (server_addr self) = Inr s0 \<and>
    conversation (creds self) target out inp \<and>
    sent (up_stream up) = sent (set_nodelay D s0) @ out \<and>
    rcvd (up_stream up) = rcvd (set_nodelay D s0) @ inp \<and>
    out = pre @ write_request (Ip (sa_ip target)) [VERSION, CONNECT, 0x00] (sa_port target) \<and>
    decode_request (drop (length pre) out) = Some (CONNECT, Ip (sa_ip target), sa_port target, [])"
  using assms by (rule connect_request)

section \<open>Witnesses\<close>

text \<open>The exchanges of the integration tests, as scripts: 203.0.113.7:443 without authentication.\<close>

definition demo_target :: socket_addr where
  "demo_target = \<lparr>sa_ip = V4 0xCB007107, sa_port = 443\<rparr>"

definition demo_creds :: credentials where
  "demo_creds = \<lparr>username = ''alice'', password = ''s3cret''\<rparr>"

definition demo_plain :: script where
  "demo_plain = script_start ([5, 0] @ [5, 0, 0] @ [1, 0, 0, 0, 0, 0, 0] @ [104, 105])"

definition demo_auth :: script where
  "demo_auth = script_start ([5, 2] @ [1, 0] @ [5, 0, 0] @ [3, 1, 120, 0, 0])"

lemmas demo_eval = client_handshake_def auth_userpass_def read_bind_addr_def write_request_def
  script_stream_def script_start_def socks5_consts demo_target_def demo_creds_def demo_plain_def
  demo_auth_def sio_bind_apply sio_map_err_apply sio_return_apply Let_def as_bytes_def
  v4_octets_def to_be_bytes_def be_octets_numeral

lemma demo_plain_run:
  "client_handshake script_stream demo_target None demo_plain =
     (Inr (), \<lparr>to_read = [104, 105], written = [5, 1, 0, 5, 1, 0, 1, 203, 0, 113, 7, 1, 187],
       was_read = [5, 0, 5, 0, 0, 1, 0, 0, 0, 0, 0, 0]\<rparr>)"
  by (simp add: demo_eval)

lemma demo_auth_run:
  "client_handshake script_stream demo_target (Some demo_creds) demo_auth =
     (Inr (), \<lparr>to_read = [],
       written = [5, 1, 2] @ [1, 5] @ as_bytes ''alice'' @ [6] @ as_bytes ''s3cret'' @
         [5, 1, 0, 1, 203, 0, 113, 7, 1, 187],
       was_read = [5, 2, 1, 0, 5, 0, 0, 3, 1, 120, 0, 0]\<rparr>)"
  by (simp add: demo_eval)

lemma demo_plain_conversation:
  "conversation user demo_target (greeting_msg user @ connect_msg demo_target)
     ([5, 0] @ [5, 0, 0] @ [1, 0, 0, 0, 0, 0, 0])"
  using bnd_addr.v4 [of "[0, 0, 0, 0]" "[0, 0]"] by (intro conversation.no_auth) simp

theorem client_handshake_sound_witness:
  "\<exists>out inp. conversation (Some demo_creds) demo_target out inp \<and>
     [5, 1, 2] @ [1, 5] @ as_bytes ''alice'' @ [6] @ as_bytes ''s3cret'' @
       [5, 1, 0, 1, 203, 0, 113, 7, 1, 187] = out \<and> [5, 2, 1, 0, 5, 0, 0, 3, 1, 120, 0, 0] = inp"
  using client_handshake_sound [OF script_stream_laws demo_auth_run]
  by (simp add: demo_auth_def script_start_def)

theorem client_handshake_complete_witness:
  "\<exists>s'. client_handshake script_stream demo_target None demo_plain = (Inr (), s') \<and>
     written s' = greeting_msg None @ connect_msg demo_target \<and> to_read s' = [104, 105]"
  using client_handshake_complete [OF script_stream_reliable demo_plain_conversation [of None],
      of demo_plain "[104, 105]"]
  by (simp add: demo_plain_def script_start_def)

theorem client_handshake_refused_method_witness:
  "\<exists>s'. client_handshake script_stream demo_target None (script_start [5, 2, 9]) = (Inl AuthRequired, s') \<and>
     written s' = greeting_msg None \<and> to_read s' = [9]"
  using client_handshake_refused_method [OF script_stream_reliable, of "script_start [5, 2, 9]" 5 2 "[9]"
      None AuthRequired demo_target]
  by (simp add: script_start_def method_verdict_def)

theorem client_handshake_rejected_witness:
  "\<exists>s'. client_handshake script_stream demo_target (Some demo_creds) (script_start [5, 2, 1, 0, 5, 5, 0, 1]) =
       (Inl (ConnectRejected ''connection refused''), s') \<and>
     written s' = greeting_msg (Some demo_creds) @ userpass_msg demo_creds @ connect_msg demo_target \<and> to_read s' = [1]"
proof -
  have "creds_ok demo_creds" by (simp add: creds_ok_def demo_creds_def)
  from client_handshake_rejected [OF script_stream_reliable with_creds [OF this], of "script_start [5, 2, 1, 0, 5, 5, 0, 1]" 1 5 5 0 "[1]"
      demo_target] show ?thesis by (simp add: script_start_def reply_str_def)
qed

theorem client_handshake_order_witness:
  "\<exists>out inp. [5, 1, 0, 5, 1, 0, 1, 203, 0, 113, 7, 1, 187] = out \<and>
     [5, 0, 5, 0, 0, 1, 0, 0, 0, 0, 0, 0] = inp \<and> may_send None demo_target out inp"
  using client_handshake_order [OF script_stream_laws demo_plain_run]
  by (simp add: demo_plain_def script_start_def)

lemma demo_auth_userpass_run:
  "auth_userpass script_stream demo_creds (script_start [1, 0]) =
     (Inr (), \<lparr>to_read = [], written = [1, 5] @ as_bytes ''alice'' @ [6] @ as_bytes ''s3cret'',
       was_read = [1, 0]\<rparr>)"
  by code_simp

theorem auth_userpass_roundtrip_witness:
  "\<exists>msg. [1, 5] @ as_bytes ''alice'' @ [6] @ as_bytes ''s3cret'' = msg \<and>
     decode_userpass msg = Some (demo_creds, [])"
  using auth_userpass_roundtrip [OF script_stream_laws demo_auth_userpass_run]
  by (simp add: script_start_def)

definition demo_dial :: "script \<Rightarrow> (script, script_error) dial_ops" where
  "demo_dial s = \<lparr>tcp_connect = (\<lambda>addr. if addr = ''127.0.0.1:1080'' then Inr s else Inl UnexpectedEof),
     set_nodelay = id, local_addr = (\<lambda>_. Inl UnexpectedEof)\<rparr>"

definition demo_proxy :: socks5_proxy where
  "demo_proxy = socks5_proxy_new ''127.0.0.1'' 1080 None None"

lemma demo_connect_run:
  "connect (demo_dial demo_plain) script_stream demo_proxy demo_target =
     Inr \<lparr>up_stream = \<lparr>to_read = [104, 105], written = [5, 1, 0, 5, 1, 0, 1, 203, 0, 113, 7, 1, 187],
         was_read = [5, 0, 5, 0, 0, 1, 0, 0, 0, 0, 0, 0]\<rparr>,
       up_local_addr = \<lparr>sa_ip = V4 0xCB007107, sa_port = 0\<rparr>\<rparr>"
proof -
  have "server_addr demo_proxy = ''127.0.0.1:1080''" and "creds demo_proxy = None"
    by code_simp+
  then show ?thesis
    by (simp add: connect_def Let_def demo_dial_def handshake_def demo_plain_run)
      (simp add: demo_target_def)
qed

theorem connect_establishes_witness:
  "\<exists>s0 out inp pre. tcp_connect (demo_dial demo_plain) (server_addr demo_proxy) = Inr s0 \<and>
     conversation (creds demo_proxy) demo_target out inp \<and>
     [5, 1, 0, 5, 1, 0, 1, 203, 0, 113, 7, 1, 187] = written (set_nodelay (demo_dial demo_plain) s0) @ out \<and>
     [5, 0, 5, 0, 0, 1, 0, 0, 0, 0, 0, 0] = was_read (set_nodelay (demo_dial demo_plain) s0) @ inp \<and>
     out = pre @ write_request (Ip (sa_ip demo_target)) [VERSION, CONNECT, 0x00] (sa_port demo_target) \<and>
     decode_request (drop (length pre) out) =
       Some (CONNECT, Ip (sa_ip demo_target), sa_port demo_target, [])"
  using connect_establishes [OF script_stream_laws demo_connect_run] by simp

end
