(* ===== verification/Relay.thy ===== *)
theory Relay
  imports Vconn Socks5
begin

text \<open>
  The relay of \<open>src/relay.rs\<close>: one direction copies from the virtual connection to the
  upstream, the other back, and \<open>pipe\<close> dials, joins the two and closes. Each direction is
  a machine that stops at every \<open>await\<close>; \<open>pipe_step\<close> interleaves them. What the
  relay needs of the virtual connection is the locale \<open>vconn_contract\<close>, in which its
  correctness is proved once.
\<close>

section \<open>Definitions\<close>

definition RELAY_BUF :: nat where "RELAY_BUF = 32 * 1024"

datatype 'e relay_error =
    VConnErr vconn_error
  | UpstreamIo 'e
  | WriteZero
  | DialProxy socket_addr "'e connect_error"

text \<open>Where a direction is: the await it performs next, with the data it holds, or its result.\<close>

datatype 'e up_pc = UpRead | UpWrite bytes | UpFlush | UpDone "'e relay_error + unit"

datatype 'e down_pc = DownRead | DownWrite bytes nat | DownClose | DownDone "'e relay_error + unit"

text \<open>
  How a direction goes on with the outcome of a call on the virtual connection, and what it
  does with the upstream between such calls. A direction is a machine that alternates between
  the two.
\<close>

fun up_resume :: "vconn_error + bytes \<Rightarrow> 'e up_pc" where
  "up_resume (Inl e) = UpDone (Inl (VConnErr e))"
| "up_resume (Inr data) = (if data = [] then UpFlush else UpWrite data)"

definition up_io :: "('s, 'e) stream_ops \<Rightarrow> 'e up_pc \<Rightarrow> 's \<Rightarrow> 'e up_pc \<times> 's" where
  "up_io S pc s =
     (case pc of
        UpWrite data \<Rightarrow> (case write_all S data s of
            (Inl e, s) \<Rightarrow> (UpDone (Inl (UpstreamIo e)), s)
          | (Inr _, s) \<Rightarrow> (UpRead, s))
      | UpFlush \<Rightarrow> (case flush S s of (_, s) \<Rightarrow> (UpDone (Inr ()), s))
      | _ \<Rightarrow> (pc, s))"

definition copy_vconn_to ::
  "('w, 'tx, 'r) vconn_ops \<Rightarrow> ('s, 'e) stream_ops \<Rightarrow> 'tx vconn \<Rightarrow>
   'e up_pc \<times> 'w \<times> 's \<Rightarrow> ('e up_pc \<times> 'w \<times> 's) option" where
  "copy_vconn_to V S vc x = (case x of (pc, w, s) \<Rightarrow>
     (case pc of
        UpRead \<Rightarrow> map_option (\<lambda>(data, w). (up_resume data, w, s)) (vconn_read V vc RELAY_BUF w)
      | _ \<Rightarrow> (case up_io S pc s of (pc, s) \<Rightarrow> Some (pc, w, s))))"

fun down_resume :: "bytes \<Rightarrow> nat \<Rightarrow> vconn_error + nat \<Rightarrow> 'e down_pc" where
  "down_resume buf sofar (Inl e) = DownDone (Inl (VConnErr e))"
| "down_resume buf sofar (Inr n) = (if n = 0 then DownDone (Inl WriteZero) else DownWrite buf (sofar + n))"

definition down_io :: "('s, 'e) stream_ops \<Rightarrow> 'e down_pc \<Rightarrow> 's \<Rightarrow> 'e down_pc \<times> 's" where
  "down_io S pc s =
     (case pc of
        DownRead \<Rightarrow> (case read_some S RELAY_BUF s of
            (Inl e, s) \<Rightarrow> (DownDone (Inl (UpstreamIo e)), s)
          | (Inr buf, s) \<Rightarrow> (if length buf = 0 then DownClose else DownWrite buf 0, s))
      | DownWrite buf sofar \<Rightarrow> (if sofar < length buf then pc else DownRead, s)
      | _ \<Rightarrow> (pc, s))"

text \<open>The command of the call a direction makes next, if it makes one.\<close>

fun down_request :: "'e down_pc \<Rightarrow> ('r \<Rightarrow> 'r conn_cmd) option" where
  "down_request (DownWrite buf sofar) = (if sofar < length buf then Some (Write (drop sofar buf)) else None)"
| "down_request DownClose = Some CloseWrite"
| "down_request _ = None"

definition copy_to_vconn ::
  "('w, 'tx, 'r) vconn_ops \<Rightarrow> ('s, 'e) stream_ops \<Rightarrow> 'tx vconn \<Rightarrow>
   'e down_pc \<times> 'w \<times> 's \<Rightarrow> ('e down_pc \<times> 'w \<times> 's) option" where
  "copy_to_vconn V S vc x = (case x of (pc, w, s) \<Rightarrow>
     (case pc of
        DownWrite buf sofar \<Rightarrow>
          if sofar < length buf
          then map_option (\<lambda>(n, w). (down_resume buf sofar n, w, s)) (vconn_write V vc (drop sofar buf) w)
          else (case down_io S pc s of (pc, s) \<Rightarrow> Some (pc, w, s))
      | DownClose \<Rightarrow> map_option (\<lambda>(_, w). (DownDone (Inr ()), w, s)) (vconn_close_write V vc w)
      | _ \<Rightarrow> (case down_io S pc s of (pc, s) \<Rightarrow> Some (pc, w, s))))"

fun copy_to_vconn_steps ::
  "('w, 'tx, 'r) vconn_ops \<Rightarrow> ('s, 'e) stream_ops \<Rightarrow> 'tx vconn \<Rightarrow> nat \<Rightarrow>
   ('e down_pc \<times> 'w \<times> 's) option \<Rightarrow> ('e down_pc \<times> 'w \<times> 's) option" where
  "copy_to_vconn_steps V S vc 0 x = x"
| "copy_to_vconn_steps V S vc (Suc k) x = copy_to_vconn_steps V S vc k (Option.bind x (copy_to_vconn V S vc))"

fun copy_vconn_to_steps ::
  "('w, 'tx, 'r) vconn_ops \<Rightarrow> ('s, 'e) stream_ops \<Rightarrow> 'tx vconn \<Rightarrow> nat \<Rightarrow>
   ('e up_pc \<times> 'w \<times> 's) option \<Rightarrow> ('e up_pc \<times> 'w \<times> 's) option" where
  "copy_vconn_to_steps V S vc 0 x = x"
| "copy_vconn_to_steps V S vc (Suc k) x = copy_vconn_to_steps V S vc k (Option.bind x (copy_vconn_to V S vc))"

datatype 'e pipe_pc =
    PipeDial
  | PipeCopy "'e up_pc" "'e down_pc"
  | PipeClose "'e relay_error + unit" "'e relay_error + unit"
  | PipeDone "'e relay_error + unit"

record ('w, 's, 'e) pipe_state =
  pipe_pc :: "'e pipe_pc"
  pipe_world :: 'w
  pipe_upstream :: "'s option"

definition pipe_start :: "'w \<Rightarrow> ('w, 's, 'e) pipe_state" where
  "pipe_start w = \<lparr>pipe_pc = PipeDial, pipe_world = w, pipe_upstream = None\<rparr>"

inductive pipe_step ::
  "('w, 'tx, 'r) vconn_ops \<Rightarrow> ('s, 'e) stream_ops \<Rightarrow> (socket_addr \<Rightarrow> 'e connect_error + 's upstream) \<Rightarrow>
   'tx vconn \<Rightarrow> ('w, 's, 'e) pipe_state \<Rightarrow> ('w, 's, 'e) pipe_state \<Rightarrow> bool"
  for V S dial vc where
  dial_ok: "pipe_pc p = PipeDial \<Longrightarrow> dial (destination vc) = Inr u \<Longrightarrow>
     pipe_step V S dial vc p (p\<lparr>pipe_pc := PipeCopy UpRead DownRead, pipe_upstream := Some (up_stream u)\<rparr>)"
| dial_err: "pipe_pc p = PipeDial \<Longrightarrow> dial (destination vc) = Inl e \<Longrightarrow>
     pipe_step V S dial vc p (p\<lparr>pipe_pc := PipeDone (Inl (DialProxy (destination vc) e))\<rparr>)"
| copy_up: "pipe_pc p = PipeCopy u d \<Longrightarrow> pipe_upstream p = Some s \<Longrightarrow>
     copy_vconn_to V S vc (u, pipe_world p, s) = Some (u', w', s') \<Longrightarrow>
     pipe_step V S dial vc p (p\<lparr>pipe_pc := PipeCopy u' d, pipe_world := w', pipe_upstream := Some s'\<rparr>)"
| copy_down: "pipe_pc p = PipeCopy u d \<Longrightarrow> pipe_upstream p = Some s \<Longrightarrow>
     copy_to_vconn V S vc (d, pipe_world p, s) = Some (d', w', s') \<Longrightarrow>
     pipe_step V S dial vc p (p\<lparr>pipe_pc := PipeCopy u d', pipe_world := w', pipe_upstream := Some s'\<rparr>)"
| joined: "pipe_pc p = PipeCopy (UpDone ur) (DownDone dr) \<Longrightarrow>
     pipe_step V S dial vc p (p\<lparr>pipe_pc := PipeClose ur dr\<rparr>)"
| closed: "pipe_pc p = PipeClose ur dr \<Longrightarrow> vconn_close V vc (pipe_world p) = Some (r, w') \<Longrightarrow>
     pipe_step V S dial vc p (p\<lparr>pipe_pc := PipeDone (Inr ()), pipe_world := w', pipe_upstream := None\<rparr>)"

inductive_cases pipe_step_cases: "pipe_step V S dial vc p p'"

section \<open>Specification: what has been copied\<close>

text \<open>
  \<open>got\<close> are the bytes taken from the source since the start, \<open>put\<close> those given to the
  sink. A direction that has not failed is missing only the chunk it holds.
\<close>

fun up_copied :: "'e up_pc \<Rightarrow> bytes \<Rightarrow> bytes \<Rightarrow> bool" where
  "up_copied UpRead got put \<longleftrightarrow> got = put"
| "up_copied (UpWrite data) got put \<longleftrightarrow> got = put @ data"
| "up_copied UpFlush got put \<longleftrightarrow> got = put"
| "up_copied (UpDone (Inr _)) got put \<longleftrightarrow> got = put"
| "up_copied (UpDone (Inl _)) got put \<longleftrightarrow> prefix put got"

fun down_copied :: "'e down_pc \<Rightarrow> bytes \<Rightarrow> bytes \<Rightarrow> bool" where
  "down_copied DownRead got put \<longleftrightarrow> got = put"
| "down_copied (DownWrite buf n) got put \<longleftrightarrow> n \<le> length buf \<and> got = put @ drop n buf"
| "down_copied DownClose got put \<longleftrightarrow> got = put"
| "down_copied (DownDone (Inr _)) got put \<longleftrightarrow> got = put"
| "down_copied (DownDone (Inl e)) got put \<longleftrightarrow> e \<noteq> WriteZero \<and> prefix put got"

text \<open>
  The whole relay: while it copies, in both directions everything taken from one side has been
  given to the other, but for the chunk in hand or, after an error, a lost tail. It starts
  from the virtual connection in state \<open>w0\<close> and the stream the dialer returned; a failed
  dial leaves both sides alone.
\<close>

definition both_copied ::
  "('w \<Rightarrow> bytes) \<Rightarrow> ('w \<Rightarrow> bytes) \<Rightarrow> ('s \<Rightarrow> bytes) \<Rightarrow> ('s \<Rightarrow> bytes) \<Rightarrow> 'w \<Rightarrow> 's \<Rightarrow>
   'e up_pc \<Rightarrow> 'e down_pc \<Rightarrow> 'w \<Rightarrow> 's \<Rightarrow> bool" where
  "both_copied rd wr sent rcvd w0 s0 u d w s \<longleftrightarrow>
     (\<exists>got put. up_copied u got put \<and> rd w = rd w0 @ got \<and> sent s = sent s0 @ put) \<and>
     (\<exists>got put. down_copied d got put \<and> rcvd s = rcvd s0 @ got \<and> wr w = wr w0 @ put)"

definition pipe_inv ::
  "('w \<Rightarrow> bool) \<Rightarrow> ('w \<Rightarrow> bytes) \<Rightarrow> ('w \<Rightarrow> bytes) \<Rightarrow> ('s \<Rightarrow> bytes) \<Rightarrow> ('s \<Rightarrow> bytes) \<Rightarrow>
   (socket_addr \<Rightarrow> 'e connect_error + 's upstream) \<Rightarrow> 'tx vconn \<Rightarrow> 'w \<Rightarrow> ('w, 's, 'e) pipe_state \<Rightarrow> bool" where
  "pipe_inv invar rd wr sent rcvd dial vc w0 p =
     (case pipe_pc p of
        PipeDial \<Rightarrow> invar w0 \<and> pipe_world p = w0 \<and> pipe_upstream p = None
      | PipeCopy u d \<Rightarrow> invar (pipe_world p) \<and> (\<exists>up s. dial (destination vc) = Inr up \<and>
          pipe_upstream p = Some s \<and> both_copied rd wr sent rcvd w0 (up_stream up) u d (pipe_world p) s)
      | PipeClose ur dr \<Rightarrow> invar (pipe_world p) \<and> (\<exists>up s. dial (destination vc) = Inr up \<and>
          pipe_upstream p = Some s \<and>
          both_copied rd wr sent rcvd w0 (up_stream up) (UpDone ur) (DownDone dr) (pipe_world p) s)
      | PipeDone r \<Rightarrow> pipe_upstream p = None \<and>
          (case r of
             Inr _ \<Rightarrow> \<exists>up. dial (destination vc) = Inr up
           | Inl e \<Rightarrow> pipe_world p = w0 \<and>
               (\<exists>ce. dial (destination vc) = Inl ce \<and> e = DialProxy (destination vc) ce)))"

section \<open>What each part of a direction does to the copied bytes\<close>

lemma up_resume_copied:
  "up_copied UpRead got put \<Longrightarrow> up_copied (up_resume (Inr d)) (got @ d) put"
  "up_copied UpRead got put \<Longrightarrow> up_copied (up_resume (Inl e)) got put"
  by simp_all

lemma up_io_copied:
  assumes S: "stream_laws S sent rcvd" and c: "up_copied u got put" "sent s = sent0 @ put"
    and step: "up_io S u s = (u', s')"
  shows "\<exists>put'. up_copied u' got put' \<and> sent s' = sent0 @ put' \<and> rcvd s' = rcvd s"
proof (cases u)
  case (UpWrite data)
  obtain r s1 where r: "write_all S data s = (r, s1)" by fastforce
  show ?thesis
  proof (cases r)
    case (Inl e)
    from write_all_Err [OF S r [unfolded Inl]] obtain p where "prefix p data" "sent s1 = sent s @ p" "rcvd s1 = rcvd s"
      by blast
    with UpWrite step c r Inl show ?thesis by (auto simp: up_io_def)
  next
    case (Inr v)
    from write_all_Ok [OF S r [unfolded Inr]] UpWrite step c r Inr show ?thesis by (auto simp: up_io_def)
  qed
next
  case UpFlush
  obtain r s1 where f: "flush S s = (r, s1)" by fastforce
  with UpFlush step c flush_frame [OF S f] show ?thesis by (auto simp: up_io_def)
qed (use step c in \<open>auto simp: up_io_def\<close>)

lemma down_resume_copied:
  "down_copied (DownWrite buf n) got put \<Longrightarrow> down_copied (down_resume buf n (Inl e)) got put"
  "down_copied (DownWrite buf n) got put \<Longrightarrow> n < length buf \<Longrightarrow> m \<noteq> 0 \<Longrightarrow> m \<le> length (drop n buf) \<Longrightarrow>
     down_copied (down_resume buf n (Inr m)) got (put @ take m (drop n buf))"
proof -
  assume "down_copied (DownWrite buf n) got put" "n < length buf" "m \<noteq> 0" "m \<le> length (drop n buf)"
  moreover have "take m (drop n buf) @ drop (n + m) buf = drop n buf"
    by (metis append_take_drop_id drop_drop add.commute)
  ultimately show "down_copied (down_resume buf n (Inr m)) got (put @ take m (drop n buf))" by auto
qed simp

lemma down_io_copied:
  assumes S: "stream_laws S sent rcvd" and c: "down_copied d got put" "rcvd s = rcvd0 @ got"
    and step: "down_io S d s = (d', s')"
  shows "\<exists>got'. down_copied d' got' put \<and> rcvd s' = rcvd0 @ got' \<and> sent s' = sent s"
proof (cases d)
  case DownRead
  obtain r s1 where r: "read_some S RELAY_BUF s = (r, s1)" by fastforce
  with DownRead step c show ?thesis
    by (cases r) (auto simp: down_io_def dest: read_some_Err [OF S] read_some_Ok [OF S] split: if_splits)
qed (use step c in \<open>auto simp: down_io_def split: if_splits\<close>)

section \<open>Runs of one direction are runs of the relay\<close>

lemma copy_up_run:
  "copy_vconn_to_steps V S vc k (Some (u, w, s)) = Some (u', w', s') \<Longrightarrow>
   (pipe_step V S dial vc)\<^sup>*\<^sup>*
     \<lparr>pipe_pc = PipeCopy u d, pipe_world = w, pipe_upstream = Some s\<rparr>
     \<lparr>pipe_pc = PipeCopy u' d, pipe_world = w', pipe_upstream = Some s'\<rparr>"
proof (induction k arbitrary: u w s)
  case (Suc k)
  have none: "copy_vconn_to_steps V S vc k None = None" for k by (induction k) simp_all
  obtain u1 w1 s1 where 1: "copy_vconn_to V S vc (u, w, s) = Some (u1, w1, s1)"
    "copy_vconn_to_steps V S vc k (Some (u1, w1, s1)) = Some (u', w', s')"
    using Suc.prems none by (cases "copy_vconn_to V S vc (u, w, s)") auto
  from pipe_step.copy_up [of "\<lparr>pipe_pc = PipeCopy u d, pipe_world = w, pipe_upstream = Some s\<rparr>" u d s V S vc, where dial = dial] 1(1)
  have "pipe_step V S dial vc \<lparr>pipe_pc = PipeCopy u d, pipe_world = w, pipe_upstream = Some s\<rparr>
      \<lparr>pipe_pc = PipeCopy u1 d, pipe_world = w1, pipe_upstream = Some s1\<rparr>" by simp
  from converse_rtranclp_into_rtranclp [OF this Suc.IH [OF 1(2)]] show ?case .
qed simp

lemma copy_down_run:
  "copy_to_vconn_steps V S vc k (Some (d, w, s)) = Some (d', w', s') \<Longrightarrow>
   (pipe_step V S dial vc)\<^sup>*\<^sup>*
     \<lparr>pipe_pc = PipeCopy u d, pipe_world = w, pipe_upstream = Some s\<rparr>
     \<lparr>pipe_pc = PipeCopy u d', pipe_world = w', pipe_upstream = Some s'\<rparr>"
proof (induction k arbitrary: d w s)
  case (Suc k)
  have none: "copy_to_vconn_steps V S vc k None = None" for k by (induction k) simp_all
  obtain d1 w1 s1 where 1: "copy_to_vconn V S vc (d, w, s) = Some (d1, w1, s1)"
    "copy_to_vconn_steps V S vc k (Some (d1, w1, s1)) = Some (d', w', s')"
    using Suc.prems none by (cases "copy_to_vconn V S vc (d, w, s)") auto
  from pipe_step.copy_down [of "\<lparr>pipe_pc = PipeCopy u d, pipe_world = w, pipe_upstream = Some s\<rparr>" u d s V S vc, where dial = dial] 1(1)
  have "pipe_step V S dial vc \<lparr>pipe_pc = PipeCopy u d, pipe_world = w, pipe_upstream = Some s\<rparr>
      \<lparr>pipe_pc = PipeCopy u d1, pipe_world = w1, pipe_upstream = Some s1\<rparr>" by simp
  from converse_rtranclp_into_rtranclp [OF this Suc.IH [OF 1(2)]] show ?case .
qed simp

section \<open>The contract of a virtual connection\<close>

text \<open>
  \<open>rd\<close> and \<open>wr\<close> observe the bytes handed to readers and accepted from writers so far.
  A read returns at most what it asked for, and hands over exactly what it returns; a write
  accepts exactly the prefix it reports, and some of it if there is any; closing hands over
  nothing.
\<close>

locale vconn_contract =
  fixes V :: "('w, 'tx, 'r) vconn_ops" and vc :: "'tx vconn"
    and invar :: "'w \<Rightarrow> bool" and rd :: "'w \<Rightarrow> bytes" and wr :: "'w \<Rightarrow> bytes"
  assumes read_Ok: "invar w \<Longrightarrow> vconn_read V vc n w = Some (Inr d, w') \<Longrightarrow>
      invar w' \<and> rd w' = rd w @ d \<and> wr w' = wr w \<and> length d \<le> n"
    and read_Err: "invar w \<Longrightarrow> vconn_read V vc n w = Some (Inl e, w') \<Longrightarrow>
      invar w' \<and> rd w' = rd w \<and> wr w' = wr w"
    and write_Ok: "invar w \<Longrightarrow> vconn_write V vc d w = Some (Inr n, w') \<Longrightarrow>
      invar w' \<and> wr w' = wr w @ take n d \<and> rd w' = rd w \<and> n \<le> length d \<and> (n = 0 \<longrightarrow> d = [])"
    and write_Err: "invar w \<Longrightarrow> vconn_write V vc d w = Some (Inl e, w') \<Longrightarrow>
      invar w' \<and> wr w' = wr w \<and> rd w' = rd w"
    and close_write_frame: "invar w \<Longrightarrow> vconn_close_write V vc w = Some (r, w') \<Longrightarrow>
      invar w' \<and> wr w' = wr w \<and> rd w' = rd w"
    and close_frame: "invar w \<Longrightarrow> vconn_close V vc w = Some (r, w') \<Longrightarrow> wr w' = wr w \<and> rd w' = rd w"
begin

lemma copy_up_inv:
  assumes S: "stream_laws S sent rcvd" and w: "invar w"
    and c: "up_copied u got put" "rd w = rd0 @ got" "sent s = sent0 @ put"
    and step: "copy_vconn_to V S vc (u, w, s) = Some (u', w', s')"
  shows "\<exists>got' put'. invar w' \<and> up_copied u' got' put' \<and> rd w' = rd0 @ got' \<and> sent s' = sent0 @ put' \<and>
    wr w' = wr w \<and> rcvd s' = rcvd s"
proof (cases "u = UpRead")
  case True
  with step obtain r where r: "vconn_read V vc RELAY_BUF w = Some (r, w')" "u' = up_resume r" "s' = s"
    by (auto simp: copy_vconn_to_def)
  show ?thesis
  proof (cases r)
    case (Inl e)
    from read_Err [OF w r(1) [unfolded Inl]] True c r Inl up_resume_copied(2) show ?thesis by fastforce
  next
    case (Inr d)
    from read_Ok [OF w r(1) [unfolded Inr]] True c r Inr up_resume_copied(1) show ?thesis by fastforce
  qed
next
  case False
  with step have io: "up_io S u s = (u', s')" "w' = w"
    by (auto simp: copy_vconn_to_def split: up_pc.splits prod.splits)
  from up_io_copied [OF S c(1,3) io(1)] c(2) io(2) w show ?thesis by auto
qed

lemma copy_down_inv:
  assumes S: "stream_laws S sent rcvd" and w: "invar w"
    and c: "down_copied d got put" "rcvd s = rcvd0 @ got" "wr w = wr0 @ put"
    and step: "copy_to_vconn V S vc (d, w, s) = Some (d', w', s')"
  shows "\<exists>got' put'. invar w' \<and> down_copied d' got' put' \<and> rcvd s' = rcvd0 @ got' \<and> wr w' = wr0 @ put' \<and>
    rd w' = rd w \<and> sent s' = sent s"
proof -
  consider (chunk) buf n where "d = DownWrite buf n" "n < length buf" | (close) "d = DownClose"
    | (io) "down_io S d s = (d', s')" "w' = w"
    using step by (cases d) (auto simp: copy_to_vconn_def split: prod.splits if_splits)
  then show ?thesis
  proof cases
    case (chunk buf n)
    with step obtain r where r: "vconn_write V vc (drop n buf) w = Some (r, w')" "d' = down_resume buf n r" "s' = s"
      by (auto simp: copy_to_vconn_def)
    show ?thesis
    proof (cases r)
      case (Inl e)
      from write_Err [OF w r(1) [unfolded Inl]] chunk c r Inl show ?thesis by auto
    next
      case (Inr m)
      from write_Ok [OF w r(1) [unfolded Inr]] chunk(2)
      have m: "invar w'" "wr w' = wr w @ take m (drop n buf)" "rd w' = rd w" "m \<noteq> 0" "m \<le> length (drop n buf)"
        by auto
      from down_resume_copied(2) [OF c(1) [unfolded chunk(1)] chunk(2) m(4,5)] m(1-3) c(2,3) r(2,3) Inr
      show ?thesis by auto
    qed
  next
    case close
    with step obtain r where r: "vconn_close_write V vc w = Some (r, w')" by (auto simp: copy_to_vconn_def)
    with close step c w close_write_frame [OF w r] show ?thesis by (auto simp: copy_to_vconn_def)
  next
    case io
    from down_io_copied [OF S c(1,2) io(1)] c(3) io(2) w show ?thesis by auto
  qed
qed

lemma pipe_step_inv:
  assumes S: "stream_laws S sent rcvd" and inv: "pipe_inv invar rd wr sent rcvd dial vc w0 p"
    and step: "pipe_step V S dial vc p p'"
  shows "pipe_inv invar rd wr sent rcvd dial vc w0 p'"
  using step
proof cases
  case (dial_ok u)
  with inv show ?thesis by (simp add: pipe_inv_def both_copied_def)
next
  case (dial_err e)
  with inv show ?thesis by (simp add: pipe_inv_def)
next
  case (copy_up u d s u' w' s')
  with inv obtain up got put where up: "dial (destination vc) = Inr up" "invar (pipe_world p)"
    "up_copied u got put" "rd (pipe_world p) = rd w0 @ got" "sent s = sent (up_stream up) @ put"
    "\<exists>got put. down_copied d got put \<and> rcvd s = rcvd (up_stream up) @ got \<and> wr (pipe_world p) = wr w0 @ put"
    by (auto simp: pipe_inv_def both_copied_def)
  from copy_up_inv [OF S up(2-5) copy_up(4)] up(1,6) copy_up(1) show ?thesis
    by (auto simp: pipe_inv_def both_copied_def)
next
  case (copy_down u d s d' w' s')
  with inv obtain up got put where up: "dial (destination vc) = Inr up" "invar (pipe_world p)"
    "down_copied d got put" "rcvd s = rcvd (up_stream up) @ got" "wr (pipe_world p) = wr w0 @ put"
    "\<exists>got put. up_copied u got put \<and> rd (pipe_world p) = rd w0 @ got \<and> sent s = sent (up_stream up) @ put"
    by (auto simp: pipe_inv_def both_copied_def)
  from copy_down_inv [OF S up(2-5) copy_down(4)] up(1,6) copy_down(1) show ?thesis
    by (auto simp: pipe_inv_def both_copied_def)
next
  case (joined ur dr)
  with inv show ?thesis by (simp add: pipe_inv_def)
next
  case (closed ur dr r w')
  with inv show ?thesis by (auto simp: pipe_inv_def)
qed

end

text \<open>With any upstream and any dialer the relay is a transition system with that invariant.\<close>

sublocale vconn_contract \<subseteq> pipe: transition_system "pipe_step V S dial vc"
    "\<lambda>p. stream_laws S sent rcvd \<and> pipe_inv invar rd wr sent rcvd dial vc w0 p"
  for S dial sent rcvd w0
  by unfold_locales (blast intro: pipe_step_inv)

end
