(* ===== verification/Smoltcp_Iface.thy ===== *)
theory Smoltcp_Iface
  imports Tokio_Iface
begin

text \<open>
  The parts of smoltcp the program calls, as parameters: the TCP socket and the socket set as
  records of operations. \<open>tcp_laws\<close> and \<open>set_laws\<close> state what smoltcp documents
  about them, over observers of the unknown socket: the bytes waiting in the receive buffer
  and the bytes handed to the transmit buffer so far. A simulated socket and a set with
  increasing handles show that the laws can hold and serve the witnesses.
\<close>

section \<open>TCP sockets\<close>

text \<open>The states of \<open>smoltcp::socket::tcp::State\<close>; \<open>TcpClosed\<close> is \<open>State::Closed\<close>.\<close>

datatype tcp_state = TcpClosed | Listen | SynSent | SynReceived | Established | FinWait1 | FinWait2
  | CloseWait | Closing | LastAck | TimeWait

datatype recv_error = InvalidState | Finished

datatype send_error = SendInvalidState

datatype listen_error = ListenInvalidState | Unaddressable

record 'k tcp_ops =
  tcp_new :: "nat \<Rightarrow> nat \<Rightarrow> 'k"
  tcp_listen :: "'k \<Rightarrow> listen_error + 'k"
  tcp_state :: "'k \<Rightarrow> tcp_state"
  local_endpoint :: "'k \<Rightarrow> socket_addr option"
  remote_endpoint :: "'k \<Rightarrow> socket_addr option"
  can_recv :: "'k \<Rightarrow> bool"
  may_recv :: "'k \<Rightarrow> bool"
  recv_queue :: "'k \<Rightarrow> nat"
  recv_slice :: "bytes \<Rightarrow> 'k \<Rightarrow> (recv_error + nat) \<times> bytes \<times> 'k"
  can_send :: "'k \<Rightarrow> bool"
  may_send :: "'k \<Rightarrow> bool"
  send_slice :: "bytes \<Rightarrow> 'k \<Rightarrow> (send_error + nat) \<times> 'k"
  tcp_close :: "'k \<Rightarrow> 'k"
  tcp_abort :: "'k \<Rightarrow> 'k"

text \<open>
  Receiving: the queue length is reported, data in the buffer keeps the receive half open,
  and a read takes as much of the oldest data as fits. Sending: an open transmit half accepts
  a prefix of the data, a non-empty one when there is room. \<open>close\<close> shuts the transmit
  half only; \<open>abort\<close> moves the socket to CLOSED, after which only buffered data can still
  be read.
\<close>

definition recv_laws :: "'k tcp_ops \<Rightarrow> ('k \<Rightarrow> bytes) \<Rightarrow> ('k \<Rightarrow> bytes) \<Rightarrow> bool" where
  "recv_laws T rxq txq \<longleftrightarrow>
     (\<forall>k. recv_queue T k = length (rxq k)) \<and>
     (\<forall>k. can_recv T k \<longleftrightarrow> rxq k \<noteq> []) \<and>
     (\<forall>k. rxq k \<noteq> [] \<longrightarrow> may_recv T k) \<and>
     (\<forall>buf k. may_recv T k \<longrightarrow> (\<exists>k'.
        recv_slice T buf k = (Inr (min (length buf) (length (rxq k))),
          take (length buf) (rxq k) @ drop (length (rxq k)) buf, k') \<and>
        rxq k' = drop (length buf) (rxq k) \<and> txq k' = txq k \<and>
        can_send T k' = can_send T k \<and> may_send T k' = may_send T k \<and>
        tcp_state T k' = tcp_state T k)) \<and>
     (\<forall>buf k. \<not> may_recv T k \<longrightarrow> (\<exists>e. recv_slice T buf k = (Inl e, buf, k)))"

definition send_laws :: "'k tcp_ops \<Rightarrow> ('k \<Rightarrow> bytes) \<Rightarrow> ('k \<Rightarrow> bytes) \<Rightarrow> bool" where
  "send_laws T rxq txq \<longleftrightarrow>
     (\<forall>k. can_send T k \<longrightarrow> may_send T k) \<and>
     (\<forall>data k. may_send T k \<longrightarrow> (\<exists>n k'.
        send_slice T data k = (Inr n, k') \<and> n \<le> length data \<and>
        (can_send T k \<longrightarrow> data \<noteq> [] \<longrightarrow> 0 < n) \<and>
        txq k' = txq k @ take n data \<and> rxq k' = rxq k \<and> may_recv T k' = may_recv T k \<and>
        tcp_state T k' = tcp_state T k)) \<and>
     (\<forall>data k. \<not> may_send T k \<longrightarrow> (\<exists>e. send_slice T data k = (Inl e, k)))"

definition close_laws :: "'k tcp_ops \<Rightarrow> ('k \<Rightarrow> bytes) \<Rightarrow> ('k \<Rightarrow> bytes) \<Rightarrow> bool" where
  "close_laws T rxq txq \<longleftrightarrow>
     (\<forall>k. rxq (tcp_close T k) = rxq k \<and> txq (tcp_close T k) = txq k \<and>
        \<not> may_send T (tcp_close T k) \<and> (may_recv T k \<longrightarrow> may_recv T (tcp_close T k)) \<and>
        (tcp_state T k = TcpClosed \<longrightarrow> tcp_state T (tcp_close T k) = TcpClosed)) \<and>
     (\<forall>k. rxq (tcp_abort T k) = rxq k \<and> txq (tcp_abort T k) = txq k \<and>
        tcp_state T (tcp_abort T k) = TcpClosed) \<and>
     (\<forall>k. tcp_state T k = TcpClosed \<longrightarrow> \<not> may_send T k \<and> (may_recv T k \<longrightarrow> rxq k \<noteq> []))"

definition tcp_laws :: "'k tcp_ops \<Rightarrow> ('k \<Rightarrow> bytes) \<Rightarrow> ('k \<Rightarrow> bytes) \<Rightarrow> bool" where
  "tcp_laws T rxq txq \<longleftrightarrow> recv_laws T rxq txq \<and> send_laws T rxq txq \<and> close_laws T rxq txq"

text \<open>A fresh socket can listen on the wildcard endpoint, and is then in state LISTEN.\<close>

definition listen_laws :: "'k tcp_ops \<Rightarrow> bool" where
  "listen_laws T \<longleftrightarrow>
     (\<forall>rx tx. \<exists>k. tcp_listen T (tcp_new T rx tx) = Inr k \<and> tcp_state T k = Listen)"

section \<open>Socket sets\<close>

text \<open>
  \<open>get_mut\<close> and \<open>remove\<close> panic on a handle that is not in the set: that is
  \<open>None\<close>. \<open>set_put\<close> is the effect of mutating the socket behind the reference
  \<open>get_mut\<close> returned.
\<close>

record ('z, 'h, 'k) set_ops =
  set_empty :: 'z
  set_add :: "'k \<Rightarrow> 'z \<Rightarrow> 'h \<times> 'z"
  set_get :: "'h \<Rightarrow> 'z \<Rightarrow> 'k option"
  set_put :: "'h \<Rightarrow> 'k \<Rightarrow> 'z \<Rightarrow> 'z"
  set_remove :: "'h \<Rightarrow> 'z \<Rightarrow> 'z option"

definition set_laws :: "('z, 'h, 'k) set_ops \<Rightarrow> bool" where
  "set_laws Z \<longleftrightarrow>
     (\<forall>h. set_get Z h (set_empty Z) = None) \<and>
     (\<forall>k z h z'. set_add Z k z = (h, z') \<longrightarrow>
        set_get Z h z = None \<and> (\<forall>h'. set_get Z h' z' = (if h' = h then Some k else set_get Z h' z))) \<and>
     (\<forall>h k z. set_get Z h z \<noteq> None \<longrightarrow>
        (\<forall>h'. set_get Z h' (set_put Z h k z) = (if h' = h then Some k else set_get Z h' z))) \<and>
     (\<forall>h z. set_get Z h z \<noteq> None \<longrightarrow>
        (\<exists>z'. set_remove Z h z = Some z' \<and>
           (\<forall>h'. set_get Z h' z' = (if h' = h then None else set_get Z h' z))))"

definition handles :: "('z, 'h, 'k) set_ops \<Rightarrow> 'z \<Rightarrow> 'h set" where
  "handles Z z = {h. set_get Z h z \<noteq> None}"

section \<open>A simulated socket and a simulated set\<close>

record sim_socket =
  sim_state :: tcp_state
  sim_rx :: bytes
  sim_tx :: bytes
  sim_room :: nat
  sim_local :: "socket_addr option"
  sim_remote :: "socket_addr option"

definition sim_may_recv :: "sim_socket \<Rightarrow> bool" where
  "sim_may_recv k \<longleftrightarrow> sim_state k \<in> {Established, FinWait1, FinWait2} \<or> sim_rx k \<noteq> []"

definition sim_may_send :: "sim_socket \<Rightarrow> bool" where
  "sim_may_send k \<longleftrightarrow> sim_state k \<in> {Established, CloseWait}"

definition sim_tcp :: "sim_socket tcp_ops" where
  "sim_tcp = \<lparr>
     tcp_new = (\<lambda>rx tx. \<lparr>sim_state = TcpClosed, sim_rx = [], sim_tx = [], sim_room = tx,
       sim_local = None, sim_remote = None\<rparr>),
     tcp_listen = (\<lambda>k. if sim_state k = TcpClosed then Inr (k\<lparr>sim_state := Listen\<rparr>)
       else Inl ListenInvalidState),
     tcp_state = sim_state,
     local_endpoint = sim_local,
     remote_endpoint = sim_remote,
     can_recv = (\<lambda>k. sim_rx k \<noteq> []),
     may_recv = sim_may_recv,
     recv_queue = (\<lambda>k. length (sim_rx k)),
     recv_slice = (\<lambda>buf k. if sim_may_recv k
       then (Inr (min (length buf) (length (sim_rx k))),
             take (length buf) (sim_rx k) @ drop (length (sim_rx k)) buf,
             k\<lparr>sim_rx := drop (length buf) (sim_rx k)\<rparr>)
       else (Inl (if sim_state k = CloseWait then Finished else InvalidState), buf, k)),
     can_send = (\<lambda>k. sim_may_send k \<and> 0 < sim_room k),
     may_send = sim_may_send,
     send_slice = (\<lambda>data k. if sim_may_send k
       then (Inr (min (length data) (sim_room k)),
             k\<lparr>sim_tx := sim_tx k @ take (sim_room k) data,
               sim_room := sim_room k - min (length data) (sim_room k)\<rparr>)
       else (Inl SendInvalidState, k)),
     tcp_close = (\<lambda>k. k\<lparr>sim_state :=
       (if sim_state k = Established \<or> sim_state k = SynReceived then FinWait1
        else if sim_state k = CloseWait then LastAck
        else if sim_state k = Listen \<or> sim_state k = SynSent then TcpClosed else sim_state k)\<rparr>),
     tcp_abort = (\<lambda>k. k\<lparr>sim_state := TcpClosed\<rparr>)\<rparr>"

record 'k sim_set =
  sim_next :: nat
  sim_socks :: "nat \<rightharpoonup> 'k"

definition sim_sets :: "('k sim_set, nat, 'k) set_ops" where
  "sim_sets = \<lparr>
     set_empty = \<lparr>sim_next = 0, sim_socks = Map.empty\<rparr>,
     set_add = (\<lambda>k z. (sim_next z, \<lparr>sim_next = Suc (sim_next z),
       sim_socks = (\<lambda>h. if h < sim_next z then sim_socks z h else None)(sim_next z \<mapsto> k)\<rparr>)),
     set_get = (\<lambda>h z. if h < sim_next z then sim_socks z h else None),
     set_put = (\<lambda>h k z. z\<lparr>sim_socks := (sim_socks z)(h \<mapsto> k)\<rparr>),
     set_remove = (\<lambda>h z. if h < sim_next z \<and> sim_socks z h \<noteq> None
       then Some (z\<lparr>sim_socks := (sim_socks z)(h := None)\<rparr>) else None)\<rparr>"

section \<open>Consequences of the laws\<close>

lemma recv_queue_eq: "tcp_laws T rxq txq \<Longrightarrow> recv_queue T k = length (rxq k)"
  and can_recv_iff: "tcp_laws T rxq txq \<Longrightarrow> can_recv T k \<longleftrightarrow> rxq k \<noteq> []"
  and may_recv_data: "tcp_laws T rxq txq \<Longrightarrow> rxq k \<noteq> [] \<Longrightarrow> may_recv T k"
  unfolding tcp_laws_def recv_laws_def by blast+

lemma recv_slice_open:
  assumes "tcp_laws T rxq txq" and "may_recv T k"
  obtains k' where "recv_slice T buf k = (Inr (min (length buf) (length (rxq k))),
      take (length buf) (rxq k) @ drop (length (rxq k)) buf, k')"
    and "rxq k' = drop (length buf) (rxq k)" and "txq k' = txq k"
    and "can_send T k' = can_send T k" and "may_send T k' = may_send T k"
    and "tcp_state T k' = tcp_state T k"
  using assms unfolding tcp_laws_def recv_laws_def by blast

lemma recv_slice_shut:
  assumes "tcp_laws T rxq txq" and "\<not> may_recv T k"
  obtains e where "recv_slice T buf k = (Inl e, buf, k)"
  using assms unfolding tcp_laws_def recv_laws_def by blast

lemma send_slice_open:
  assumes "tcp_laws T rxq txq" and "may_send T k"
  obtains n k' where "send_slice T data k = (Inr n, k')" and "n \<le> length data"
    and "can_send T k \<longrightarrow> data \<noteq> [] \<longrightarrow> 0 < n"
    and "txq k' = txq k @ take n data" and "rxq k' = rxq k" and "may_recv T k' = may_recv T k"
    and "tcp_state T k' = tcp_state T k"
proof -
  from assms obtain n k' where "send_slice T data k = (Inr n, k') \<and> n \<le> length data \<and>
      (can_send T k \<longrightarrow> data \<noteq> [] \<longrightarrow> 0 < n) \<and>
      txq k' = txq k @ take n data \<and> rxq k' = rxq k \<and> may_recv T k' = may_recv T k \<and>
      tcp_state T k' = tcp_state T k"
    unfolding tcp_laws_def send_laws_def by metis
  then show thesis by (intro that [of n k']) simp_all
qed

lemma send_slice_shut:
  assumes "tcp_laws T rxq txq" and "\<not> may_send T k"
  obtains e where "send_slice T data k = (Inl e, k)"
  using assms unfolding tcp_laws_def send_laws_def by blast

lemma can_send_may_send: "tcp_laws T rxq txq \<Longrightarrow> can_send T k \<Longrightarrow> may_send T k"
  unfolding tcp_laws_def send_laws_def by blast

lemma tcp_close_laws:
  assumes "tcp_laws T rxq txq"
  shows "rxq (tcp_close T k) = rxq k" "txq (tcp_close T k) = txq k"
    "\<not> may_send T (tcp_close T k)" "may_recv T k \<Longrightarrow> may_recv T (tcp_close T k)"
    "tcp_state T k = TcpClosed \<Longrightarrow> tcp_state T (tcp_close T k) = TcpClosed"
  using assms unfolding tcp_laws_def close_laws_def by blast+

lemma tcp_abort_laws:
  assumes "tcp_laws T rxq txq"
  shows "rxq (tcp_abort T k) = rxq k" "txq (tcp_abort T k) = txq k"
    "tcp_state T (tcp_abort T k) = TcpClosed"
  using assms unfolding tcp_laws_def close_laws_def by blast+

lemma tcp_closed_laws:
  assumes "tcp_laws T rxq txq" and "tcp_state T k = TcpClosed"
  shows "\<not> may_send T k" "may_recv T k \<Longrightarrow> rxq k \<noteq> []"
  using assms unfolding tcp_laws_def close_laws_def by blast+

lemma sim_tcp_laws: "tcp_laws sim_tcp sim_rx sim_tx"
  unfolding tcp_laws_def
proof (intro conjI)
  show "recv_laws sim_tcp sim_rx sim_tx"
    by (auto simp: recv_laws_def sim_tcp_def sim_may_recv_def sim_may_send_def)
  show "send_laws sim_tcp sim_rx sim_tx"
    by (auto simp: send_laws_def sim_tcp_def sim_may_send_def sim_may_recv_def min_def)
  show "close_laws sim_tcp sim_rx sim_tx"
    by (auto simp: close_laws_def sim_tcp_def sim_may_send_def sim_may_recv_def)
qed

lemma sim_listen_laws: "listen_laws sim_tcp"
  by (auto simp: listen_laws_def sim_tcp_def)

lemma set_add_laws:
  assumes "set_laws Z" and "set_add Z k z = (h, z')"
  shows "set_get Z h z = None" "set_get Z h' z' = (if h' = h then Some k else set_get Z h' z)"
    "handles Z z' = insert h (handles Z z)"
proof -
  have *: "set_get Z h z = None" "(\<forall>h'. set_get Z h' z' = (if h' = h then Some k else set_get Z h' z))"
    using assms unfolding set_laws_def by blast+
  then show "set_get Z h z = None" "set_get Z h' z' = (if h' = h then Some k else set_get Z h' z)" for h'
    by auto
  then show "handles Z z' = insert h (handles Z z)" by (auto simp: handles_def)
qed

lemma set_put_laws:
  assumes "set_laws Z" and "set_get Z h z \<noteq> None"
  shows "set_get Z h' (set_put Z h k z) = (if h' = h then Some k else set_get Z h' z)"
    "handles Z (set_put Z h k z) = handles Z z"
proof -
  have "(\<forall>h'. set_get Z h' (set_put Z h k z) = (if h' = h then Some k else set_get Z h' z))"
    using assms unfolding set_laws_def by blast
  then show "set_get Z h' (set_put Z h k z) = (if h' = h then Some k else set_get Z h' z)" for h'
    by auto
  then show "handles Z (set_put Z h k z) = handles Z z" using assms(2) by (auto simp: handles_def)
qed

lemma set_remove_laws:
  assumes "set_laws Z" and "set_get Z h z \<noteq> None"
  obtains z' where "set_remove Z h z = Some z'"
    and "\<And>h'. set_get Z h' z' = (if h' = h then None else set_get Z h' z)"
    and "handles Z z' = handles Z z - {h}"
proof -
  obtain z' where z': "set_remove Z h z = Some z'"
    and eq: "(\<forall>h'. set_get Z h' z' = (if h' = h then None else set_get Z h' z))"
    using assms unfolding set_laws_def by blast
  from eq have get: "set_get Z h' z' = (if h' = h then None else set_get Z h' z)" for h'
    by auto
  then have "handles Z z' = handles Z z - {h}" by (auto simp: handles_def)
  with z' get show thesis by (rule that)
qed

lemma set_empty_handles [simp]: "set_laws Z \<Longrightarrow> handles Z (set_empty Z) = {}"
  unfolding handles_def set_laws_def by simp

lemma sim_sets_laws: "set_laws sim_sets"
  by (auto simp: set_laws_def sim_sets_def fun_eq_iff split: if_splits)

end
