(* ===== verification/Conn_State.thy ===== *)
theory Conn_State
  imports Vconn Smoltcp_Iface
begin

text \<open>
  The per-connection half of the actor, \<open>ConnState\<close> of \<open>src/netstack/actor.rs\<close>: the
  pending read and write, the command loop \<open>service\<close> and \<open>service_io\<close>. Sending on a
  oneshot reply channel is recorded in a log of replies; whether the caller has given a reply
  up (\<open>is_closed\<close>) is a parameter that may change every time the command channel is
  looked at.
\<close>

section \<open>State\<close>

record 'r pending_read =
  max_len :: nat
  rd_reply :: 'r

record 'r pending_write =
  data :: bytes
  wr_reply :: 'r

record ('c, 'r) conn_state =
  cmd_rx :: 'c
  read :: "'r pending_read option"
  "write" :: "'r pending_write option"

datatype 'r reply =
    ReadReply 'r "vconn_error + bytes"
  | WriteReply 'r "vconn_error + nat"
  | UnitReply 'r "vconn_error + unit"

text \<open>What one call of the actor works on: the connection, its socket, the replies sent so far.\<close>

type_synonym ('c, 'r, 'k) conn_io = "('c, 'r) conn_state \<times> 'k \<times> 'r reply list"

section \<open>Operations\<close>

definition conn_state_new :: "'c \<Rightarrow> ('c, 'r) conn_state" where
  "conn_state_new rx = \<lparr>cmd_rx = rx, read = None, write = None\<rparr>"

definition service_read ::
  "'k tcp_ops \<Rightarrow> ('r \<Rightarrow> 'c \<Rightarrow> bool) \<Rightarrow> ('c, 'r, 'k) conn_io \<Rightarrow> ('c, 'r, 'k) conn_io" where
  "service_read T is_closed x = (case x of (self, socket, log) \<Rightarrow>
     (case read self of
        None \<Rightarrow> (self, socket, log)
      | Some rd \<Rightarrow>
          let self = self\<lparr>read := None\<rparr> in
          if is_closed (rd_reply rd) (cmd_rx self) then (self, socket, log)
          else if max_len rd = 0 then (self, socket, log @ [ReadReply (rd_reply rd) (Inr [])])
          else if \<not> can_recv T socket \<and> may_recv T socket then (self\<lparr>read := Some rd\<rparr>, socket, log)
          else
            let buf = replicate (min (max_len rd) (recv_queue T socket)) 0 in
            (case recv_slice T buf socket of (res, buf, socket) \<Rightarrow>
               let result = (case res of
                     Inr n \<Rightarrow> Inr (take n buf)
                   | Inl Finished \<Rightarrow> Inr []
                   | Inl InvalidState \<Rightarrow> Inl Closed)
               in (self, socket, log @ [ReadReply (rd_reply rd) result]))))"

definition service_write ::
  "'k tcp_ops \<Rightarrow> ('r \<Rightarrow> 'c \<Rightarrow> bool) \<Rightarrow> ('c, 'r, 'k) conn_io \<Rightarrow> ('c, 'r, 'k) conn_io" where
  "service_write T is_closed x = (case x of (self, socket, log) \<Rightarrow>
     (case write self of
        None \<Rightarrow> (self, socket, log)
      | Some wr \<Rightarrow>
          let self = self\<lparr>write := None\<rparr> in
          if is_closed (wr_reply wr) (cmd_rx self) then (self, socket, log)
          else if data wr = [] then (self, socket, log @ [WriteReply (wr_reply wr) (Inr 0)])
          else if \<not> can_send T socket \<and> may_send T socket then (self\<lparr>write := Some wr\<rparr>, socket, log)
          else
            (case send_slice T (data wr) socket of (res, socket) \<Rightarrow>
               (self, socket, log @ [WriteReply (wr_reply wr) (map_err (\<lambda>_. Closed) res)]))))"

definition service_io ::
  "'k tcp_ops \<Rightarrow> ('r \<Rightarrow> 'c \<Rightarrow> bool) \<Rightarrow> ('c, 'r, 'k) conn_io \<Rightarrow> ('c, 'r, 'k) conn_io" where
  "service_io T is_closed x = service_write T is_closed (service_read T is_closed x)"

definition handle_cmd :: "'k tcp_ops \<Rightarrow> 'r conn_cmd \<Rightarrow> ('c, 'r, 'k) conn_io \<Rightarrow> ('c, 'r, 'k) conn_io" where
  "handle_cmd T c x = (case x of (self, socket, log) \<Rightarrow>
     (case c of
        Read n r \<Rightarrow>
          if read self \<noteq> None
          then (self, socket, log @ [ReadReply r (Inl (Io WouldBlock ''a read is already pending''))])
          else (self\<lparr>read := Some \<lparr>max_len = n, rd_reply = r\<rparr>\<rparr>, socket, log)
      | Write d r \<Rightarrow>
          if write self \<noteq> None
          then (self, socket, log @ [WriteReply r (Inl (Io WouldBlock ''a write is already pending''))])
          else (self\<lparr>write := Some \<lparr>data = d, wr_reply = r\<rparr>\<rparr>, socket, log)
      | CloseWrite r \<Rightarrow> (self, tcp_close T socket, log @ [UnitReply r (Inr ())])
      | Close r \<Rightarrow> (self, tcp_abort T socket, log @ [UnitReply r (Inr ())])))"

text \<open>
  The command loop. Other tasks may refill the channel while it runs, so it returns only if
  \<open>try_recv\<close> eventually finds the channel empty; \<open>None\<close> is a loop that does not.
\<close>

partial_function (option) service_loop ::
  "('c, 'r conn_cmd) mpsc_ops \<Rightarrow> 'k tcp_ops \<Rightarrow> ('r \<Rightarrow> 'c \<Rightarrow> bool) \<Rightarrow>
   ('c, 'r, 'k) conn_io \<Rightarrow> ('c, 'r, 'k) conn_io option" where
  "service_loop M T is_closed x =
     (case try_recv M (cmd_rx (fst x)) of
        (None, c) \<Rightarrow> Some (apfst (cmd_rx_update (\<lambda>_. c)) x)
      | (Some cm, c) \<Rightarrow>
          service_loop M T is_closed
            (service_io T is_closed (handle_cmd T cm (apfst (cmd_rx_update (\<lambda>_. c)) x))))"

definition service ::
  "('c, 'r conn_cmd) mpsc_ops \<Rightarrow> 'k tcp_ops \<Rightarrow> ('r \<Rightarrow> 'c \<Rightarrow> bool) \<Rightarrow>
   ('c, 'r, 'k) conn_io \<Rightarrow> ('c, 'r, 'k) conn_io option" where
  "service M T is_closed x = service_loop M T is_closed (service_io T is_closed x)"

definition fail_pending :: "('c, 'r) conn_state \<times> 'r reply list \<Rightarrow> ('c, 'r) conn_state \<times> 'r reply list" where
  "fail_pending x = (case x of (self, log) \<Rightarrow>
     let log = (case read self of None \<Rightarrow> log | Some rd \<Rightarrow> log @ [ReadReply (rd_reply rd) (Inl Closed)]);
         log = (case write self of None \<Rightarrow> log | Some wr \<Rightarrow> log @ [WriteReply (wr_reply wr) (Inl Closed)])
     in (self\<lparr>read := None, write := None\<rparr>, log))"

section \<open>Specification: which requests are open\<close>

fun cmd_id :: "'r conn_cmd \<Rightarrow> 'r" where
  "cmd_id (Read n r) = r"
| "cmd_id (Write d r) = r"
| "cmd_id (CloseWrite r) = r"
| "cmd_id (Close r) = r"

fun reply_id :: "'r reply \<Rightarrow> 'r" where
  "reply_id (ReadReply r v) = r"
| "reply_id (WriteReply r v) = r"
| "reply_id (UnitReply r v) = r"

definition pending_ids :: "('c, 'r) conn_state \<Rightarrow> 'r multiset" where
  "pending_ids self =
     (case read self of None \<Rightarrow> {#} | Some rd \<Rightarrow> {#rd_reply rd#}) +
     (case write self of None \<Rightarrow> {#} | Some wr \<Rightarrow> {#wr_reply wr#})"

definition replied_ids :: "'r reply list \<Rightarrow> 'r multiset" where
  "replied_ids log = mset (map reply_id log)"

definition queued_ids :: "'r conn_cmd list \<Rightarrow> 'r multiset" where
  "queued_ids cs = mset (map cmd_id cs)"

definition known_ids :: "('c, 'r, 'k) conn_io \<Rightarrow> 'r multiset" where
  "known_ids x = (case x of (self, socket, log) \<Rightarrow> replied_ids log + pending_ids self)"

text \<open>
  The replies a command may get. A read gets at most what it asked for; a write reports how
  much of its data was taken, and nothing taken only if there was nothing to take; any request
  may be refused, a close never.
\<close>

fun answers :: "'r conn_cmd \<Rightarrow> 'r reply \<Rightarrow> bool" where
  "answers (Read n r) (ReadReply r' v) \<longleftrightarrow>
     r' = r \<and> (case v of Inr d \<Rightarrow> length d \<le> n | Inl e \<Rightarrow> e = Closed \<or> (\<exists>m. e = Io WouldBlock m))"
| "answers (Write d r) (WriteReply r' v) \<longleftrightarrow>
     r' = r \<and> (case v of Inr n \<Rightarrow> n \<le> length d \<and> (n = 0 \<longrightarrow> d = [])
               | Inl e \<Rightarrow> e = Closed \<or> (\<exists>m. e = Io WouldBlock m))"
| "answers (CloseWrite r) (UnitReply r' v) \<longleftrightarrow> r' = r \<and> v = Inr ()"
| "answers (Close r) (UnitReply r' v) \<longleftrightarrow> r' = r \<and> v = Inr ()"
| "answers _ _ \<longleftrightarrow> False"

text \<open>The pending requests, as the commands that made them.\<close>

definition pending_cmds :: "('c, 'r) conn_state \<Rightarrow> 'r conn_cmd set" where
  "pending_cmds self =
     (case read self of None \<Rightarrow> {} | Some rd \<Rightarrow> {Read (max_len rd) (rd_reply rd)}) \<union>
     (case write self of None \<Rightarrow> {} | Some wr \<Rightarrow> {Write (data wr) (wr_reply wr)})"

definition answered_from :: "'r conn_cmd set \<Rightarrow> 'r reply list \<Rightarrow> ('c, 'r, 'k) conn_io \<Rightarrow> bool" where
  "answered_from A log0 x = (case x of (self, socket, log) \<Rightarrow>
     pending_cmds self \<subseteq> A \<and>
     (\<exists>new. log = log0 @ new \<and> (\<forall>rep \<in> set new. \<exists>cm \<in> A. answers cm rep)))"

text \<open>The bytes a log of replies has delivered to readers, in order.\<close>

fun delivered :: "'r reply list \<Rightarrow> bytes" where
  "delivered [] = []"
| "delivered (ReadReply r (Inr d) # log) = d @ delivered log"
| "delivered (_ # log) = delivered log"

text \<open>Together with what is still buffered: the incoming byte stream from the start of the log on.\<close>

definition stream_of :: "('k \<Rightarrow> bytes) \<Rightarrow> ('c, 'r, 'k) conn_io \<Rightarrow> bytes" where
  "stream_of rxq x = (case x of (self, socket, log) \<Rightarrow> delivered log @ rxq socket)"

text \<open>A request waits only while the socket has nothing for it.\<close>

definition blocked :: "'k tcp_ops \<Rightarrow> ('c, 'r, 'k) conn_io \<Rightarrow> bool" where
  "blocked T x = (case x of (self, socket, log) \<Rightarrow>
     (read self \<noteq> None \<longrightarrow> \<not> can_recv T socket \<and> may_recv T socket) \<and>
     (write self \<noteq> None \<longrightarrow> \<not> can_send T socket \<and> may_send T socket))"

section \<open>Frame facts and the induction principle of the loop\<close>

lemma service_read_rx [simp]: "cmd_rx (fst (service_read T is_closed x)) = cmd_rx (fst x)"
  by (cases x) (auto simp: service_read_def Let_def split: option.splits prod.splits)

lemma service_write_rx [simp]: "cmd_rx (fst (service_write T is_closed x)) = cmd_rx (fst x)"
  by (cases x) (auto simp: service_write_def Let_def split: option.splits prod.splits)

lemma service_io_rx [simp]: "cmd_rx (fst (service_io T is_closed x)) = cmd_rx (fst x)"
  by (simp add: service_io_def)

lemma handle_cmd_rx [simp]: "cmd_rx (fst (handle_cmd T cm x)) = cmd_rx (fst x)"
  by (cases x; cases cm) (auto simp: handle_cmd_def)

text \<open>
  Whatever holds when the loop starts and is kept by each command holds at the end, and the
  loop ends: the commands are those in the channel when it starts.
\<close>

lemma service_loop_induct:
  assumes L: "mpsc_laws M queue cap" and "P (queue (cmd_rx (fst x))) x"
    and step: "\<And>cm cs c x. P (cm # cs) x \<Longrightarrow> queue c = cs \<Longrightarrow>
      P cs (service_io T is_closed (handle_cmd T cm (apfst (cmd_rx_update (\<lambda>_. c)) x)))"
    and stop: "\<And>c x. P [] x \<Longrightarrow> queue c = [] \<Longrightarrow> P [] (apfst (cmd_rx_update (\<lambda>_. c)) x)"
  shows "\<exists>x'. service_loop M T is_closed x = Some x' \<and> queue (cmd_rx (fst x')) = [] \<and> P [] x'"
  using assms(2)
proof (induction "queue (cmd_rx (fst x))" arbitrary: x)
  case Nil
  from try_recv_Nil [OF L Nil.hyps [symmetric]] obtain c
    where c: "try_recv M (cmd_rx (fst x)) = (None, c)" "queue c = []" by blast
  moreover have "P [] (apfst (cmd_rx_update (\<lambda>_. c)) x)"
    using Nil c(2) by (intro stop) simp_all
  ultimately show ?case by (subst service_loop.simps) simp
next
  case (Cons cm cs)
  from try_recv_Cons [OF L Cons.hyps(2) [symmetric]] obtain c
    where c: "try_recv M (cmd_rx (fst x)) = (Some cm, c)" "queue c = cs" by blast
  let ?y = "service_io T is_closed (handle_cmd T cm (apfst (cmd_rx_update (\<lambda>_. c)) x))"
  have "P cs ?y" using Cons.prems Cons.hyps(2) c(2) by (intro step) simp_all
  then have "\<exists>x'. service_loop M T is_closed ?y = Some x' \<and> queue (cmd_rx (fst x')) = [] \<and> P [] x'"
    using c(2) by (intro Cons.hyps(1)) simp_all
  then show ?case using c by (subst service_loop.simps) simp
qed

lemma service_induct:
  assumes "mpsc_laws M queue cap" and "service M T is_closed x = Some x'"
    and "P (queue (cmd_rx (fst x))) (service_io T is_closed x)"
    and "\<And>cm cs c x. P (cm # cs) x \<Longrightarrow> queue c = cs \<Longrightarrow>
      P cs (service_io T is_closed (handle_cmd T cm (apfst (cmd_rx_update (\<lambda>_. c)) x)))"
    and "\<And>c x. P [] x \<Longrightarrow> queue c = [] \<Longrightarrow> P [] (apfst (cmd_rx_update (\<lambda>_. c)) x)"
  shows "P [] x'"
proof -
  have "P (queue (cmd_rx (fst (service_io T is_closed x)))) (service_io T is_closed x)"
    using assms(3) by simp
  from service_loop_induct [of M queue cap P, OF assms(1) this assms(4,5)] assms(2)
  show ?thesis by (auto simp: service_def)
qed

text \<open>
  Servicing a connection returns: with finitely many commands in the channel the command loop
  ends, and it ends with every one of them taken.
\<close>
theorem service_terminates:
  assumes "mpsc_laws M queue cap"
  shows "\<exists>x'. service M T is_closed x = Some x' \<and> queue (cmd_rx (fst x')) = []"
  using service_loop_induct [OF assms, where P = "\<lambda>_ _. True" and x = "service_io T is_closed x"]
  unfolding service_def by blast

section \<open>Every request is answered at most once, and none is lost\<close>

lemmas ids_defs = pending_ids_def replied_ids_def queued_ids_def

lemma service_read_ids:
  "known_ids (service_read T is_closed x) \<subseteq># known_ids x"
  "(\<And>r c. \<not> is_closed r c) \<Longrightarrow> known_ids (service_read T is_closed x) = known_ids x"
  by (cases x; auto simp: known_ids_def service_read_def Let_def ids_defs
      split: option.splits prod.splits)+

lemma service_write_ids:
  "known_ids (service_write T is_closed x) \<subseteq># known_ids x"
  "(\<And>r c. \<not> is_closed r c) \<Longrightarrow> known_ids (service_write T is_closed x) = known_ids x"
  by (cases x; auto simp: known_ids_def service_write_def Let_def ids_defs
      split: option.splits prod.splits)+

lemma service_io_ids:
  "known_ids (service_io T is_closed x) \<subseteq># known_ids x"
  "(\<And>r c. \<not> is_closed r c) \<Longrightarrow> known_ids (service_io T is_closed x) = known_ids x"
  using service_read_ids [where T = T and is_closed = is_closed and x = x] service_write_ids [where T = T and is_closed = is_closed and x = "service_read T is_closed x"]
  by (auto simp: service_io_def intro: subset_mset.order_trans)

lemma handle_cmd_ids: "known_ids (handle_cmd T cm x) = known_ids x + {#cmd_id cm#}"
  by (cases x; cases cm) (auto simp: known_ids_def handle_cmd_def ids_defs)

lemma set_rx_ids [simp]: "known_ids (apfst (cmd_rx_update f) x) = known_ids x"
  by (cases x) (simp add: known_ids_def pending_ids_def)

lemma queued_ids_Cons [simp]: "queued_ids (cm # cs) = add_mset (cmd_id cm) (queued_ids cs)"
  and queued_ids_Nil [simp]: "queued_ids [] = {#}"
  by (simp_all add: queued_ids_def)

lemma service_known_ids:
  fixes x :: "('c, 'r, 'k) conn_io"
  assumes "mpsc_laws M queue cap" and "service M T is_closed x = Some x'"
  shows "known_ids x' \<subseteq># known_ids x + queued_ids (queue (cmd_rx (fst x))) \<and>
    ((\<forall>r c. \<not> is_closed r c) \<longrightarrow> known_ids x' = known_ids x + queued_ids (queue (cmd_rx (fst x))))"
proof -
  let ?all = "known_ids x + queued_ids (queue (cmd_rx (fst x)))"
  let ?P = "\<lambda>cs (y :: ('c, 'r, 'k) conn_io). known_ids y + queued_ids cs \<subseteq># ?all \<and>
    ((\<forall>r c. \<not> is_closed r c) \<longrightarrow> known_ids y + queued_ids cs = ?all)"
  have "?P [] x'"
  proof (rule service_induct [where P = ?P, OF assms])
    show "?P (queue (cmd_rx (fst x))) (service_io T is_closed x)"
      using service_io_ids [where T = T and is_closed = is_closed and x = x] by simp
  next
    fix cm cs c and y :: "('c, 'r, 'k) conn_io"
    assume *: "?P (cm # cs) y"
    let ?y = "handle_cmd T cm (apfst (cmd_rx_update (\<lambda>_. c)) y)"
    have eq: "known_ids ?y + queued_ids cs = known_ids y + queued_ids (cm # cs)"
      by (simp add: handle_cmd_ids)
    have "known_ids (service_io T is_closed ?y) + queued_ids cs \<subseteq># known_ids ?y + queued_ids cs"
      by (intro subset_mset.add_right_mono service_io_ids)
    also have "\<dots> \<subseteq># ?all" using * eq by simp
    finally show "?P cs (service_io T is_closed ?y)"
      using * eq service_io_ids(2) [where T = T and is_closed = is_closed and x = ?y] by simp
  qed simp
  then show ?thesis by simp
qed

lemma service_returns:
  assumes "mpsc_laws M queue cap"
  obtains self' k' log' where "service M T is_closed x = Some (self', k', log')" "queue (cmd_rx self') = []"
  using service_loop_induct [OF assms, where P = "\<lambda>_ _. True" and x = "service_io T is_closed x"]
  unfolding service_def by (metis fst_conv prod_cases3)

text \<open>
  C24. Over a whole service call no request is answered twice and no answer is invented: the
  requests replied to by the end, together with those still pending, are among those replied
  to or pending at the start and those waiting in the channel, counted with multiplicity.
  When no caller has given up, the two sides are equal: no request is lost.
\<close>
theorem service_replies_once:
  fixes T :: "'k tcp_ops" and self :: "('c, 'r) conn_state"
  assumes "mpsc_laws M queue cap" and "service M T is_closed (self, k, log) = Some (self', k', log')"
  shows "replied_ids log' + pending_ids self' \<subseteq>#
      replied_ids log + pending_ids self + queued_ids (queue (cmd_rx self)) \<and>
    ((\<forall>r c. \<not> is_closed r c) \<longrightarrow> replied_ids log' + pending_ids self' =
      replied_ids log + pending_ids self + queued_ids (queue (cmd_rx self)))"
  using service_known_ids [OF assms] by (simp add: known_ids_def)

section \<open>Bytes read are delivered in order, none twice, none lost\<close>

lemma delivered_append: "delivered (xs @ ys) = delivered xs @ delivered ys"
  by (induction xs rule: delivered.induct) auto

lemma service_read_serves:
  assumes L: "tcp_laws T rxq txq" and rd: "read self = Some rd" "\<not> is_closed (rd_reply rd) (cmd_rx self)"
    and ready: "max_len rd \<noteq> 0" "can_recv T k \<or> \<not> may_recv T k"
  obtains (bytes) k' where "may_recv T k"
    "service_read T is_closed (self, k, log) = (self\<lparr>read := None\<rparr>, k',
       log @ [ReadReply (rd_reply rd) (Inr (take (max_len rd) (rxq k)))])"
    "rxq k \<noteq> []" "rxq k' = drop (max_len rd) (rxq k)" "txq k' = txq k"
    "may_send T k' = may_send T k" "tcp_state T k' = tcp_state T k"
  | (eof) "\<not> may_recv T k" "rxq k = []" "recv_slice T [] k = (Inl Finished, [], k)"
    "service_read T is_closed (self, k, log) =
       (self\<lparr>read := None\<rparr>, k, log @ [ReadReply (rd_reply rd) (Inr [])])"
  | (shut) "\<not> may_recv T k" "rxq k = []"
    "service_read T is_closed (self, k, log) =
       (self\<lparr>read := None\<rparr>, k, log @ [ReadReply (rd_reply rd) (Inl Closed)])"
proof (cases "may_recv T k")
  case True
  with ready have ne: "rxq k \<noteq> []" by (simp add: can_recv_iff [OF L])
  define b where "b = min (max_len rd) (length (rxq k))"
  obtain k' where k': "recv_slice T (replicate b 0) k = (Inr b, take b (rxq k), k')"
    "rxq k' = drop b (rxq k)" "txq k' = txq k" "may_send T k' = may_send T k"
    "tcp_state T k' = tcp_state T k"
    by (rule recv_slice_open [OF L True, of "replicate b 0"]) (simp add: b_def)
  have tk: "take b (rxq k) = take (max_len rd) (rxq k)" "drop b (rxq k) = drop (max_len rd) (rxq k)"
    by (auto simp: b_def min_def)
  have res: "service_read T is_closed (self, k, log) = (self\<lparr>read := None\<rparr>, k',
      log @ [ReadReply (rd_reply rd) (Inr (take (max_len rd) (rxq k)))])"
    using rd ready True k'(1)
    by (simp add: service_read_def Let_def recv_queue_eq [OF L] b_def [symmetric] tk [symmetric])
  show thesis
    by (rule bytes [of k', OF True res ne]) (use k' in \<open>simp_all add: tk\<close>)
next
  case False
  then have rx: "rxq k = []" using may_recv_data [OF L] by blast
  obtain e where e: "recv_slice T [] k = (Inl e, [], k)"
    by (rule recv_slice_shut [OF L False])
  show thesis
    using rd ready False rx e eof shut
    by (cases e) (auto simp: service_read_def Let_def recv_queue_eq [OF L])
qed

lemma service_read_idle:
  "read self = None \<Longrightarrow> service_read T is_closed (self, k, log) = (self, k, log)"
  "read self = Some rd \<Longrightarrow> is_closed (rd_reply rd) (cmd_rx self) \<Longrightarrow>
     service_read T is_closed (self, k, log) = (self\<lparr>read := None\<rparr>, k, log)"
  "read self = Some rd \<Longrightarrow> \<not> is_closed (rd_reply rd) (cmd_rx self) \<Longrightarrow> max_len rd = 0 \<Longrightarrow>
     service_read T is_closed (self, k, log) =
       (self\<lparr>read := None\<rparr>, k, log @ [ReadReply (rd_reply rd) (Inr [])])"
  "read self = Some rd \<Longrightarrow> \<not> is_closed (rd_reply rd) (cmd_rx self) \<Longrightarrow> max_len rd \<noteq> 0 \<Longrightarrow>
     \<not> can_recv T k \<Longrightarrow> may_recv T k \<Longrightarrow> service_read T is_closed (self, k, log) = (self, k, log)"
  by (simp_all add: service_read_def Let_def)

lemma service_write_serves:
  assumes L: "tcp_laws T rxq txq" and wr: "write self = Some wr" "\<not> is_closed (wr_reply wr) (cmd_rx self)"
    and ready: "data wr \<noteq> []" "can_send T k \<or> \<not> may_send T k"
  obtains (bytes) k' n where "can_send T k"
    "service_write T is_closed (self, k, log) =
       (self\<lparr>write := None\<rparr>, k', log @ [WriteReply (wr_reply wr) (Inr n)])"
    "0 < n" "n \<le> length (data wr)" "txq k' = txq k @ take n (data wr)" "rxq k' = rxq k"
    "may_recv T k' = may_recv T k" "tcp_state T k' = tcp_state T k"
  | (shut) "\<not> may_send T k"
    "service_write T is_closed (self, k, log) =
       (self\<lparr>write := None\<rparr>, k, log @ [WriteReply (wr_reply wr) (Inl Closed)])"
proof (cases "may_send T k")
  case True
  with ready have can: "can_send T k" by simp
  obtain n k' where k': "send_slice T (data wr) k = (Inr n, k')" "n \<le> length (data wr)"
    "can_send T k \<longrightarrow> data wr \<noteq> [] \<longrightarrow> 0 < n"
    "txq k' = txq k @ take n (data wr)" "rxq k' = rxq k" "may_recv T k' = may_recv T k"
    "tcp_state T k' = tcp_state T k"
    by (rule send_slice_open [OF L True, of "data wr"])
  show thesis
    by (rule bytes [OF can, of k' n]) (use k' can wr ready in \<open>auto simp: service_write_def Let_def\<close>)
next
  case False
  obtain e where e: "send_slice T (data wr) k = (Inl e, k)"
    by (rule send_slice_shut [OF L False])
  show thesis using wr ready False e by (intro shut) (auto simp: service_write_def Let_def)
qed

lemma service_write_idle:
  "write self = None \<Longrightarrow> service_write T is_closed (self, k, log) = (self, k, log)"
  "write self = Some wr \<Longrightarrow> is_closed (wr_reply wr) (cmd_rx self) \<Longrightarrow>
     service_write T is_closed (self, k, log) = (self\<lparr>write := None\<rparr>, k, log)"
  "write self = Some wr \<Longrightarrow> \<not> is_closed (wr_reply wr) (cmd_rx self) \<Longrightarrow> data wr = [] \<Longrightarrow>
     service_write T is_closed (self, k, log) =
       (self\<lparr>write := None\<rparr>, k, log @ [WriteReply (wr_reply wr) (Inr 0)])"
  "write self = Some wr \<Longrightarrow> \<not> is_closed (wr_reply wr) (cmd_rx self) \<Longrightarrow> data wr \<noteq> [] \<Longrightarrow>
     \<not> can_send T k \<Longrightarrow> may_send T k \<Longrightarrow> service_write T is_closed (self, k, log) = (self, k, log)"
  by (simp_all add: service_write_def Let_def)

text \<open>The outcomes of the two halves of \<open>service_io\<close>, in the form the proofs below use them.\<close>

lemma service_read_contract:
  assumes L: "tcp_laws T rxq txq"
  obtains (wait) "service_read T is_closed (self, k, log) = (self, k, log)"
      "read self \<noteq> None \<longrightarrow> \<not> can_recv T k \<and> may_recv T k"
  | (cancelled) rd where "read self = Some rd" "is_closed (rd_reply rd) (cmd_rx self)"
      "service_read T is_closed (self, k, log) = (self\<lparr>read := None\<rparr>, k, log)"
  | (replied) rd v k' where "read self = Some rd"
      "service_read T is_closed (self, k, log) = (self\<lparr>read := None\<rparr>, k', log @ [ReadReply (rd_reply rd) v])"
      "txq k' = txq k" "may_send T k' = may_send T k" "tcp_state T k' = tcp_state T k"
      "v = Inl Closed \<and> k' = k \<or> (\<exists>d. v = Inr d \<and> rxq k = d @ rxq k' \<and>
         length d \<le> max_len rd \<and> (d = [] \<longrightarrow> k' = k \<and>
           (max_len rd = 0 \<or> \<not> may_recv T k \<and> recv_slice T [] k = (Inl Finished, [], k))))"
proof (cases "read self")
  case None
  then show thesis by (intro wait) (simp_all add: service_read_idle)
next
  case (Some rd)
  show thesis
  proof (cases "is_closed (rd_reply rd) (cmd_rx self)")
    case True
    with Some show thesis by (intro cancelled) (simp_all add: service_read_idle)
  next
    case live: False
    show thesis
    proof (cases "max_len rd = 0 \<or> \<not> can_recv T k \<and> may_recv T k")
      case True
      then show thesis
        using Some live wait replied [of rd k "Inr []"]
        by (cases "max_len rd = 0") (auto simp: service_read_idle)
    next
      case False
      then have "max_len rd \<noteq> 0" "can_recv T k \<or> \<not> may_recv T k" by auto
      from L Some live this show thesis
      proof (cases rule: service_read_serves [where log = log])
        case (bytes k')
        then show thesis using Some \<open>max_len rd \<noteq> 0\<close>
          by (intro replied [of rd k' "Inr (take (max_len rd) (rxq k))"]) auto
      next
        case eof
        then show thesis using Some by (intro replied [of rd k "Inr []"]) auto
      next
        case shut
        then show thesis using Some by (intro replied [of rd k "Inl Closed"]) auto
      qed
    qed
  qed
qed

lemma service_write_contract:
  assumes L: "tcp_laws T rxq txq"
  obtains (wait) "service_write T is_closed (self, k, log) = (self, k, log)"
      "write self \<noteq> None \<longrightarrow> \<not> can_send T k \<and> may_send T k"
  | (cancelled) wr where "write self = Some wr" "is_closed (wr_reply wr) (cmd_rx self)"
      "service_write T is_closed (self, k, log) = (self\<lparr>write := None\<rparr>, k, log)"
  | (replied) wr v k' where "write self = Some wr"
      "service_write T is_closed (self, k, log) = (self\<lparr>write := None\<rparr>, k', log @ [WriteReply (wr_reply wr) v])"
      "rxq k' = rxq k" "may_recv T k' = may_recv T k" "tcp_state T k' = tcp_state T k"
      "v = Inl Closed \<and> k' = k \<and> \<not> may_send T k \<or> (\<exists>n. v = Inr n \<and> n \<le> length (data wr) \<and>
         txq k' = txq k @ take n (data wr) \<and> (n = 0 \<longrightarrow> data wr = [] \<and> k' = k) \<and>
         (n \<noteq> 0 \<longrightarrow> can_send T k))"
proof (cases "write self")
  case None
  then show thesis by (intro wait) (simp_all add: service_write_idle)
next
  case (Some wr)
  show thesis
  proof (cases "is_closed (wr_reply wr) (cmd_rx self)")
    case True
    with Some show thesis by (intro cancelled) (simp_all add: service_write_idle)
  next
    case live: False
    show thesis
    proof (cases "data wr = [] \<or> \<not> can_send T k \<and> may_send T k")
      case True
      then show thesis
        using Some live wait replied [of wr k "Inr 0"]
        by (cases "data wr = []") (auto simp: service_write_idle)
    next
      case False
      then have "data wr \<noteq> []" "can_send T k \<or> \<not> may_send T k" by auto
      from L Some live this show thesis
      proof (cases rule: service_write_serves [where log = log])
        case (bytes k' n)
        then show thesis using Some by (intro replied [of wr k' "Inr n"]) auto
      next
        case shut
        then show thesis using Some by (intro replied [of wr k "Inl Closed"]) auto
      qed
    qed
  qed
qed

lemma service_io_stream:
  assumes L: "tcp_laws T rxq txq"
  shows "stream_of rxq (service_io T is_closed x) = stream_of rxq x"
proof -
  have r: "stream_of rxq (service_read T is_closed (self, k, log)) = stream_of rxq (self, k, log)" for self k log
    by (rule service_read_contract [OF L, of is_closed self k log])
      (auto simp: stream_of_def delivered_append)
  have w: "stream_of rxq (service_write T is_closed (self, k, log)) = stream_of rxq (self, k, log)" for self k log
    by (rule service_write_contract [OF L, of is_closed self k log])
      (auto simp: stream_of_def delivered_append)
  show ?thesis by (metis r w prod_cases3 service_io_def)
qed

lemma handle_cmd_stream:
  assumes "tcp_laws T rxq txq"
  shows "stream_of rxq (handle_cmd T cm x) = stream_of rxq x"
  by (cases x; cases cm)
    (auto simp: handle_cmd_def stream_of_def delivered_append tcp_close_laws [OF assms] tcp_abort_laws [OF assms])

lemma set_rx_stream [simp]: "stream_of rxq (apfst (cmd_rx_update f) x) = stream_of rxq x"
  by (cases x) (simp add: stream_of_def)

lemma service_stream:
  assumes "mpsc_laws M queue cap" and "tcp_laws T rxq txq" and "service M T is_closed x = Some x'"
  shows "stream_of rxq x' = stream_of rxq x"
  by (rule service_induct [where P = "\<lambda>_ y. stream_of rxq y = stream_of rxq x", OF assms(1,3)])
    (simp_all add: service_io_stream [OF assms(2)] handle_cmd_stream [OF assms(2)])

text \<open>
  C23. The bytes a service call delivers to readers are exactly the bytes it takes from the
  socket's receive buffer, in order: what was delivered before and what is buffered, followed
  end to end, is the same byte stream before and after the call, whatever commands arrive and
  whichever callers have given up. A cancelled read loses no data.
\<close>
theorem service_delivers_in_order:
  assumes "mpsc_laws M queue cap" and "tcp_laws T rxq txq"
    and "service M T is_closed (self, k, log) = Some (self', k', log')"
  shows "delivered log' @ rxq k' = delivered log @ rxq k"
  using service_stream [OF assms] by (simp add: stream_of_def)

section \<open>No request waits while the socket is ready\<close>

lemma service_io_blocked:
  assumes L: "tcp_laws T rxq txq"
  shows "blocked T (service_io T is_closed x)"
proof -
  obtain self k log where x: "x = (self, k, log)" by (cases x)
  obtain self1 k1 log1 where y: "service_read T is_closed x = (self1, k1, log1)"
    by (cases "service_read T is_closed x")
  have r: "read self1 \<noteq> None \<longrightarrow> \<not> can_recv T k1 \<and> may_recv T k1"
    using y x by (cases rule: service_read_contract [OF L, of is_closed self k log]) auto
  show ?thesis
    unfolding service_io_def y
    by (cases rule: service_write_contract [OF L, of is_closed self1 k1 log1])
      (use r in \<open>auto simp: blocked_def can_recv_iff [OF L]\<close>)
qed

lemma service_blocked:
  assumes "mpsc_laws M queue cap" and "tcp_laws T rxq txq" and "service M T is_closed x = Some x'"
  shows "blocked T x'"
  by (rule service_induct [where P = "\<lambda>_ y. blocked T y", OF assms(1,3)])
    (auto simp: service_io_blocked [OF assms(2)], auto simp: blocked_def)

text \<open>
  C26. When a service call returns, a read is still pending only if the socket has no data and
  its receive half is open, and a write only if the transmit buffer is full and its transmit
  half is open: no request is left waiting for something that has already happened.
\<close>
theorem service_leaves_blocked:
  assumes "mpsc_laws M queue cap" and "tcp_laws T rxq txq"
    and "service M T is_closed x = Some (self', k', log')"
  shows "(read self' \<noteq> None \<longrightarrow> \<not> can_recv T k' \<and> may_recv T k') \<and>
    (write self' \<noteq> None \<longrightarrow> \<not> can_send T k' \<and> may_send T k')"
  using service_blocked [OF assms] by (simp add: blocked_def)

section \<open>Every reply fits its command\<close>

lemma answered_fromI:
  "pending_cmds self \<subseteq> A \<Longrightarrow> \<forall>rep \<in> set new. \<exists>cm \<in> A. answers cm rep \<Longrightarrow>
     answered_from A log0 (self, k, log0 @ new)"
  by (auto simp: answered_from_def)

lemma answered_from_snoc:
  assumes "answered_from A log0 (self, k, log)" and "pending_cmds self' \<subseteq> A"
    and "cm \<in> A" and "answers cm rep"
  shows "answered_from A log0 (self', k', log @ [rep])"
  using assms by (force simp: answered_from_def)

lemma answered_from_frame:
  "answered_from A log0 (self, k, log) \<Longrightarrow> pending_cmds self' \<subseteq> A \<Longrightarrow> answered_from A log0 (self', k', log)"
  by (auto simp: answered_from_def)

lemma pending_cmds_simps [simp]:
  "pending_cmds (self\<lparr>read := None\<rparr>) \<subseteq> pending_cmds self"
  "pending_cmds (self\<lparr>write := None\<rparr>) \<subseteq> pending_cmds self"
  "pending_cmds (self\<lparr>cmd_rx := c\<rparr>) = pending_cmds self"
  "read self = None \<Longrightarrow> pending_cmds (self\<lparr>read := Some rd\<rparr>) =
     insert (Read (max_len rd) (rd_reply rd)) (pending_cmds self)"
  "write self = None \<Longrightarrow> pending_cmds (self\<lparr>write := Some wr\<rparr>) =
     insert (Write (data wr) (wr_reply wr)) (pending_cmds self)"
  by (auto simp: pending_cmds_def)

lemma set_rx_answered [simp]:
  "answered_from A log0 (apfst (cmd_rx_update f) x) = answered_from A log0 x"
  "answered_from A log0 (self\<lparr>cmd_rx := c\<rparr>, k, log) = answered_from A log0 (self, k, log)"
  by (cases x) (simp_all add: answered_from_def pending_cmds_def)

lemma pending_cmds_mem:
  "read self = Some rd \<Longrightarrow> Read (max_len rd) (rd_reply rd) \<in> pending_cmds self"
  "write self = Some wr \<Longrightarrow> Write (data wr) (wr_reply wr) \<in> pending_cmds self"
  by (auto simp: pending_cmds_def)

lemma service_io_answers:
  assumes L: "tcp_laws T rxq txq" and "answered_from A log0 x"
  shows "answered_from A log0 (service_io T is_closed x)"
proof -
  have r: "answered_from A log0 (service_read T is_closed (self, k, log))"
    if a: "answered_from A log0 (self, k, log)" for self k log
  proof -
    have sub: "pending_cmds self \<subseteq> A" using a by (simp add: answered_from_def)
    have sub': "pending_cmds (self\<lparr>read := None\<rparr>) \<subseteq> A" using sub pending_cmds_simps(1) by blast
    from L show ?thesis
    proof (cases rule: service_read_contract [where is_closed = is_closed and self = self and k = k and log = log])
      case (replied rd v k')
      have "answers (Read (max_len rd) (rd_reply rd)) (ReadReply (rd_reply rd) v)"
        using replied by auto
      with replied sub show ?thesis
        by (auto intro!: answered_from_snoc [OF a sub'] dest: pending_cmds_mem)
    qed (use a sub' in \<open>auto intro: answered_from_frame\<close>)
  qed
  have w: "answered_from A log0 (service_write T is_closed (self, k, log))"
    if a: "answered_from A log0 (self, k, log)" for self k log
  proof -
    have sub: "pending_cmds self \<subseteq> A" using a by (simp add: answered_from_def)
    have sub': "pending_cmds (self\<lparr>write := None\<rparr>) \<subseteq> A" using sub pending_cmds_simps(2) by blast
    from L show ?thesis
    proof (cases rule: service_write_contract [where is_closed = is_closed and self = self and k = k and log = log])
      case (replied wr v k')
      have "answers (Write (data wr) (wr_reply wr)) (WriteReply (wr_reply wr) v)"
        using replied by auto
      with replied sub show ?thesis
        by (auto intro!: answered_from_snoc [OF a sub'] dest: pending_cmds_mem)
    qed (use a sub' in \<open>auto intro: answered_from_frame\<close>)
  qed
  from assms(2) show ?thesis by (metis r w prod_cases3 service_io_def)
qed

lemma handle_cmd_answers:
  assumes "answered_from A log0 x" and "cm \<in> A"
  shows "answered_from A log0 (handle_cmd T cm x)"
proof -
  obtain self k log where x: "x = (self, k, log)" by (cases x)
  have sub: "pending_cmds self \<subseteq> A" using assms(1) x by (simp add: answered_from_def)
  show ?thesis
    using assms(2) sub unfolding x
    by (cases cm) (auto simp: handle_cmd_def intro!: answered_from_snoc [OF assms(1) [unfolded x] sub]
        answered_from_frame [OF assms(1) [unfolded x]])
qed

text \<open>
  C25. Every reply a service call sends answers a request that was pending or queued when it
  started, under that request's own reply channel and within its terms: a read gets at most
  the bytes it asked for, a write is told a count within its data that is zero only for empty
  data, a close always succeeds.
\<close>
theorem service_replies_answer:
  assumes "mpsc_laws M queue cap" and "tcp_laws T rxq txq"
    and "service M T is_closed (self, k, log) = Some (self', k', log')"
  shows "\<exists>new. log' = log @ new \<and>
    (\<forall>rep \<in> set new. \<exists>cm \<in> pending_cmds self \<union> set (queue (cmd_rx self)). answers cm rep)"
proof -
  let ?A = "pending_cmds self \<union> set (queue (cmd_rx self))"
  have start: "answered_from ?A log (self, k, log)"
    using answered_fromI [of self ?A "[]" log k] by simp
  have "set [] \<subseteq> ?A \<and> answered_from ?A log (self', k', log')"
  proof (rule service_induct [where P = "\<lambda>cs y. set cs \<subseteq> ?A \<and> answered_from ?A log y", OF assms(1,3)])
    show "set (queue (cmd_rx (fst (self, k, log)))) \<subseteq> ?A \<and>
        answered_from ?A log (service_io T is_closed (self, k, log))"
      using service_io_answers [OF assms(2) start] by auto
  qed (auto intro!: service_io_answers [OF assms(2)] handle_cmd_answers)
  then show ?thesis by (auto simp: answered_from_def)
qed

text \<open>
  A write that is answered with a count has handed exactly that prefix of its data to the
  socket's transmit buffer, after everything handed over before; a write that is refused or
  cancelled has handed over nothing.
\<close>
theorem service_write_enqueues:
  assumes "tcp_laws T rxq txq" and "write self = Some wr"
    and "service_write T is_closed (self, k, log) = (self', k', log')"
  shows "(\<exists>n \<le> length (data wr). log' = log @ [WriteReply (wr_reply wr) (Inr n)] \<and>
      txq k' = txq k @ take n (data wr)) \<or>
    (log' = log \<or> log' = log @ [WriteReply (wr_reply wr) (Inl Closed)]) \<and> txq k' = txq k"
  using assms(2,3) by (cases rule: service_write_contract [OF assms(1), of is_closed self k log]) auto

text \<open>
  C27. An empty answer to a read that asked for something means end of stream: the receive half is
  closed, nothing is buffered, and the socket reports that the peer has finished. A relay that
  stops at an empty read never stops early.
\<close>
theorem service_read_eof:
  assumes "tcp_laws T rxq txq" and "read self = Some rd" and "max_len rd \<noteq> 0"
    and "service_read T is_closed (self, k, log) = (self', k', log @ [ReadReply (rd_reply rd) (Inr [])])"
  shows "\<not> may_recv T k \<and> rxq k = [] \<and> recv_slice T [] k = (Inl Finished, [], k)"
  using assms(1)
proof (cases rule: service_read_contract [where is_closed = is_closed and self = self and k = k and log = log])
  case (replied rd' v k'')
  with assms(2,4) have "v = Inr []" and "rd' = rd" by simp_all
  with replied(6) assms(3) have "\<not> may_recv T k" and "recv_slice T [] k = (Inl Finished, [], k)" by simp_all
  with may_recv_data [OF assms(1), of k] show ?thesis by blast
qed (use assms(4) in simp_all)

section \<open>Closing\<close>

lemma service_io_state:
  assumes L: "tcp_laws T rxq txq"
  shows "tcp_state T (fst (snd (service_io T is_closed x))) = tcp_state T (fst (snd x))"
proof -
  have r: "tcp_state T (fst (snd (service_read T is_closed (self, k, log)))) = tcp_state T k" for self k log
    by (rule service_read_contract [OF L, of is_closed self k log]) auto
  have w: "tcp_state T (fst (snd (service_write T is_closed (self, k, log)))) = tcp_state T k" for self k log
    by (rule service_write_contract [OF L, of is_closed self k log]) auto
  show ?thesis by (cases x; cases "service_read T is_closed x") (metis r w fst_conv snd_conv service_io_def)
qed

lemma handle_cmd_state:
  assumes "tcp_laws T rxq txq"
  shows "tcp_state T (fst (snd x)) = TcpClosed \<or> (\<exists>r. cm = Close r) \<Longrightarrow>
    tcp_state T (fst (snd (handle_cmd T cm x))) = TcpClosed"
  by (cases x; cases cm) (auto simp: handle_cmd_def tcp_close_laws [OF assms] tcp_abort_laws [OF assms])

lemma set_rx_socket [simp]: "snd (apfst f x) = snd x"
  by (cases x) simp

text \<open>
  C28. Once a close command is in the channel, the service call that takes it leaves the socket
  closed and no request waiting, also those that follow the close: every pending read and
  write is answered or had been given up.
\<close>
theorem service_close_resolves:
  fixes T :: "'k tcp_ops" and self :: "('c, 'r) conn_state"
  assumes "mpsc_laws M queue cap" and "tcp_laws T rxq txq"
    and "service M T is_closed (self, k, log) = Some (self', k', log')"
    and "Close r \<in> set (queue (cmd_rx self))"
  shows "read self' = None \<and> write self' = None \<and> tcp_state T k' = TcpClosed"
proof -
  let ?P = "\<lambda>(cs :: 'r conn_cmd list) (y :: ('c, 'r, 'k) conn_io). blocked T y \<and> (tcp_state T (fst (snd y)) = TcpClosed \<or> (\<exists>r. Close r \<in> set cs))"
  have "?P [] (self', k', log')"
    by (rule service_induct [where P = ?P, OF assms(1,3)])
      (use assms(4) in \<open>auto simp: service_io_blocked [OF assms(2)] service_io_state [OF assms(2)]
        handle_cmd_state [OF assms(2)]\<close>, auto simp: blocked_def)
  then have b: "blocked T (self', k', log')" and st: "tcp_state T k' = TcpClosed" by auto
  from tcp_closed_laws [OF assms(2) st] b st show ?thesis
    by (auto simp: blocked_def can_recv_iff [OF assms(2)])
qed

text \<open>
  Half-closing the write side keeps a waiting read waiting, and at once refuses a waiting
  write.
\<close>
theorem half_close_keeps_read:
  assumes "tcp_laws T rxq txq" and "blocked T (self, k, log)" and "read self = Some rd" and "max_len rd \<noteq> 0"
    and "\<And>r. \<not> is_closed r (cmd_rx self)"
    and "service_io T is_closed (handle_cmd T (CloseWrite r) (self, k, log)) = (self', k', log')"
  shows "read self' = Some rd \<and> write self' = None \<and> rxq k' = rxq k \<and> may_recv T k' \<and> \<not> may_send T k'"
proof -
  note L = assms(1)
  let ?k = "tcp_close T k" and ?log = "log @ [UnitReply r (Inr ())]"
  have k: "\<not> can_recv T ?k" "may_recv T ?k" "\<not> may_send T ?k" "rxq ?k = rxq k"
    using assms(2,3) tcp_close_laws [OF L, of k] by (auto simp: blocked_def can_recv_iff [OF L])
  have "service_read T is_closed (self, ?k, ?log) = (self, ?k, ?log)"
    using assms(3-5) k by (simp add: service_read_idle)
  then have w: "service_write T is_closed (self, ?k, ?log) = (self', k', log')"
    using assms(6) by (simp add: service_io_def handle_cmd_def)
  from w assms(3,5) k can_send_may_send [OF L, of ?k] show ?thesis
    by (cases rule: service_write_contract [OF L, of is_closed self ?k ?log]) auto
qed

lemma fail_pending_ids:
  "fail_pending (self, log) = (self', log') \<Longrightarrow>
     replied_ids log' = replied_ids log + pending_ids self \<and> pending_ids self' = {#}"
  by (auto simp: fail_pending_def Let_def ids_defs split: option.splits)

section \<open>Witnesses\<close>

text \<open>A connection with four bytes received, room for four to send, and two reads and two writes queued.\<close>

definition demo_sock :: sim_socket where
  "demo_sock = \<lparr>sim_state = Established, sim_rx = [112, 105, 110, 103], sim_tx = [], sim_room = 4,
     sim_local = None, sim_remote = None\<rparr>"

definition demo_conn :: "nat conn_cmd list \<Rightarrow> (nat conn_cmd buf_chan, nat) conn_state" where
  "demo_conn cs = conn_state_new \<lparr>bc_queue = cs, bc_cap = 32, bc_closed = False\<rparr>"

definition demo_cmds :: "nat conn_cmd list" where
  "demo_cmds = [Read 8 0, Write [97, 98, 99, 100, 101, 102] 1, Read 8 2, Write [103] 3]"

definition nobody_gone :: "nat \<Rightarrow> nat conn_cmd buf_chan \<Rightarrow> bool" where
  "nobody_gone r c = False"

lemmas conn_eval = service_def service_loop.simps service_io_def service_read_def service_write_def
  handle_cmd_def Let_def sim_tcp_def buf_mpsc_def sim_may_recv_def sim_may_send_def demo_sock_def
  demo_conn_def demo_cmds_def conn_state_new_def nobody_gone_def

definition demo_left :: "(nat conn_cmd buf_chan, nat) conn_state" where
  "demo_left = \<lparr>cmd_rx = \<lparr>bc_queue = [], bc_cap = 32, bc_closed = False\<rparr>,
     read = Some \<lparr>max_len = 8, rd_reply = 2\<rparr>, write = Some \<lparr>data = [103], wr_reply = 3\<rparr>\<rparr>"

definition demo_sock_left :: sim_socket where
  "demo_sock_left = demo_sock\<lparr>sim_rx := [], sim_tx := [97, 98, 99, 100], sim_room := 0\<rparr>"

definition demo_log :: "nat reply list" where
  "demo_log = [ReadReply 0 (Inr [112, 105, 110, 103]), WriteReply 1 (Inr 4)]"

lemma demo_service_run:
  "service buf_mpsc sim_tcp nobody_gone (demo_conn demo_cmds, demo_sock, []) =
     Some (demo_left, demo_sock_left, demo_log)"
  by (simp add: conn_eval demo_left_def demo_sock_left_def demo_log_def)

lemma demo_close_run:
  "service buf_mpsc sim_tcp nobody_gone (demo_left\<lparr>cmd_rx := \<lparr>bc_queue = [Close 4, Read 8 5], bc_cap = 32,
       bc_closed = False\<rparr>\<rparr>, demo_sock_left, []) =
     Some (demo_conn [], demo_sock_left\<lparr>sim_state := TcpClosed\<rparr>,
       [UnitReply 4 (Inr ()), ReadReply 2 (Inl Closed), WriteReply 3 (Inl Closed), ReadReply 5 (Inl Closed)])"
  by (simp add: conn_eval demo_left_def demo_sock_left_def)

theorem service_terminates_witness:
  "\<exists>x'. service buf_mpsc sim_tcp nobody_gone (demo_conn demo_cmds, demo_sock, []) = Some x' \<and>
     bc_queue (cmd_rx (fst x')) = []"
  by (rule service_terminates [OF buf_mpsc_laws])

theorem service_replies_once_witness:
  "replied_ids demo_log + pending_ids demo_left = queued_ids demo_cmds \<and>
   replied_ids demo_log = {#0, 1#} \<and> pending_ids demo_left = {#2, 3#}"
  using service_replies_once [OF buf_mpsc_laws demo_service_run]
  by (simp add: demo_conn_def conn_state_new_def nobody_gone_def ids_defs demo_log_def demo_left_def)

theorem service_delivers_in_order_witness:
  "delivered demo_log @ sim_rx demo_sock_left = [112, 105, 110, 103]"
  using service_delivers_in_order [OF buf_mpsc_laws sim_tcp_laws demo_service_run]
  by (simp add: demo_sock_def)

theorem service_leaves_blocked_witness:
  "read demo_left \<noteq> None \<and> \<not> can_recv sim_tcp demo_sock_left \<and> may_recv sim_tcp demo_sock_left \<and>
   write demo_left \<noteq> None \<and> \<not> can_send sim_tcp demo_sock_left \<and> may_send sim_tcp demo_sock_left"
  using service_leaves_blocked [OF buf_mpsc_laws sim_tcp_laws demo_service_run]
  by (simp add: demo_left_def)

theorem service_replies_answer_witness:
  "(\<exists>cm \<in> set demo_cmds. answers cm (ReadReply 0 (Inr [112, 105, 110, 103]))) \<and>
   (\<exists>cm \<in> set demo_cmds. answers cm (WriteReply 1 (Inr 4)))"
proof -
  have "\<forall>rep \<in> set demo_log. \<exists>cm \<in> set demo_cmds. answers cm rep"
    using service_replies_answer [OF buf_mpsc_laws sim_tcp_laws demo_service_run]
    by (simp add: demo_conn_def conn_state_new_def pending_cmds_def)
  then show ?thesis by (simp add: demo_log_def)
qed

theorem service_write_enqueues_witness:
  "\<exists>n \<le> 6. WriteReply 1 (Inr 4) = WriteReply (1 :: nat) (Inr n :: vconn_error + nat) \<and>
     [97, 98, 99, 100 :: byte] = take n [97, 98, 99, 100, 101, 102]"
  using service_write_enqueues [OF sim_tcp_laws, of
      "(demo_conn [])\<lparr>write := Some \<lparr>data = [97, 98, 99, 100, 101, 102], wr_reply = 1\<rparr>\<rparr>"
      "\<lparr>data = [97, 98, 99, 100, 101, 102], wr_reply = 1\<rparr>" nobody_gone demo_sock "[]" "demo_conn []"
      "demo_sock\<lparr>sim_tx := [97, 98, 99, 100], sim_room := 0\<rparr>" "[WriteReply 1 (Inr 4)]"]
  by (simp add: conn_eval)

theorem service_read_eof_witness:
  "\<not> may_recv sim_tcp (demo_sock\<lparr>sim_state := CloseWait, sim_rx := []\<rparr>) \<and>
   recv_slice sim_tcp [] (demo_sock\<lparr>sim_state := CloseWait, sim_rx := []\<rparr>) =
     (Inl Finished, [], demo_sock\<lparr>sim_state := CloseWait, sim_rx := []\<rparr>)"
  using service_read_eof [OF sim_tcp_laws, of "(demo_conn [])\<lparr>read := Some \<lparr>max_len = 8, rd_reply = 0\<rparr>\<rparr>"
      "\<lparr>max_len = 8, rd_reply = 0\<rparr>" nobody_gone "demo_sock\<lparr>sim_state := CloseWait, sim_rx := []\<rparr>" "[]"
      "demo_conn []" "demo_sock\<lparr>sim_state := CloseWait, sim_rx := []\<rparr>"]
  by (simp add: conn_eval)

theorem service_close_resolves_witness:
  "read (demo_conn []) = None \<and> write (demo_conn []) = None \<and>
   tcp_state sim_tcp (demo_sock_left\<lparr>sim_state := TcpClosed\<rparr>) = TcpClosed"
  using service_close_resolves [OF buf_mpsc_laws sim_tcp_laws demo_close_run, of 4] by simp

theorem half_close_keeps_read_witness:
  "\<exists>self' k' log'. service_io sim_tcp nobody_gone
       (handle_cmd sim_tcp (CloseWrite 4) (demo_left, demo_sock_left, [])) = (self', k', log') \<and>
     read self' = read demo_left \<and> write self' = None \<and> may_recv sim_tcp k' \<and> \<not> may_send sim_tcp k'"
proof -
  obtain self' k' log' where run: "service_io sim_tcp nobody_gone
       (handle_cmd sim_tcp (CloseWrite 4) (demo_left, demo_sock_left, [])) = (self', k', log')"
    by (cases "service_io sim_tcp nobody_gone (handle_cmd sim_tcp (CloseWrite 4) (demo_left, demo_sock_left, []))")
  have "blocked sim_tcp (demo_left, demo_sock_left, [])"
    by (simp add: blocked_def conn_eval demo_left_def demo_sock_left_def)
  from half_close_keeps_read [OF sim_tcp_laws this _ _ _ run, of "\<lparr>max_len = 8, rd_reply = 2\<rparr>"] run
  show ?thesis by (simp add: demo_left_def nobody_gone_def)
qed

end
