(* ===== verification/Conn_Turn.thy ===== *)
theory Conn_Turn
  imports Conn_State
begin

text \<open>
  One whole \<open>service\<close> call of a connection as a transaction, for callers that are still
  there: which of the open requests it answers, with what, and what it hands to the socket.
  The tasks that share a connection are verified against this, without looking into the
  command loop again.
\<close>

section \<open>Open requests and exchanges\<close>

text \<open>The requests a connection owes an answer to: the pending ones and those in its channel.\<close>

definition waiting_cmds :: "('c, 'r) conn_state \<Rightarrow> 'r conn_cmd multiset" where
  "waiting_cmds self =
     (case read self of None \<Rightarrow> {#} | Some rd \<Rightarrow> {#Read (max_len rd) (rd_reply rd)#}) +
     (case write self of None \<Rightarrow> {#} | Some wr \<Rightarrow> {#Write (data wr) (wr_reply wr)#})"

definition open_cmds :: "('c \<Rightarrow> 'r conn_cmd list) \<Rightarrow> ('c, 'r) conn_state \<Rightarrow> 'r conn_cmd multiset" where
  "open_cmds queue self = waiting_cmds self + mset (queue (cmd_rx self))"

text \<open>The effect of a reply on the transmit buffer: what a write reports as taken is appended.\<close>

fun taken :: "'r conn_cmd \<Rightarrow> 'r reply \<Rightarrow> bytes" where
  "taken (Write d r) (WriteReply r' (Inr n)) = take n d"
| "taken _ _ = []"

text \<open>The value a log holds for a reply channel of each kind.\<close>

fun find_read :: "'r \<Rightarrow> 'r reply list \<Rightarrow> (vconn_error + bytes) option" where
  "find_read r [] = None"
| "find_read r (ReadReply r' v # log) = (if r' = r then Some v else find_read r log)"
| "find_read r (_ # log) = find_read r log"

fun find_write :: "'r \<Rightarrow> 'r reply list \<Rightarrow> (vconn_error + nat) option" where
  "find_write r [] = None"
| "find_write r (WriteReply r' v # log) = (if r' = r then Some v else find_write r log)"
| "find_write r (_ # log) = find_write r log"

fun find_unit :: "'r \<Rightarrow> 'r reply list \<Rightarrow> (vconn_error + unit) option" where
  "find_unit r [] = None"
| "find_unit r (UnitReply r' v # log) = (if r' = r then Some v else find_unit r log)"
| "find_unit r (_ # log) = find_unit r log"

text \<open>A command with its reply; what a sequence of them hands to the socket.\<close>

type_synonym 'r exchange = "'r conn_cmd \<times> 'r reply"

definition all_taken :: "'r exchange list \<Rightarrow> bytes" where
  "all_taken ex = concat (map (\<lambda>(c, rep). taken c rep) ex)"

fun is_read :: "'r conn_cmd \<Rightarrow> bool" where
  "is_read (Read n r) = True"
| "is_read _ = False"

fun is_write :: "'r conn_cmd \<Rightarrow> bool" where
  "is_write (Write d r) = True"
| "is_write _ = False"

text \<open>At most one read and one write: what a relay may have outstanding.\<close>

definition lone :: "'r conn_cmd multiset \<Rightarrow> bool" where
  "lone cms \<longleftrightarrow> size (filter_mset is_read cms) \<le> 1 \<and> size (filter_mset is_write cms) \<le> 1"

fun would_block :: "'r reply \<Rightarrow> bool" where
  "would_block (ReadReply r (Inl (Io WouldBlock m))) = True"
| "would_block (WriteReply r (Inl (Io WouldBlock m))) = True"
| "would_block _ = False"

text \<open>
  Part of a service call: \<open>cms\<close> were open and \<open>log0\<close> and \<open>tx0\<close> the replies
  and the bytes handed over when it began; \<open>cs\<close> are in the channel still.
\<close>

definition in_turn ::
  "('k \<Rightarrow> bytes) \<Rightarrow> 'r conn_cmd multiset \<Rightarrow> 'r reply list \<Rightarrow> bytes \<Rightarrow> 'r conn_cmd list \<Rightarrow> ('c, 'r, 'k) conn_io \<Rightarrow> bool" where
  "in_turn txq cms log0 tx0 cs x = (case x of (self, k, log) \<Rightarrow>
     \<exists>ex. log = log0 @ map snd ex \<and> (\<forall>(c, rep) \<in> set ex. answers c rep \<and> \<not> (lone cms \<and> would_block rep)) \<and>
       waiting_cmds self + mset cs + mset (map fst ex) = cms \<and> txq k = tx0 @ all_taken ex)"

lemma all_taken_simps [simp]:
  "all_taken [] = []" "all_taken ((c, rep) # ex) = taken c rep @ all_taken ex"
  "all_taken (ex @ ex') = all_taken ex @ all_taken ex'"
  by (simp_all add: all_taken_def)

lemma waiting_cmds_simps [simp]:
  "waiting_cmds (self\<lparr>cmd_rx := c\<rparr>) = waiting_cmds self"
  "read self = None \<Longrightarrow> waiting_cmds (self\<lparr>read := Some rd\<rparr>) =
     add_mset (Read (max_len rd) (rd_reply rd)) (waiting_cmds self)"
  "write self = None \<Longrightarrow> waiting_cmds (self\<lparr>write := Some wr\<rparr>) =
     add_mset (Write (data wr) (wr_reply wr)) (waiting_cmds self)"
  "waiting_cmds (conn_state_new rx) = {#}"
  by (simp_all add: waiting_cmds_def conn_state_new_def)

lemma waiting_cmds_done:
  "read self = Some rd \<Longrightarrow> waiting_cmds self = add_mset (Read (max_len rd) (rd_reply rd)) (waiting_cmds (self\<lparr>read := None\<rparr>))"
  "write self = Some wr \<Longrightarrow> waiting_cmds self = add_mset (Write (data wr) (wr_reply wr)) (waiting_cmds (self\<lparr>write := None\<rparr>))"
  by (simp_all add: waiting_cmds_def)

lemma in_turn_frame:
  "in_turn txq cms log0 tx0 cs (self, k, log) \<Longrightarrow> waiting_cmds self' + mset cs' = waiting_cmds self + mset cs \<Longrightarrow>
   txq k' = txq k \<Longrightarrow> in_turn txq cms log0 tx0 cs' (self', k', log)"
  by (auto simp: in_turn_def)

lemma in_turn_reply:
  assumes "in_turn txq cms log0 tx0 cs (self, k, log)"
    and "waiting_cmds self + mset cs = add_mset c (waiting_cmds self' + mset cs')"
    and "answers c rep" and "txq k' = txq k @ taken c rep" and "lone cms \<Longrightarrow> \<not> would_block rep"
  shows "in_turn txq cms log0 tx0 cs' (self', k', log @ [rep])"
proof -
  from assms(1) obtain ex where ex: "log = log0 @ map snd ex"
    "\<forall>(c, rep) \<in> set ex. answers c rep \<and> \<not> (lone cms \<and> would_block rep)"
    "waiting_cmds self + mset cs + mset (map fst ex) = cms" "txq k = tx0 @ all_taken ex"
    by (auto simp: in_turn_def)
  have "waiting_cmds self' + mset cs' + mset (map fst (ex @ [(c, rep)])) = cms"
    using ex(3) assms(2) by simp
  with ex(1,2,4) assms(3-5) show ?thesis
    unfolding in_turn_def by (auto intro!: exI [of _ "ex @ [(c, rep)]"])
qed

lemma answers_id: "answers c rep \<Longrightarrow> reply_id rep = cmd_id c"
  by (cases c; cases rep) auto

section \<open>Every operation of a turn\<close>

lemma service_io_turn:
  assumes L: "tcp_laws T rxq txq" and t: "in_turn txq cms log0 tx0 cs x"
  shows "in_turn txq cms log0 tx0 cs (service_io T (\<lambda>_ _. False) x)"
proof -
  have r: "in_turn txq cms log0 tx0 cs (service_read T (\<lambda>_ _. False) (self, k, log))"
    if a: "in_turn txq cms log0 tx0 cs (self, k, log)" for self k log
    using L
  proof (cases rule: service_read_contract [where is_closed = "\<lambda>_ _. False" and self = self and k = k and log = log])
    case (replied rd v k')
    then have "\<not> would_block (ReadReply (rd_reply rd) v)" by auto
    with replied show ?thesis
      by (auto intro!: in_turn_reply [OF a, of "Read (max_len rd) (rd_reply rd)"] simp: waiting_cmds_done)
  qed (use a in simp_all)
  have w: "in_turn txq cms log0 tx0 cs (service_write T (\<lambda>_ _. False) (self, k, log))"
    if a: "in_turn txq cms log0 tx0 cs (self, k, log)" for self k log
    using L
  proof (cases rule: service_write_contract [where is_closed = "\<lambda>_ _. False" and self = self and k = k and log = log])
    case (replied wr v k')
    then have "\<not> would_block (WriteReply (wr_reply wr) v)" by auto
    with replied show ?thesis
      by (auto intro!: in_turn_reply [OF a, of "Write (data wr) (wr_reply wr)"] simp: waiting_cmds_done)
  qed (use a in simp_all)
  from t show ?thesis by (metis r w prod_cases3 service_io_def)
qed

lemma lone_conflict:
  "lone cms \<Longrightarrow> read self \<noteq> None \<Longrightarrow> waiting_cmds self + mset (Read n r # cs) + b \<noteq> cms"
  "lone cms \<Longrightarrow> write self \<noteq> None \<Longrightarrow> waiting_cmds self + mset (Write d r # cs) + b \<noteq> cms"
  by (auto simp: lone_def waiting_cmds_def)

lemma handle_cmd_turn:
  assumes L: "tcp_laws T rxq txq" and t: "in_turn txq cms log0 tx0 (cm # cs) x"
  shows "in_turn txq cms log0 tx0 cs (handle_cmd T cm x)"
proof -
  obtain self k log where x: "x = (self, k, log)" by (cases x)
  note t = t [unfolded x]
  have busy: "\<not> lone cms" if "is_read cm \<and> read self \<noteq> None \<or> is_write cm \<and> write self \<noteq> None"
    using t that lone_conflict [of cms self] by (cases cm) (fastforce simp: in_turn_def)+
  show ?thesis
  proof (cases cm)
    case (Read n r)
    with t busy show ?thesis unfolding x
      by (auto simp: handle_cmd_def intro!: in_turn_reply [OF t, of "Read n r"] in_turn_frame [OF t])
  next
    case (Write d r)
    with t busy show ?thesis unfolding x
      by (auto simp: handle_cmd_def intro!: in_turn_reply [OF t, of "Write d r"] in_turn_frame [OF t])
  next
    case (CloseWrite r)
    then show ?thesis unfolding x
      by (auto simp: handle_cmd_def tcp_close_laws [OF L] intro!: in_turn_reply [OF t, of "CloseWrite r"])
  next
    case (Close r)
    then show ?thesis unfolding x
      by (auto simp: handle_cmd_def tcp_abort_laws [OF L] intro!: in_turn_reply [OF t, of "Close r"])
  qed
qed

section \<open>The whole turn\<close>

lemma set_rx_turn [simp]:
  "in_turn txq cms log0 tx0 cs (apfst (cmd_rx_update f) x) = in_turn txq cms log0 tx0 cs x"
  by (cases x) (simp add: in_turn_def waiting_cmds_def)

lemma service_turn:
  assumes M: "mpsc_laws M queue cap" and L: "tcp_laws T rxq txq"
    and run: "service M T (\<lambda>_ _. False) (self, k, log) = Some (self', k', log')"
  obtains ex where "log' = log @ map snd ex"
    and "\<And>c rep. (c, rep) \<in> set ex \<Longrightarrow> answers c rep \<and> \<not> (lone (open_cmds queue self) \<and> would_block rep)"
    and "open_cmds queue self = open_cmds queue self' + mset (map fst ex)"
    and "txq k' = txq k @ all_taken ex" and "queue (cmd_rx self') = []"
    and "delivered log' @ rxq k' = delivered log @ rxq k" and "blocked T (self', k', log')"
proof -
  let ?cms = "open_cmds queue self"
  have "in_turn txq ?cms log (txq k) [] (self', k', log')"
  proof (rule service_induct [where P = "in_turn txq ?cms log (txq k)", OF M run])
    have "in_turn txq ?cms log (txq k) (queue (cmd_rx self)) (self, k, log)"
      by (simp add: in_turn_def open_cmds_def)
    then show "in_turn txq ?cms log (txq k) (queue (cmd_rx (fst (self, k, log)))) (service_io T (\<lambda>_ _. False) (self, k, log))"
      by (simp add: service_io_turn [OF L])
  qed (simp_all add: service_io_turn [OF L] handle_cmd_turn [OF L])
  then obtain ex where ex: "log' = log @ map snd ex"
    "\<forall>(c, rep) \<in> set ex. answers c rep \<and> \<not> (lone ?cms \<and> would_block rep)"
    "waiting_cmds self' + mset (map fst ex) = ?cms" "txq k' = txq k @ all_taken ex"
    by (auto simp: in_turn_def)
  have q: "queue (cmd_rx self') = []"
    using service_returns [OF M, of T "\<lambda>_ _. False" "(self, k, log)"] run by auto
  show thesis
    by (rule that [of ex]) (use ex q service_stream [OF M L run] service_blocked [OF M L run] in
        \<open>auto simp: open_cmds_def stream_of_def\<close>)
qed

end
