(* ===== verification/Relay_Link.thy ===== *)
theory Relay_Link
  imports Relay Conn_Turn
begin

text \<open>
  What a relay's tasks and the actor share of one connection, at the granularity of tokio's
  awaits: a call on the virtual connection (\<open>src/netstack/vconn.rs\<close>) is the send of its
  command, any number of turns of the actor, and the receipt of its reply, so that a read and a
  write can be under way at once. The connection's end of the protocol is verified here against
  the multiset of commands its callers await.
\<close>

section \<open>Operations\<close>

text \<open>
  \<open>lk_conn\<close> is the actor's \<open>ConnState\<close>, or nothing once the actor has dropped it;
  then the command channel is closed and no reply half is left. Reply channels are numbered.
\<close>

record ('c, 'k) link =
  lk_conn :: "('c, nat) conn_state option"
  lk_sock :: 'k
  lk_replies :: "nat reply list"
  lk_next :: nat

text \<open>
  The first await of a call: make the reply channel and send the command. \<open>None\<close> is a send
  that waits for room in the channel.
\<close>

definition begin_call ::
  "('c, nat conn_cmd) mpsc_ops \<Rightarrow> (nat \<Rightarrow> nat conn_cmd) \<Rightarrow> ('c, 'k) link \<Rightarrow>
   ((vconn_error + nat) \<times> ('c, 'k) link) option" where
  "begin_call M mk lk =
     (case lk_conn lk of
        None \<Rightarrow> Some (Inl ActorGone, lk)
      | Some conn \<Rightarrow>
          (case try_send M (mk (lk_next lk)) (cmd_rx conn) of
             (True, c) \<Rightarrow> Some (Inr (lk_next lk),
               lk\<lparr>lk_conn := Some (conn\<lparr>cmd_rx := c\<rparr>), lk_next := Suc (lk_next lk)\<rparr>)
           | (False, _) \<Rightarrow> None))"

text \<open>
  The second await: the reply, or \<open>ActorGone\<close> when its sender was dropped. \<open>None\<close> is a
  reply that is still owed.
\<close>

definition poll_call :: "(nat reply list \<Rightarrow> (vconn_error + 'v) option) \<Rightarrow> ('c, 'k) link \<Rightarrow> (vconn_error + 'v) option" where
  "poll_call pick lk =
     (case pick (lk_replies lk) of
        Some v \<Rightarrow> Some v
      | None \<Rightarrow> if lk_conn lk = None then Some (Inl ActorGone) else None)"

text \<open>The actor's turn for this connection, and its last one, when every caller is gone.\<close>

definition link_turn :: "('c, nat conn_cmd) mpsc_ops \<Rightarrow> 'k tcp_ops \<Rightarrow> ('c, 'k) link \<Rightarrow> ('c, 'k) link option" where
  "link_turn M T lk =
     (case lk_conn lk of
        None \<Rightarrow> None
      | Some conn \<Rightarrow> map_option (\<lambda>(conn, k, log). lk\<lparr>lk_conn := Some conn, lk_sock := k, lk_replies := log\<rparr>)
          (service M T (\<lambda>_ _. False) (conn, lk_sock lk, lk_replies lk)))"

definition link_reap :: "('c, nat conn_cmd) mpsc_ops \<Rightarrow> 'k tcp_ops \<Rightarrow> ('c, 'k) link \<Rightarrow> ('c, 'k) link option" where
  "link_reap M T lk =
     (case lk_conn lk of
        None \<Rightarrow> None
      | Some conn \<Rightarrow> map_option (\<lambda>(conn, k, log). case fail_pending (conn, log) of (_, log) \<Rightarrow>
            lk\<lparr>lk_conn := None, lk_sock := tcp_abort T k, lk_replies := log\<rparr>)
          (service M T (\<lambda>_ _. False) (conn, lk_sock lk, lk_replies lk)))"

section \<open>The protocol invariant\<close>

definition replied :: "('c, 'k) link \<Rightarrow> nat set" where
  "replied lk = reply_id ` set (lk_replies lk)"

text \<open>
  \<open>aw\<close> are the commands awaited by callers. Numbers are used once; the actor owes exactly
  the awaited commands it has not answered, and what it has answered is a proper answer.
\<close>

definition link_inv :: "('c \<Rightarrow> nat conn_cmd list) \<Rightarrow> nat conn_cmd multiset \<Rightarrow> ('c, 'k) link \<Rightarrow> bool" where
  "link_inv queue aw lk \<longleftrightarrow>
     distinct (map reply_id (lk_replies lk)) \<and> (\<forall>n \<in> replied lk. n < lk_next lk) \<and>
     (\<forall>n. count (image_mset cmd_id aw) n \<le> 1) \<and> (\<forall>c \<in># aw. cmd_id c < lk_next lk) \<and> lone aw \<and>
     (\<forall>c \<in># aw. \<forall>rep \<in> set (lk_replies lk). reply_id rep = cmd_id c \<longrightarrow> answers c rep \<and> \<not> would_block rep) \<and>
     (\<forall>conn. lk_conn lk = Some conn \<longrightarrow> open_cmds queue conn = {#c \<in># aw. cmd_id c \<notin> replied lk#})"

text \<open>
  What has been replied to a read, and taken from a write, of which the caller has not been
  told yet.
\<close>

definition unread :: "nat option \<Rightarrow> ('c, 'k) link \<Rightarrow> bytes" where
  "unread a lk = (case a of None \<Rightarrow> [] | Some n \<Rightarrow>
     (case find_read n (lk_replies lk) of Some (Inr d) \<Rightarrow> d | _ \<Rightarrow> []))"

definition untold :: "(bytes \<times> nat) option \<Rightarrow> ('c, 'k) link \<Rightarrow> bytes" where
  "untold a lk = (case a of None \<Rightarrow> [] | Some (d, n) \<Rightarrow>
     (case find_write n (lk_replies lk) of Some (Inr m) \<Rightarrow> take m d | _ \<Rightarrow> []))"

definition reads_as :: "nat conn_cmd multiset \<Rightarrow> nat option \<Rightarrow> bool" where
  "reads_as aw a \<longleftrightarrow> filter_mset is_read aw = (case a of None \<Rightarrow> {#} | Some n \<Rightarrow> {#Read RELAY_BUF n#})"

definition writes_as :: "nat conn_cmd multiset \<Rightarrow> (bytes \<times> nat) option \<Rightarrow> bool" where
  "writes_as aw a \<longleftrightarrow> filter_mset is_write aw = (case a of None \<Rightarrow> {#} | Some (d, n) \<Rightarrow> {#Write d n#})"

section \<open>Looking up replies\<close>

lemma find_append:
  "find_read n (xs @ ys) = (case find_read n xs of None \<Rightarrow> find_read n ys | Some v \<Rightarrow> Some v) \<and>
   find_write n (xs @ ys) = (case find_write n xs of None \<Rightarrow> find_write n ys | Some w \<Rightarrow> Some w)"
proof (induction xs)
  case (Cons rep xs)
  then show ?case by (cases rep) simp_all
qed simp

lemma find_mem:
  "find_read n log = Some v \<Longrightarrow> ReadReply n v \<in> set log"
  "find_write n log = Some w \<Longrightarrow> WriteReply n w \<in> set log"
  "find_unit n log = Some u \<Longrightarrow> UnitReply n u \<in> set log"
proof -
  have "(find_read n log = Some v \<longrightarrow> ReadReply n v \<in> set log) \<and> (find_write n log = Some w \<longrightarrow> WriteReply n w \<in> set log) \<and>
      (find_unit n log = Some u \<longrightarrow> UnitReply n u \<in> set log)"
  proof (induction log)
    case (Cons rep log)
    then show ?case by (cases rep) simp_all
  qed simp
  then show "find_read n log = Some v \<Longrightarrow> ReadReply n v \<in> set log"
    "find_write n log = Some w \<Longrightarrow> WriteReply n w \<in> set log"
    "find_unit n log = Some u \<Longrightarrow> UnitReply n u \<in> set log" by simp_all
qed

lemma find_None:
  "(find_read n log = None \<longleftrightarrow> (\<forall>v. ReadReply n v \<notin> set log)) \<and>
   (find_write n log = None \<longleftrightarrow> (\<forall>w. WriteReply n w \<notin> set log)) \<and>
   (find_unit n log = None \<longleftrightarrow> (\<forall>u. UnitReply n u \<notin> set log))"
proof (induction log)
  case (Cons rep log)
  then show ?case by (cases rep) auto
qed simp

text \<open>
  A reply tells which kind of command it answers, and to which one. A turn that answers at
  most one read delivers what that read is told, and one that answers at most one write takes
  what that write is told.
\<close>

lemma answers_read: "answers c rep \<Longrightarrow> is_read c \<longleftrightarrow> (\<exists>r v. rep = ReadReply r v)"
  and answers_write: "answers c rep \<Longrightarrow> is_write c \<longleftrightarrow> (\<exists>r w. rep = WriteReply r w)"
  by (cases c; cases rep; simp)+

lemma delivered_none: "\<forall>rep \<in> set log. \<nexists>r v. rep = ReadReply r v \<Longrightarrow> delivered log = [] \<and> find_read n log = None"
proof (induction log)
  case (Cons rep log)
  then show ?case by (cases rep) auto
qed simp

lemma taken_none: "\<forall>(c, rep) \<in> set ex. \<not> is_write c \<Longrightarrow> all_taken ex = []"
proof (induction ex)
  case (Cons x ex)
  obtain c rep where x: "x = (c, rep)" by fastforce
  with Cons show ?case by (cases c) auto
qed simp

lemma delivered_lone:
  assumes "\<forall>(c, rep) \<in> set ex. answers c rep" and "filter_mset is_read (mset (map fst ex)) \<subseteq># {#Read m n#}"
  shows "delivered (map snd ex) = (case find_read n (map snd ex) of Some (Inr d) \<Rightarrow> d | _ \<Rightarrow> [])"
  using assms
proof (induction ex)
  case (Cons x ex)
  obtain c rep where x: "x = (c, rep)" by fastforce
  have ans: "answers c rep" "\<forall>(c, rep) \<in> set ex. answers c rep" using Cons.prems(1) x by auto
  have sub: "filter_mset is_read (mset (map fst ex)) \<subseteq># {#Read m n#}"
    by (rule subset_mset.order_trans [OF _ Cons.prems(2)]) simp
  show ?case
  proof (cases "is_read c")
    case False
    with Cons.IH [OF ans(2) sub] x answers_read [OF ans(1)] show ?thesis by (cases rep) simp_all
  next
    case True
    then have c: "c = Read m n" and "filter_mset is_read (mset (map fst ex)) = {#}"
      using Cons.prems(2) x by (auto simp: subset_mset.le_zero_eq)
    then have "\<forall>rep \<in> set (map snd ex). \<nexists>r v. rep = ReadReply r v"
      using ans(2) answers_read by fastforce
    from delivered_none [OF this, of n] ans(1) c x show ?thesis by (cases rep) (auto split: sum.splits)
  qed
qed simp

lemma taken_lone:
  assumes "\<forall>(c, rep) \<in> set ex. answers c rep" and "filter_mset is_write (mset (map fst ex)) \<subseteq># {#Write d n#}"
  shows "all_taken ex = (case find_write n (map snd ex) of Some (Inr m) \<Rightarrow> take m d | _ \<Rightarrow> [])"
  using assms
proof (induction ex)
  case (Cons x ex)
  obtain c rep where x: "x = (c, rep)" by fastforce
  have ans: "answers c rep" "\<forall>(c, rep) \<in> set ex. answers c rep" using Cons.prems(1) x by auto
  have sub: "filter_mset is_write (mset (map fst ex)) \<subseteq># {#Write d n#}"
    by (rule subset_mset.order_trans [OF _ Cons.prems(2)]) simp
  show ?case
  proof (cases "is_write c")
    case False
    with Cons.IH [OF ans(2) sub] x answers_write [OF ans(1)] show ?thesis by (cases rep; cases c) simp_all
  next
    case True
    then have c: "c = Write d n" and none: "filter_mset is_write (mset (map fst ex)) = {#}"
      using Cons.prems(2) x by (auto simp: subset_mset.le_zero_eq)
    from none have "\<forall>(c, rep) \<in> set ex. \<not> is_write c" by fastforce
    from taken_none [OF this] ans(1) c x show ?thesis by (cases rep) (auto split: sum.splits)
  qed
qed simp

section \<open>Calls and turns keep the protocol\<close>

lemma lone_subset:
  assumes "lone aw" and "cms \<subseteq># aw"
  shows "lone cms"
proof -
  have "size (filter_mset P cms) \<le> size (filter_mset P aw)" for P
    by (intro size_mset_mono multiset_filter_mono assms(2))
  from this [of is_read] this [of is_write] assms(1) show ?thesis unfolding lone_def by linarith
qed

lemma begin_call_sent:
  assumes M: "mpsc_laws M queue cap" and inv: "link_inv queue aw lk"
    and run: "begin_call M mk lk = Some (Inr n, lk')" and id: "cmd_id (mk n) = n" and one: "lone (add_mset (mk n) aw)"
  shows "link_inv queue (add_mset (mk n) aw) lk'" and "lk_replies lk' = lk_replies lk" and "lk_sock lk' = lk_sock lk"
    and "n \<notin> replied lk"
proof -
  obtain conn where conn: "lk_conn lk = Some conn"
    using run by (cases "lk_conn lk") (simp_all add: begin_call_def)
  obtain ok ch where send: "try_send M (mk (lk_next lk)) (cmd_rx conn) = (ok, ch)" by fastforce
  with run conn have ok: "ok" and n: "n = lk_next lk"
    and lk': "lk' = lk\<lparr>lk_conn := Some (conn\<lparr>cmd_rx := ch\<rparr>), lk_next := Suc (lk_next lk)\<rparr>"
    by (auto simp: begin_call_def split: bool.splits)
  have c: "try_send M (mk n) (cmd_rx conn) = (True, ch)" using send ok n by simp
  have fresh: "n \<notin> replied lk" "count (image_mset cmd_id aw) n = 0"
    using inv n by (auto simp: link_inv_def count_eq_zero_iff)
  have rep: "replied lk' = replied lk" by (simp add: lk' replied_def)
  have "open_cmds queue (conn\<lparr>cmd_rx := ch\<rparr>) = add_mset (mk n) (open_cmds queue conn)"
    using try_send_True [OF M c] by (simp add: open_cmds_def)
  then have "open_cmds queue (conn\<lparr>cmd_rx := ch\<rparr>) = {#c \<in># add_mset (mk n) aw. cmd_id c \<notin> replied lk'#}"
    using inv conn fresh(1) id rep by (simp add: link_inv_def)
  moreover have "cmd_id cm < Suc (lk_next lk)" if "cm \<in># aw" for cm using inv n that by (auto simp: link_inv_def less_Suc_eq)
  moreover have "m < Suc (lk_next lk)" if "m \<in> replied lk" for m using inv n that by (auto simp: link_inv_def less_Suc_eq)
  moreover have "reply_id rep \<noteq> n" if "rep \<in> set (lk_replies lk)" for rep using fresh(1) that by (auto simp: replied_def)
  ultimately show "link_inv queue (add_mset (mk n) aw) lk'"
    using inv one id fresh(2) rep n unfolding link_inv_def by (simp add: lk')
  show "lk_replies lk' = lk_replies lk" "lk_sock lk' = lk_sock lk" by (simp_all add: lk')
  show "n \<notin> replied lk" by (rule fresh(1))
qed

lemma begin_call_refused:
  "begin_call M mk lk = Some (Inl e, lk') \<Longrightarrow> e = ActorGone \<and> lk' = lk \<and> lk_conn lk = None"
  by (auto simp: begin_call_def split: option.splits prod.splits bool.splits)

text \<open>A caller that has its answer, or the news that there will be none, awaits it no longer.\<close>

lemma link_inv_done:
  assumes inv: "link_inv queue (add_mset c aw) lk" and "cmd_id c \<in> replied lk \<or> lk_conn lk = None"
  shows "link_inv queue aw lk"
proof -
  have "count (image_mset cmd_id aw) n \<le> count (image_mset cmd_id (add_mset c aw)) n" for n by simp
  then have "count (image_mset cmd_id aw) n \<le> 1" for n
    using inv unfolding link_inv_def by (meson order_trans)
  moreover have "lone aw" using inv lone_subset [of "add_mset c aw" aw] by (simp add: link_inv_def)
  ultimately show ?thesis using assms by (auto simp: link_inv_def)
qed

text \<open>Any of the three kinds of reply: \<open>pick\<close> finds it, \<open>mk\<close> is its constructor.\<close>

lemma poll_answer:
  assumes inv: "link_inv queue (add_mset c aw) lk" and run: "poll_call pick lk = Some res"
    and mem: "\<And>v. pick (lk_replies lk) = Some v \<Longrightarrow> mk v \<in> set (lk_replies lk)"
    and id: "\<And>v. reply_id (mk v) = cmd_id c"
  shows "link_inv queue aw lk"
    and "pick (lk_replies lk) = Some res \<and> answers c (mk res) \<and> \<not> would_block (mk res) \<or>
      pick (lk_replies lk) = None \<and> res = Inl ActorGone"
proof -
  have "cmd_id c \<in> replied lk" if "pick (lk_replies lk) = Some v" for v
    using mem [OF that] id [of v] by (force simp: replied_def)
  then have "cmd_id c \<in> replied lk \<or> lk_conn lk = None"
    using run by (auto simp: poll_call_def split: option.splits if_splits)
  then show "link_inv queue aw lk" by (rule link_inv_done [OF inv])
  show "pick (lk_replies lk) = Some res \<and> answers c (mk res) \<and> \<not> would_block (mk res) \<or>
      pick (lk_replies lk) = None \<and> res = Inl ActorGone"
  proof (cases "pick (lk_replies lk)")
    case None
    with run show ?thesis by (simp add: poll_call_def split: if_splits)
  next
    case (Some v)
    with run have "v = res" by (simp add: poll_call_def)
    with inv Some mem id show ?thesis by (simp add: link_inv_def)
  qed
qed

lemmas poll_read = poll_answer [where c = "Read m n" and mk = "ReadReply n" and pick = "find_read n" for m n,
    OF _ _ find_mem(1)]
  and poll_write = poll_answer [where c = "Write d n" and mk = "WriteReply n" and pick = "find_write n" for d n,
    OF _ _ find_mem(2)]
  and poll_unit = poll_answer [where mk = "UnitReply n" and pick = "find_unit n" for n, OF _ _ find_mem(3)]

text \<open>Commands with distinct numbers.\<close>

lemma distinct_countI: "\<forall>n. count (mset xs) n \<le> 1 \<Longrightarrow> distinct xs"
proof (induction xs)
  case (Cons x xs)
  have "count (mset xs) n \<le> count (mset (x # xs)) n" for n by simp
  with Cons.prems have "\<forall>n. count (mset xs) n \<le> 1" by (meson order_trans)
  moreover from Cons.prems have "count (mset (x # xs)) x \<le> 1" by blast
  then have "x \<notin> set xs" by (simp add: count_eq_zero_iff)
  ultimately show ?case using Cons.IH by simp
qed simp

lemma same_id:
  assumes "\<forall>n. count (image_mset cmd_id aw) n \<le> 1" and "add_mset c (add_mset c' rest) \<subseteq># aw"
  shows "cmd_id c \<noteq> cmd_id c'"
proof
  assume "cmd_id c = cmd_id c'"
  then have "2 \<le> count (image_mset cmd_id (add_mset c (add_mset c' rest))) (cmd_id c)" by simp
  also have "\<dots> \<le> count (image_mset cmd_id aw) (cmd_id c)"
    by (intro mset_subset_eq_count image_mset_subseteq_mono assms(2))
  also have "\<dots> \<le> 1" using assms(1) by blast
  finally show False by simp
qed

lemma unique_id:
  assumes "\<forall>n. count (image_mset cmd_id aw) n \<le> 1" and "c \<in># aw" and "c' \<in># aw" and "cmd_id c = cmd_id c'"
  shows "c = c'"
proof (rule ccontr)
  assume "c \<noteq> c'"
  from assms(2) obtain A where A: "aw = add_mset c A" by (blast dest: multi_member_split)
  with assms(3) \<open>c \<noteq> c'\<close> obtain B where "A = add_mset c' B" by (auto dest: multi_member_split)
  with same_id [OF assms(1), of c c' B] assms(4) A show False by simp
qed

lemma distinct_ids:
  assumes "\<forall>n. count (image_mset cmd_id aw) n \<le> 1" and "mset cs \<subseteq># aw"
  shows "distinct (map cmd_id cs)"
proof (rule distinct_countI)
  have "count (mset (map cmd_id cs)) n \<le> count (image_mset cmd_id aw) n" for n
    using mset_subset_eq_count [OF image_mset_subseteq_mono [OF assms(2)], of cmd_id n] by simp
  with assms(1) show "\<forall>n. count (mset (map cmd_id cs)) n \<le> 1" by (meson order_trans)
qed

text \<open>Of the commands owed, those a turn has not answered are left.\<close>

lemma left_owed:
  assumes cnt: "\<forall>n. count (image_mset cmd_id aw) n \<le> 1" and split: "{#c \<in># aw. P c#} = rest + mset cs"
  shows "rest = {#c \<in># aw. P c \<and> cmd_id c \<notin> cmd_id ` set cs#}"
proof -
  have apart: "cmd_id c \<noteq> cmd_id c'" if c: "c \<in># rest" and c': "c' \<in> set cs" for c c'
  proof -
    from c obtain A where A: "rest = add_mset c A" by (blast dest: multi_member_split)
    from c' obtain B where B: "mset cs = add_mset c' B" by (metis multi_member_split set_mset_mset)
    have "add_mset c (add_mset c' (A + B)) = {#c \<in># aw. P c#}" unfolding split A B by simp
    with same_id [OF cnt, of c c' "A + B"] show ?thesis by simp
  qed
  let ?new = "\<lambda>c. cmd_id c \<notin> cmd_id ` set cs"
  have "filter_mset ?new rest = rest" using apart by (fastforce simp: multiset_eq_iff count_eq_zero_iff)
  moreover have "filter_mset ?new (mset cs) = {#}" by auto
  ultimately have "filter_mset ?new {#c \<in># aw. P c#} = rest" unfolding split by simp
  then show ?thesis by (simp add: filter_filter_mset conj_commute)
qed

text \<open>The replies of a turn extend the protocol's invariant.\<close>

lemma link_inv_replies:
  assumes inv: "link_inv queue aw lk" and conn: "lk_conn lk' = Some conn'"
    and log': "lk_replies lk' = lk_replies lk @ map snd ex" "lk_next lk' = lk_next lk"
    and ans: "\<And>c rep. (c, rep) \<in> set ex \<Longrightarrow> answers c rep \<and> \<not> would_block rep"
    and split: "{#c \<in># aw. cmd_id c \<notin> replied lk#} = open_cmds queue conn' + mset (map fst ex)"
  shows "link_inv queue aw lk'"
proof -
  have cnt: "\<forall>n. count (image_mset cmd_id aw) n \<le> 1" using inv by (simp add: link_inv_def)
  have sub: "mset (map fst ex) \<subseteq># {#c \<in># aw. cmd_id c \<notin> replied lk#}" using split by simp
  have new: "c \<in># aw" "cmd_id c \<notin> replied lk" if "c \<in> set (map fst ex)" for c
    using mset_subset_eqD [OF sub, of c] that by auto
  have ids: "map reply_id (map snd ex) = map cmd_id (map fst ex)" using ans answers_id by fastforce
  have rep': "replied lk' = replied lk \<union> cmd_id ` set (map fst ex)"
    unfolding replied_def log' map_append set_append image_Un set_map [of reply_id, symmetric] ids by auto
  have "distinct (map cmd_id (map fst ex))"
    using distinct_ids [OF cnt subset_mset.order_trans [OF sub multiset_filter_subset]] .
  moreover have "set (map cmd_id (map fst ex)) \<inter> replied lk = {}" using new(2) by auto
  ultimately have "distinct (map reply_id (lk_replies lk) @ map cmd_id (map fst ex))"
    using inv unfolding distinct_append link_inv_def replied_def by auto
  then have dist: "distinct (map reply_id (lk_replies lk'))" unfolding log' map_append ids .
  have proper: "answers c rep \<and> \<not> would_block rep"
    if c: "c \<in># aw" and rep: "rep \<in> set (lk_replies lk')" "reply_id rep = cmd_id c" for c rep
  proof (cases "rep \<in> set (lk_replies lk)")
    case True
    with inv that show ?thesis by (auto simp: link_inv_def)
  next
    case False
    with rep(1) obtain c' where c': "(c', rep) \<in> set ex" by (auto simp: log')
    then have "c' \<in># aw" using new(1) [of c'] by force
    moreover have "cmd_id c' = cmd_id c" using ans [OF c'] answers_id rep(2) by metis
    ultimately have "c' = c" using unique_id [OF cnt] c by blast
    with ans [OF c'] show ?thesis by blast
  qed
  have "open_cmds queue conn' = {#c \<in># aw. cmd_id c \<notin> replied lk'#}"
    using left_owed [OF cnt split] unfolding rep' by simp
  moreover have "\<forall>n \<in> replied lk'. n < lk_next lk'" using inv new(1) unfolding rep' by (auto simp: link_inv_def log')
  ultimately show ?thesis using inv dist proper conn unfolding link_inv_def by (simp add: log')
qed

lemma link_turn_returns:
  assumes "mpsc_laws M queue cap" and "lk_conn lk = Some conn"
  shows "\<exists>lk'. link_turn M T lk = Some lk'"
proof -
  obtain x where "service M T (\<lambda>_ _. False) (conn, lk_sock lk, lk_replies lk) = Some x"
    using service_returns [OF assms(1)] .
  with assms(2) show ?thesis by (cases x) (simp add: link_turn_def)
qed

lemma link_turn_inv:
  assumes M: "mpsc_laws M queue cap" and L: "tcp_laws T rxq txq" and inv: "link_inv queue aw lk"
    and run: "link_turn M T lk = Some lk'"
  obtains ex where "lk_replies lk' = lk_replies lk @ map snd ex" and "\<forall>(c, rep) \<in> set ex. answers c rep"
    and "mset (map fst ex) \<subseteq># {#c \<in># aw. cmd_id c \<notin> replied lk#}"
    and "txq (lk_sock lk') = txq (lk_sock lk) @ all_taken ex"
    and "delivered (lk_replies lk') @ rxq (lk_sock lk') = delivered (lk_replies lk) @ rxq (lk_sock lk)"
    and "link_inv queue aw lk'"
proof -
  from run obtain conn conn' k' log' where conn: "lk_conn lk = Some conn"
    and sv: "service M T (\<lambda>_ _. False) (conn, lk_sock lk, lk_replies lk) = Some (conn', k', log')"
    and lk': "lk' = lk\<lparr>lk_conn := Some conn', lk_sock := k', lk_replies := log'\<rparr>"
    by (auto simp: link_turn_def split: option.splits)
  let ?owed = "{#c \<in># aw. cmd_id c \<notin> replied lk#}"
  have owed: "open_cmds queue conn = ?owed" using inv conn by (simp add: link_inv_def)
  have lone: "lone ?owed" using lone_subset [of aw ?owed] inv by (simp add: link_inv_def)
  obtain ex where log': "log' = lk_replies lk @ map snd ex"
    and ans: "\<And>c rep. (c, rep) \<in> set ex \<Longrightarrow> answers c rep \<and> \<not> (lone ?owed \<and> would_block rep)"
    and split: "?owed = open_cmds queue conn' + mset (map fst ex)"
    and tx: "txq k' = txq (lk_sock lk) @ all_taken ex"
    and stream: "delivered log' @ rxq k' = delivered (lk_replies lk) @ rxq (lk_sock lk)"
    using service_turn [OF M L sv] unfolding owed by metis
  have "link_inv queue aw lk'"
    by (rule link_inv_replies [OF inv, of _ conn' ex]) (use lone ans split in \<open>auto simp: lk' log'\<close>)
  moreover have "mset (map fst ex) \<subseteq># ?owed" using split by simp
  ultimately show thesis
    by (intro that [of ex]) (use log' ans tx stream in \<open>auto simp: lk'\<close>)
qed

text \<open>What a turn delivers and takes is what the awaited read and write will be told.\<close>

lemma filter_owed:
  assumes "cms \<subseteq># {#c \<in># aw. Q c#}" and "filter_mset P aw = A"
  shows "filter_mset P cms \<subseteq># filter_mset Q A"
proof -
  have "filter_mset P {#c \<in># aw. Q c#} = filter_mset Q (filter_mset P aw)" by (simp add: filter_filter_mset conj_commute)
  with multiset_filter_mono [OF assms(1), of P] assms(2) show ?thesis by simp
qed

lemma awaited_answer:
  assumes "link_inv queue aw lk" and "filter_mset P aw = {#c#}" and "cmd_id c \<in> replied lk"
  obtains rep where "rep \<in> set (lk_replies lk)" "answers c rep"
proof -
  have "c \<in># aw" using assms(2) multiset_filter_subset [of P aw] by (metis mset_subset_eqD union_single_eq_member)
  with assms(1,3) that show thesis by (auto simp: link_inv_def replied_def)
qed

lemma answers_shape:
  "answers (Read m n) rep \<Longrightarrow> \<exists>v. rep = ReadReply n v" "answers (Write d n) rep \<Longrightarrow> \<exists>w. rep = WriteReply n w"
  "answers (CloseWrite n) rep \<Longrightarrow> \<exists>u. rep = UnitReply n u" "answers (Close n) rep \<Longrightarrow> \<exists>u. rep = UnitReply n u"
  by (cases rep; auto)+

lemma turn_unread:
  assumes inv: "link_inv queue aw lk" and reads: "reads_as aw a"
    and log: "lk_replies lk' = lk_replies lk @ map snd ex" and ans: "\<forall>(c, rep) \<in> set ex. answers c rep"
    and sub: "mset (map fst ex) \<subseteq># {#c \<in># aw. cmd_id c \<notin> replied lk#}"
  shows "unread a lk' = unread a lk @ delivered (map snd ex)"
proof -
  have none: "\<forall>rep \<in> set (map snd ex). \<nexists>r v. rep = ReadReply r v" if "filter_mset is_read (mset (map fst ex)) \<subseteq># {#}"
    using that ans answers_read by (fastforce simp: subset_mset.le_zero_eq)
  show ?thesis
  proof (cases a)
    case None
    then have "filter_mset is_read aw = {#}" using reads by (simp only: reads_as_def option.case)
    from filter_owed [OF sub this] have "filter_mset is_read (mset (map fst ex)) \<subseteq># {#}" by (simp only: filter_empty_mset)
    from delivered_none [OF none [OF this]] None show ?thesis by (simp add: unread_def)
  next
    case (Some n)
    then have rd: "filter_mset is_read aw = {#Read RELAY_BUF n#}" using reads by (simp add: reads_as_def)
    note own = filter_owed [OF sub rd] and find = find_append [of n "lk_replies lk" "map snd ex"]
    show ?thesis
    proof (cases "n \<in> replied lk")
      case True
      obtain rep where rep: "rep \<in> set (lk_replies lk)" "answers (Read RELAY_BUF n) rep"
        using awaited_answer [OF inv rd] True by auto
      then obtain v where "find_read n (lk_replies lk) = Some v"
        using answers_shape(1) [OF rep(2)] find_None [of n "lk_replies lk"] by auto
      moreover have "filter_mset is_read (mset (map fst ex)) \<subseteq># {#}" using own True by (simp del: filter_mset_eq_mempty_iff)
      ultimately show ?thesis using Some find delivered_none [OF none] by (simp add: unread_def log)
    next
      case False
      then have "find_read n (lk_replies lk) = None"
        using find_mem(1) [of n "lk_replies lk"] by (cases "find_read n (lk_replies lk)") (force simp: replied_def)+
      moreover have "filter_mset is_read (mset (map fst ex)) \<subseteq># {#Read RELAY_BUF n#}" using own False by simp
      ultimately show ?thesis using Some find delivered_lone [OF ans] by (simp add: unread_def log)
    qed
  qed
qed

lemma turn_untold:
  assumes inv: "link_inv queue aw lk" and writes: "writes_as aw a"
    and log: "lk_replies lk' = lk_replies lk @ map snd ex" and ans: "\<forall>(c, rep) \<in> set ex. answers c rep"
    and sub: "mset (map fst ex) \<subseteq># {#c \<in># aw. cmd_id c \<notin> replied lk#}"
  shows "untold a lk' = untold a lk @ all_taken ex"
proof -
  have none: "all_taken ex = []" if "filter_mset is_write (mset (map fst ex)) \<subseteq># {#}"
    using that by (intro taken_none) (fastforce simp: subset_mset.le_zero_eq)
  show ?thesis
  proof (cases a)
    case None
    then have "filter_mset is_write aw = {#}" using writes by (simp only: writes_as_def option.case)
    from filter_owed [OF sub this] have "filter_mset is_write (mset (map fst ex)) \<subseteq># {#}" by (simp only: filter_empty_mset)
    from none [OF this] None show ?thesis by (simp add: untold_def)
  next
    case (Some dn)
    obtain d n where dn: "dn = (d, n)" by fastforce
    with Some have rd: "filter_mset is_write aw = {#Write d n#}" using writes by (simp add: writes_as_def)
    note own = filter_owed [OF sub rd] and find = find_append [of n "lk_replies lk" "map snd ex"]
    show ?thesis
    proof (cases "n \<in> replied lk")
      case True
      obtain rep where rep: "rep \<in> set (lk_replies lk)" "answers (Write d n) rep"
        using awaited_answer [OF inv rd] True by auto
      then obtain v where "find_write n (lk_replies lk) = Some v"
        using answers_shape(2) [OF rep(2)] find_None [of n "lk_replies lk"] by auto
      moreover have "filter_mset is_write (mset (map fst ex)) \<subseteq># {#}" using own True by (simp del: filter_mset_eq_mempty_iff)
      ultimately show ?thesis using Some dn find none by (simp add: untold_def log)
    next
      case False
      then have "find_write n (lk_replies lk) = None"
        using find_mem(2) [of n "lk_replies lk"] by (cases "find_write n (lk_replies lk)") (force simp: replied_def)+
      moreover have "filter_mset is_write (mset (map fst ex)) \<subseteq># {#Write d n#}" using own False by simp
      ultimately show ?thesis using Some dn find taken_lone [OF ans] by (simp add: untold_def log)
    qed
  qed
qed

text \<open>
  After a turn nobody waits for something that has already happened: what is not answered is
  a read of an open, empty socket or a write to an open, full one.
\<close>

lemma link_turn_blocked:
  assumes M: "mpsc_laws M queue cap" and L: "tcp_laws T rxq txq" and inv: "link_inv queue aw lk"
    and run: "link_turn M T lk = Some lk'" and c: "c \<in># aw" "cmd_id c \<notin> replied lk'"
  shows "is_read c \<and> \<not> can_recv T (lk_sock lk') \<and> may_recv T (lk_sock lk') \<or>
    is_write c \<and> \<not> can_send T (lk_sock lk') \<and> may_send T (lk_sock lk')"
proof -
  from run obtain conn conn' k' log' where
    sv: "service M T (\<lambda>_ _. False) (conn, lk_sock lk, lk_replies lk) = Some (conn', k', log')"
    and lk': "lk' = lk\<lparr>lk_conn := Some conn', lk_sock := k', lk_replies := log'\<rparr>"
    by (auto simp: link_turn_def split: option.splits)
  have blk: "blocked T (conn', k', log')" "queue (cmd_rx conn') = []"
    using service_turn [OF M L sv] by metis+
  obtain ex where "link_inv queue aw lk'" using link_turn_inv [OF M L inv run] by metis
  then have "open_cmds queue conn' = {#c \<in># aw. cmd_id c \<notin> replied lk'#}" by (simp add: link_inv_def lk')
  with c blk(2) have "c \<in># waiting_cmds conn'" by (simp add: open_cmds_def)
  with blk(1) show ?thesis
    by (auto simp: waiting_cmds_def blocked_def lk' split: option.splits)
qed

lemma unread_cong: "lk_replies lk' = lk_replies lk \<Longrightarrow> unread a lk' = unread a lk"
  and untold_cong: "lk_replies lk' = lk_replies lk \<Longrightarrow> untold b lk' = untold b lk"
  and replied_cong: "lk_replies lk' = lk_replies lk \<Longrightarrow> replied lk' = replied lk"
  by (auto simp: unread_def untold_def replied_def split: option.split)

lemma unread_fresh: "n \<notin> replied lk \<Longrightarrow> unread (Some n) lk = []"
proof (cases "find_read n (lk_replies lk)")
  case (Some v)
  from find_mem(1) [OF this] have "n \<in> replied lk" by (force simp: replied_def)
  then show "n \<notin> replied lk \<Longrightarrow> unread (Some n) lk = []" by simp
qed (simp add: unread_def)

lemma untold_fresh: "n \<notin> replied lk \<Longrightarrow> untold (Some (d, n)) lk = []"
proof (cases "find_write n (lk_replies lk)")
  case (Some v)
  from find_mem(2) [OF this] have "n \<in> replied lk" by (force simp: replied_def)
  then show "n \<notin> replied lk \<Longrightarrow> untold (Some (d, n)) lk = []" by simp
qed (simp add: untold_def)

lemma untold_None [simp]: "untold None lk = []" and unread_None [simp]: "unread None lk = []"
  by (simp_all add: untold_def unread_def)

text \<open>An awaited command whose caller still waits has not been answered.\<close>

lemma still_waiting:
  assumes inv: "link_inv queue aw lk" and c: "c \<in># aw" and none: "poll_call pick lk = None"
    and found: "\<And>rep. rep \<in> set (lk_replies lk) \<Longrightarrow> answers c rep \<Longrightarrow> pick (lk_replies lk) \<noteq> None"
  shows "cmd_id c \<notin> replied lk"
proof
  assume "cmd_id c \<in> replied lk"
  then obtain rep where "rep \<in> set (lk_replies lk)" "reply_id rep = cmd_id c" by (auto simp: replied_def)
  with inv c found have "pick (lk_replies lk) \<noteq> None" by (auto simp: link_inv_def)
  with none show False by (auto simp: poll_call_def)
qed

lemma find_answered:
  "rep \<in> set log \<Longrightarrow> answers (Read m n) rep \<Longrightarrow> find_read n log \<noteq> None"
  "rep \<in> set log \<Longrightarrow> answers (Write d n) rep \<Longrightarrow> find_write n log \<noteq> None"
  "rep \<in> set log \<Longrightarrow> answers (CloseWrite n) rep \<Longrightarrow> find_unit n log \<noteq> None"
  "rep \<in> set log \<Longrightarrow> answers (Close n) rep \<Longrightarrow> find_unit n log \<noteq> None"
  using find_None [of n log] by (auto dest: answers_shape)

end
