(* ===== verification/Vconn_Actor.thy ===== *)
theory Vconn_Actor
  imports Relay Conn_Turn
begin

text \<open>
  The provider side of the relay's contract: the calls of \<open>VConn\<close> composed with the
  actor's \<open>ConnState\<close>. A call puts its command into the connection's channel; awaiting the
  reply lets the actor take turns, each a poll of the network followed by \<open>service\<close>, until
  the reply is there. The composition is shown to keep the contract \<open>vconn_contract\<close>, so
  what is proved of the relay holds of the relay on top of this actor.
\<close>

section \<open>The connection as the caller sees it\<close>

text \<open>
  Reply channels are numbered. \<open>net\<close> is what a poll does to the socket; \<open>'k\<close> may hold
  whatever decides how the network goes on.
\<close>

record ('c, 'k) actor_world =
  aw_conn :: "('c, nat) conn_state"
  aw_sock :: 'k
  aw_log :: "nat reply list"
  aw_next :: nat

definition actor_turn ::
  "('c, nat conn_cmd) mpsc_ops \<Rightarrow> 'k tcp_ops \<Rightarrow> ('k \<Rightarrow> 'k) \<Rightarrow> ('c, 'k) actor_world \<Rightarrow> ('c, 'k) actor_world option" where
  "actor_turn M T net w =
     map_option (\<lambda>(conn, socket, log). w\<lparr>aw_conn := conn, aw_sock := socket, aw_log := log\<rparr>)
       (service M T (\<lambda>_ _. False) (aw_conn w, net (aw_sock w), aw_log w))"

partial_function (option) await_reply ::
  "('c, nat conn_cmd) mpsc_ops \<Rightarrow> 'k tcp_ops \<Rightarrow> ('k \<Rightarrow> 'k) \<Rightarrow> (nat reply list \<Rightarrow> 'v option) \<Rightarrow>
   ('c, 'k) actor_world \<Rightarrow> ('v \<times> ('c, 'k) actor_world) option" where
  "await_reply M T net pick w =
     (case actor_turn M T net w of
        None \<Rightarrow> None
      | Some w' \<Rightarrow>
          (case pick (aw_log w') of
             Some v \<Rightarrow> Some (v, w')
           | None \<Rightarrow> await_reply M T net pick w'))"

definition actor_vconn ::
  "('c, nat conn_cmd) mpsc_ops \<Rightarrow> 'k tcp_ops \<Rightarrow> ('k \<Rightarrow> 'k) \<Rightarrow> (('c, 'k) actor_world, 'tx, nat) vconn_ops" where
  "actor_vconn M T net = \<lparr>
     oneshot = (\<lambda>w. (aw_next w, w\<lparr>aw_next := Suc (aw_next w)\<rparr>)),
     send_cmd = (\<lambda>_ c w. case try_send M c (cmd_rx (aw_conn w)) of
       (ok, ch) \<Rightarrow> (ok, w\<lparr>aw_conn := (aw_conn w)\<lparr>cmd_rx := ch\<rparr>\<rparr>)),
     await_read = (\<lambda>r w. map_option (apfst Some) (await_reply M T net (find_read r) w)),
     await_write = (\<lambda>r w. map_option (apfst Some) (await_reply M T net (find_write r) w)),
     await_unit = (\<lambda>r w. map_option (apfst Some) (await_reply M T net (find_unit r) w))\<rparr>"

section \<open>The invariant between calls\<close>

definition aw_laws ::
  "('c, nat conn_cmd) mpsc_ops \<Rightarrow> 'k tcp_ops \<Rightarrow> ('k \<Rightarrow> 'k) \<Rightarrow> ('c \<Rightarrow> nat conn_cmd list) \<Rightarrow> ('c \<Rightarrow> nat) \<Rightarrow>
   ('k \<Rightarrow> bytes) \<Rightarrow> ('k \<Rightarrow> bytes) \<Rightarrow> bool" where
  "aw_laws M T net queue cap rxq txq \<longleftrightarrow>
     mpsc_laws M queue cap \<and> tcp_laws T rxq txq \<and> (\<forall>k. txq (net k) = txq k)"

text \<open>No call is under way: nothing pending, nothing queued, and the next number is unused.\<close>

definition aw_idle :: "('c \<Rightarrow> nat conn_cmd list) \<Rightarrow> ('c, 'k) actor_world \<Rightarrow> bool" where
  "aw_idle queue w \<longleftrightarrow> read (aw_conn w) = None \<and> write (aw_conn w) = None \<and>
     queue (cmd_rx (aw_conn w)) = [] \<and> (\<forall>rep \<in> set (aw_log w). reply_id rep < aw_next w)"

definition aw_rd :: "('c, 'k) actor_world \<Rightarrow> bytes" where
  "aw_rd w = delivered (aw_log w)"

definition aw_wr :: "('k \<Rightarrow> bytes) \<Rightarrow> ('c, 'k) actor_world \<Rightarrow> bytes" where
  "aw_wr txq w = txq (aw_sock w)"

text \<open>
  A call under way: its command is queued, or is the one pending request. \<open>log0\<close> are the
  replies before the call.
\<close>

fun pending_cmd :: "nat conn_cmd \<Rightarrow> ('c, nat) conn_state \<Rightarrow> bool" where
  "pending_cmd (Read n r) conn \<longleftrightarrow> read conn = Some \<lparr>max_len = n, rd_reply = r\<rparr> \<and> write conn = None"
| "pending_cmd (Write d r) conn \<longleftrightarrow> write conn = Some \<lparr>data = d, wr_reply = r\<rparr> \<and> read conn = None"
| "pending_cmd _ conn \<longleftrightarrow> False"

definition aw_calling ::
  "('c \<Rightarrow> nat conn_cmd list) \<Rightarrow> nat conn_cmd \<Rightarrow> nat reply list \<Rightarrow> bytes \<Rightarrow> ('k \<Rightarrow> bytes) \<Rightarrow>
   ('c, 'k) actor_world \<Rightarrow> bool" where
  "aw_calling queue cm log0 tx0 txq w \<longleftrightarrow> aw_log w = log0 \<and> txq (aw_sock w) = tx0 \<and>
     ((read (aw_conn w) = None \<and> write (aw_conn w) = None \<and> queue (cmd_rx (aw_conn w)) = [cm]) \<or>
      (pending_cmd cm (aw_conn w) \<and> queue (cmd_rx (aw_conn w)) = []))"

definition aw_answered ::
  "('c \<Rightarrow> nat conn_cmd list) \<Rightarrow> nat conn_cmd \<Rightarrow> nat reply list \<Rightarrow> bytes \<Rightarrow> ('k \<Rightarrow> bytes) \<Rightarrow>
   ('c, 'k) actor_world \<Rightarrow> nat reply \<Rightarrow> bool" where
  "aw_answered queue cm log0 tx0 txq w rep \<longleftrightarrow>
     read (aw_conn w) = None \<and> write (aw_conn w) = None \<and> queue (cmd_rx (aw_conn w)) = [] \<and>
     aw_log w = log0 @ [rep] \<and> answers cm rep \<and> txq (aw_sock w) = tx0 @ taken cm rep"

section \<open>One turn\<close>

lemma service_queue_Nil:
  assumes "mpsc_laws M queue cap" and "queue (cmd_rx (fst x)) = []"
  obtains c where "queue c = []" "service M T f x = Some (apfst (cmd_rx_update (\<lambda>_. c)) (service_io T f x))"
  using try_recv_Nil [OF assms(1), of "cmd_rx (fst (service_io T f x))"] assms(2)
  by (auto simp: service_def service_loop.simps)

lemma service_queue_single:
  assumes "mpsc_laws M queue cap" and "queue (cmd_rx (fst x)) = [cm]"
  obtains c c' where "queue c' = []" "service M T f x = Some (apfst (cmd_rx_update (\<lambda>_. c'))
    (service_io T f (handle_cmd T cm (apfst (cmd_rx_update (\<lambda>_. c)) (service_io T f x)))))"
proof -
  from try_recv_Cons [OF assms(1), of "cmd_rx (fst (service_io T f x))" cm "[]"] assms(2) obtain c
    where c: "try_recv M (cmd_rx (fst x)) = (Some cm, c)" "queue c = []" by auto
  let ?y = "service_io T f (handle_cmd T cm (apfst (cmd_rx_update (\<lambda>_. c)) (service_io T f x)))"
  have "queue (cmd_rx (fst ?y)) = []" using c by (cases "service_io T f x") simp
  from try_recv_Nil [OF assms(1) this] obtain c' where c': "try_recv M (cmd_rx (fst ?y)) = (None, c')" "queue c' = []"
    by blast
  have "service M T f x = Some (apfst (cmd_rx_update (\<lambda>_. c')) ?y)"
    using c(1) c'(1) by (simp add: service_def service_loop.simps [of M T f "service_io T f x"]
        service_loop.simps [of M T f ?y])
  with c'(2) show thesis by (rule that)
qed

text \<open>Serving the one pending request: it is answered, or it goes on waiting.\<close>

lemma service_io_pending:
  assumes L: "tcp_laws T rxq txq" and p: "pending_cmd cm conn"
  shows "(\<exists>rep k'. service_io T (\<lambda>_ _. False) (conn, k, log) =
        (conn\<lparr>read := None, write := None\<rparr>, k', log @ [rep]) \<and> answers cm rep \<and> txq k' = txq k @ taken cm rep) \<or>
    service_io T (\<lambda>_ _. False) (conn, k, log) = (conn, k, log)"
proof (cases cm)
  case (Read n r)
  with p have r: "read conn = Some \<lparr>max_len = n, rd_reply = r\<rparr>" "write conn = None" by simp_all
  have w: "service_write T (\<lambda>_ _. False) (self, k, log) = (self, k, log)" if "write self = None" for self k log
    using that by (simp add: service_write_idle)
  have upd: "conn\<lparr>read := None, write := None\<rparr> = conn\<lparr>read := None\<rparr>" using r(2) by simp
  from L show ?thesis
  proof (cases rule: service_read_contract [where is_closed = "\<lambda>_ _. False" and self = conn and k = k and log = log])
    case wait
    then show ?thesis using r by (simp add: service_io_def w)
  next
    case (replied rd v k')
    then show ?thesis using r Read unfolding upd service_io_def
      by (intro disjI1 exI [of _ "ReadReply r v"] exI [of _ k']) (auto simp: w)
  qed simp
next
  case (Write d r)
  with p have r: "write conn = Some \<lparr>data = d, wr_reply = r\<rparr>" "read conn = None" by simp_all
  have rd: "service_read T (\<lambda>_ _. False) (conn, k, log) = (conn, k, log)" using r by (simp add: service_read_idle)
  have upd: "conn\<lparr>read := None, write := None\<rparr> = conn\<lparr>write := None\<rparr>" using r(2) by simp
  from L show ?thesis
  proof (cases rule: service_write_contract [where is_closed = "\<lambda>_ _. False" and self = conn and k = k and log = log])
    case wait
    then show ?thesis by (simp add: service_io_def rd)
  next
    case (replied wr v k')
    then show ?thesis using r Write unfolding upd service_io_def rd
      by (intro disjI1 exI [of _ "WriteReply r v"] exI [of _ k']) auto
  qed simp
qed (use p in simp_all)

lemma service_io_idle:
  "read conn = None \<Longrightarrow> write conn = None \<Longrightarrow> service_io T f (conn, k, log) = (conn, k, log)"
  by (simp add: service_io_def service_read_idle service_write_idle)

text \<open>Taking the command of the call: a close is answered at once, a read or write as when pending.\<close>

lemma service_io_handle:
  assumes L: "tcp_laws T rxq txq" and idle: "read conn = None" "write conn = None"
  shows "(\<exists>rep k'. service_io T (\<lambda>_ _. False) (handle_cmd T cm (conn, k, log)) =
        (conn, k', log @ [rep]) \<and> answers cm rep \<and> txq k' = txq k @ taken cm rep) \<or>
    (\<exists>conn'. service_io T (\<lambda>_ _. False) (handle_cmd T cm (conn, k, log)) = (conn', k, log) \<and>
        pending_cmd cm conn' \<and> cmd_rx conn' = cmd_rx conn)"
proof -
  have idle': "conn\<lparr>read := None\<rparr> = conn" "conn\<lparr>write := None\<rparr> = conn" using idle by simp_all
  show ?thesis
  proof (cases cm)
    case (Read n r)
    let ?conn = "conn\<lparr>read := Some \<lparr>max_len = n, rd_reply = r\<rparr>\<rparr>"
    have "pending_cmd cm ?conn" using Read idle by simp
    from service_io_pending [OF L this, of k log] Read idle idle' show ?thesis
      by (auto simp: handle_cmd_def)
  next
    case (Write d r)
    let ?conn = "conn\<lparr>write := Some \<lparr>data = d, wr_reply = r\<rparr>\<rparr>"
    have "pending_cmd cm ?conn" using Write idle by simp
    from service_io_pending [OF L this, of k log] Write idle idle' show ?thesis
      by (auto simp: handle_cmd_def)
  next
    case (CloseWrite r)
    with idle show ?thesis by (auto simp: handle_cmd_def service_io_idle tcp_close_laws [OF L])
  next
    case (Close r)
    with idle show ?thesis by (auto simp: handle_cmd_def service_io_idle tcp_abort_laws [OF L])
  qed
qed

lemma pending_cmd_rx [simp]: "pending_cmd cm (conn\<lparr>cmd_rx := c\<rparr>) = pending_cmd cm conn"
  by (cases cm) simp_all

lemma actor_turn_call:
  assumes laws: "aw_laws M T net queue cap rxq txq" and call: "aw_calling queue cm log0 tx0 txq w"
  shows "\<exists>w'. actor_turn M T net w = Some w' \<and> aw_next w' = aw_next w \<and>
    (aw_calling queue cm log0 tx0 txq w' \<or> (\<exists>rep. aw_answered queue cm log0 tx0 txq w' rep))"
proof -
  have M: "mpsc_laws M queue cap" and L: "tcp_laws T rxq txq" and net: "txq (net k) = txq k" for k
    using laws by (simp_all add: aw_laws_def)
  let ?x = "(aw_conn w, net (aw_sock w), aw_log w)" and ?f = "\<lambda>(_ :: nat) _. False"
  from call consider (queued) "read (aw_conn w) = None" "write (aw_conn w) = None" "queue (cmd_rx (fst ?x)) = [cm]"
    | (waiting) "pending_cmd cm (aw_conn w)" "queue (cmd_rx (fst ?x)) = []"
    by (auto simp: aw_calling_def)
  then show ?thesis
  proof cases
    case waiting
    from service_queue_Nil [OF M waiting(2)] obtain c where c: "queue c = []"
      "service M T ?f ?x = Some (apfst (cmd_rx_update (\<lambda>_. c)) (service_io T ?f ?x))" by metis
    from service_io_pending [OF L waiting(1), of "net (aw_sock w)" "aw_log w"] c waiting call show ?thesis
      by (auto simp: actor_turn_def aw_calling_def aw_answered_def net)
  next
    case queued
    have io: "service_io T ?f ?x = ?x" using queued by (simp add: service_io_idle)
    from service_queue_single [OF M queued(3), of T ?f] obtain c c' where c: "queue c' = []"
      "service M T ?f ?x = Some (apfst (cmd_rx_update (\<lambda>_. c'))
         (service_io T ?f (handle_cmd T cm (apfst (cmd_rx_update (\<lambda>_. c)) ?x))))"
      unfolding io by metis
    from service_io_handle [OF L, of "(aw_conn w)\<lparr>cmd_rx := c\<rparr>" cm "net (aw_sock w)" "aw_log w"] c queued call show ?thesis
      by (auto simp: actor_turn_def aw_calling_def aw_answered_def net)
  qed
qed

section \<open>A whole call\<close>

lemma await_reply_call:
  assumes laws: "aw_laws M T net queue cap rxq txq" and none: "pick log0 = None"
    and found: "\<And>rep. answers cm rep \<Longrightarrow> pick (log0 @ [rep]) \<noteq> None"
    and run: "await_reply M T net pick w = Some y" and call: "aw_calling queue cm log0 tx0 txq w"
  shows "aw_next (snd y) = aw_next w \<and>
    (\<exists>rep. aw_answered queue cm log0 tx0 txq (snd y) rep \<and> pick (log0 @ [rep]) = Some (fst y))"
proof -
  let ?P = "\<lambda>M' T' net' pick' w y. M' = M \<and> T' = T \<and> net' = net \<and> pick' = pick \<and>
      aw_calling queue cm log0 tx0 txq w \<longrightarrow> aw_next (snd y) = aw_next w \<and>
      (\<exists>rep. aw_answered queue cm log0 tx0 txq (snd y) rep \<and> pick (log0 @ [rep]) = Some (fst y))"
  have "?P M T net pick w y"
  proof (rule await_reply.raw_induct [where P = ?P, OF _ run])
    fix rec M' T' net' pick' w y
    assume IH: "\<And>M' T' net' pick' w y. rec M' T' net' pick' w = Some y \<Longrightarrow> ?P M' T' net' pick' w y"
      and body: "(case actor_turn M' T' net' w of None \<Rightarrow> None
        | Some w' \<Rightarrow> (case pick' (aw_log w') of Some v \<Rightarrow> Some (v, w') | None \<Rightarrow> rec M' T' net' pick' w')) = Some y"
    show "?P M' T' net' pick' w y"
    proof (intro impI, elim conjE)
      assume eq: "M' = M" "T' = T" "net' = net" "pick' = pick" and c: "aw_calling queue cm log0 tx0 txq w"
      from actor_turn_call [OF laws c] obtain w1 where w1: "actor_turn M T net w = Some w1" "aw_next w1 = aw_next w"
        "aw_calling queue cm log0 tx0 txq w1 \<or> (\<exists>rep. aw_answered queue cm log0 tx0 txq w1 rep)" by blast
      from w1(3) show "aw_next (snd y) = aw_next w \<and>
          (\<exists>rep. aw_answered queue cm log0 tx0 txq (snd y) rep \<and> pick (log0 @ [rep]) = Some (fst y))"
      proof
        assume c1: "aw_calling queue cm log0 tx0 txq w1"
        then have "rec M T net pick w1 = Some y"
          using body eq w1(1) none by (simp add: aw_calling_def)
        from IH [OF this] c1 w1(2) show ?thesis by simp
      next
        assume "\<exists>rep. aw_answered queue cm log0 tx0 txq w1 rep"
        then obtain rep where rep: "aw_answered queue cm log0 tx0 txq w1 rep" by blast
        then have "answers cm rep" "aw_log w1 = log0 @ [rep]" by (simp_all add: aw_answered_def)
        with found [of rep] body eq w1(1) have "pick (log0 @ [rep]) = Some (fst y)" "snd y = w1" by auto
        with rep w1(2) show ?thesis by blast
      qed
    qed
  qed
  with call show ?thesis by simp
qed

text \<open>
  A finder of replies: it skips what answers other calls, and finds any answer to its own.
\<close>

definition finder :: "(nat \<Rightarrow> nat reply list \<Rightarrow> 'v option) \<Rightarrow> (nat \<Rightarrow> nat conn_cmd) \<Rightarrow> bool" where
  "finder fnd mk \<longleftrightarrow> (\<forall>r. fnd r [] = None \<and> cmd_id (mk r) = r) \<and>
     (\<forall>r log log'. r \<notin> reply_id ` set log \<longrightarrow> fnd r (log @ log') = fnd r log') \<and>
     (\<forall>r rep. answers (mk r) rep \<longrightarrow> fnd r [rep] \<noteq> None)"

lemma find_skip:
  "r \<notin> reply_id ` set log \<Longrightarrow> find_read r (log @ log') = find_read r log'"
  "r \<notin> reply_id ` set log \<Longrightarrow> find_write r (log @ log') = find_write r log'"
  "r \<notin> reply_id ` set log \<Longrightarrow> find_unit r (log @ log') = find_unit r log'"
proof -
  show "r \<notin> reply_id ` set log \<Longrightarrow> find_read r (log @ log') = find_read r log'"
    by (induction r log rule: find_read.induct) auto
  show "r \<notin> reply_id ` set log \<Longrightarrow> find_write r (log @ log') = find_write r log'"
    by (induction r log rule: find_write.induct) auto
  show "r \<notin> reply_id ` set log \<Longrightarrow> find_unit r (log @ log') = find_unit r log'"
    by (induction r log rule: find_unit.induct) auto
qed

fun_cases answersE: "answers cm rep"

lemma finders:
  "finder find_read (Read n)" "finder find_write (Write d)" "finder find_unit CloseWrite" "finder find_unit Close"
  by (auto simp: finder_def find_skip elim: answersE)

lemma actor_call:
  assumes laws: "aw_laws M T net queue cap rxq txq" and idle: "aw_idle queue w" and fnd: "finder fnd mk"
    and run: "request (actor_vconn M T net) (\<lambda>r w. map_option (apfst Some) (await_reply M T net (fnd r) w)) tx mk w
      = Some (res, w')"
  obtains (gone) "res = Inl ActorGone" "aw_idle queue w'" "aw_log w' = aw_log w" "aw_sock w' = aw_sock w"
  | (answered) r rep where "answers (mk r) rep" "fnd r [rep] = Some res" "aw_idle queue w'"
      "aw_log w' = aw_log w @ [rep]" "txq (aw_sock w') = txq (aw_sock w) @ taken (mk r) rep"
proof -
  have M: "mpsc_laws M queue cap" using laws by (simp add: aw_laws_def)
  have fresh: "aw_next w \<notin> reply_id ` set (aw_log w)" using idle by (auto simp: aw_idle_def)
  from run show thesis
  proof (cases rule: request_cases)
    case (refused r w1)
    from refused(1,2) obtain c where "try_send M (mk (aw_next w)) (cmd_rx (aw_conn w)) = (False, c)"
      "w' = w\<lparr>aw_next := Suc (aw_next w), aw_conn := (aw_conn w)\<lparr>cmd_rx := c\<rparr>\<rparr>"
      by (auto simp: actor_vconn_def split: prod.splits)
    with try_send_False [OF M this(1)] idle refused(3) show thesis
      by (intro gone) (auto simp: aw_idle_def less_Suc_eq)
  next
    case (dropped r w1 w2)
    then show thesis by auto
  next
    case (replied r w1 w2)
    obtain ok c where s: "try_send M (mk (aw_next w)) (cmd_rx (aw_conn w)) = (ok, c)" by fastforce
    from replied(1) have "r = aw_next w" "w1 = w\<lparr>aw_next := Suc (aw_next w)\<rparr>" by (auto simp: actor_vconn_def)
    with replied(2) s have c: "try_send M (mk (aw_next w)) (cmd_rx (aw_conn w)) = (True, c)" "r = aw_next w"
      "w2 = w\<lparr>aw_next := Suc (aw_next w), aw_conn := (aw_conn w)\<lparr>cmd_rx := c\<rparr>\<rparr>"
      by (simp_all add: actor_vconn_def)
    from try_send_True [OF M c(1)] idle c(2,3)
    have call: "aw_calling queue (mk r) (aw_log w) (txq (aw_sock w)) txq w2"
      by (auto simp: aw_calling_def aw_idle_def)
    from replied(3) have aw: "await_reply M T net (fnd r) w2 = Some (res, w')" by auto
    have none: "fnd r (aw_log w) = None" and skip: "fnd r (aw_log w @ [rep]) = fnd r [rep]" for rep
      using fnd fresh c(2) unfolding finder_def by (metis append_Nil2, simp)
    have "fnd r (aw_log w @ [rep]) \<noteq> None" if "answers (mk r) rep" for rep
      using fnd that skip unfolding finder_def by metis
    from await_reply_call [OF laws none this aw call] obtain rep where
      rep: "aw_next w' = aw_next w2" "aw_answered queue (mk r) (aw_log w) (txq (aw_sock w)) txq w' rep" "fnd r [rep] = Some res"
      using skip by auto
    then have "reply_id rep = r" using fnd answers_id [of "mk r" rep] by (simp add: aw_answered_def finder_def)
    then show thesis using rep idle c
      by (intro answered [of r rep]) (auto simp: aw_answered_def aw_idle_def less_Suc_eq)
  qed
qed

section \<open>The contract holds\<close>

lemmas vconn_calls = vconn_read_def vconn_write_def vconn_close_write_def vconn_close_def

lemma actor_vconn_awaits:
  "await_read (actor_vconn M T net) = (\<lambda>r w. map_option (apfst Some) (await_reply M T net (find_read r) w))"
  "await_write (actor_vconn M T net) = (\<lambda>r w. map_option (apfst Some) (await_reply M T net (find_write r) w))"
  "await_unit (actor_vconn M T net) = (\<lambda>r w. map_option (apfst Some) (await_reply M T net (find_unit r) w))"
  by (simp_all add: actor_vconn_def)

lemma actor_vconn_read:
  assumes laws: "aw_laws M T net queue cap rxq txq" and "aw_idle queue w"
    and "vconn_read (actor_vconn M T net) vc n w = Some (res, w')"
  shows "aw_idle queue w' \<and> aw_wr txq w' = aw_wr txq w \<and>
    (case res of Inr d \<Rightarrow> aw_rd w' = aw_rd w @ d \<and> length d \<le> n | Inl e \<Rightarrow> aw_rd w' = aw_rd w)"
  using assms(3) unfolding vconn_calls actor_vconn_awaits
  by (cases rule: actor_call [OF laws assms(2) finders(1)])
    (auto simp: aw_rd_def aw_wr_def delivered_append split: sum.splits elim: answersE)

lemma actor_vconn_write:
  assumes laws: "aw_laws M T net queue cap rxq txq" and "aw_idle queue w"
    and "vconn_write (actor_vconn M T net) vc d w = Some (res, w')"
  shows "aw_idle queue w' \<and> aw_rd w' = aw_rd w \<and>
    (case res of Inr n \<Rightarrow> aw_wr txq w' = aw_wr txq w @ take n d \<and> n \<le> length d \<and> (n = 0 \<longrightarrow> d = [])
       | Inl e \<Rightarrow> aw_wr txq w' = aw_wr txq w)"
  using assms(3) unfolding vconn_calls actor_vconn_awaits
  by (cases rule: actor_call [OF laws assms(2) finders(2)])
    (auto simp: aw_rd_def aw_wr_def delivered_append split: sum.splits elim: answersE)

lemma actor_vconn_closes:
  assumes laws: "aw_laws M T net queue cap rxq txq" and "aw_idle queue w"
  shows "vconn_close_write (actor_vconn M T net) vc w = Some (res, w') \<Longrightarrow>
      aw_idle queue w' \<and> aw_rd w' = aw_rd w \<and> aw_wr txq w' = aw_wr txq w"
    and "vconn_close (actor_vconn M T net) vc w = Some (res, w') \<Longrightarrow>
      aw_idle queue w' \<and> aw_rd w' = aw_rd w \<and> aw_wr txq w' = aw_wr txq w"
  unfolding vconn_calls actor_vconn_awaits
  by (erule actor_call [OF laws assms(2) finders(3)];
      auto simp: aw_rd_def aw_wr_def delivered_append split: sum.splits elim: answersE)
    (erule actor_call [OF laws assms(2) finders(4)];
      auto simp: aw_rd_def aw_wr_def delivered_append split: sum.splits elim: answersE)

interpretation on_actor: vconn_contract "actor_vconn M T net" vc
    "\<lambda>w. aw_laws M T net queue cap rxq txq \<and> aw_idle queue w" aw_rd "aw_wr txq"
  for M T net vc queue cap rxq txq
proof unfold_locales
  fix w n d w'
  assume "aw_laws M T net queue cap rxq txq \<and> aw_idle queue w"
    "vconn_read (actor_vconn M T net) vc n w = Some (Inr d, w')"
  then show "(aw_laws M T net queue cap rxq txq \<and> aw_idle queue w') \<and>
      aw_rd w' = aw_rd w @ d \<and> aw_wr txq w' = aw_wr txq w \<and> length d \<le> n"
    using actor_vconn_read [of M T net queue cap rxq txq w vc n "Inr d" w'] by simp
next
  fix w n e w'
  assume "aw_laws M T net queue cap rxq txq \<and> aw_idle queue w"
    "vconn_read (actor_vconn M T net) vc n w = Some (Inl e, w')"
  then show "(aw_laws M T net queue cap rxq txq \<and> aw_idle queue w') \<and> aw_rd w' = aw_rd w \<and> aw_wr txq w' = aw_wr txq w"
    using actor_vconn_read [of M T net queue cap rxq txq w vc n "Inl e" w'] by simp
next
  fix w d n w'
  assume "aw_laws M T net queue cap rxq txq \<and> aw_idle queue w"
    "vconn_write (actor_vconn M T net) vc d w = Some (Inr n, w')"
  then show "(aw_laws M T net queue cap rxq txq \<and> aw_idle queue w') \<and> aw_wr txq w' = aw_wr txq w @ take n d \<and>
      aw_rd w' = aw_rd w \<and> n \<le> length d \<and> (n = 0 \<longrightarrow> d = [])"
    using actor_vconn_write [of M T net queue cap rxq txq w vc d "Inr n" w'] by simp
next
  fix w d e w'
  assume "aw_laws M T net queue cap rxq txq \<and> aw_idle queue w"
    "vconn_write (actor_vconn M T net) vc d w = Some (Inl e, w')"
  then show "(aw_laws M T net queue cap rxq txq \<and> aw_idle queue w') \<and> aw_wr txq w' = aw_wr txq w \<and> aw_rd w' = aw_rd w"
    using actor_vconn_write [of M T net queue cap rxq txq w vc d "Inl e" w'] by simp
next
  fix w r w'
  assume "aw_laws M T net queue cap rxq txq \<and> aw_idle queue w"
    "vconn_close_write (actor_vconn M T net) vc w = Some (r, w')"
  then show "(aw_laws M T net queue cap rxq txq \<and> aw_idle queue w') \<and> aw_wr txq w' = aw_wr txq w \<and> aw_rd w' = aw_rd w"
    using actor_vconn_closes(1) [of M T net queue cap rxq txq w vc r w'] by simp
next
  fix w r w'
  assume "aw_laws M T net queue cap rxq txq \<and> aw_idle queue w"
    "vconn_close (actor_vconn M T net) vc w = Some (r, w')"
  then show "aw_wr txq w' = aw_wr txq w \<and> aw_rd w' = aw_rd w"
    using actor_vconn_closes(2) [of M T net queue cap rxq txq w vc r w'] by simp
qed

section \<open>The relay on top of the actor\<close>

lemma relay_inv:
  assumes "aw_laws M T net queue cap rxq txq" and "stream_laws S sent rcvd" and "aw_idle queue w0"
    and "(pipe_step (actor_vconn M T net) S dial vc)\<^sup>*\<^sup>* (pipe_start w0) p"
  shows "pipe_inv (\<lambda>w. aw_laws M T net queue cap rxq txq \<and> aw_idle queue w) aw_rd (aw_wr txq) sent rcvd dial vc w0 p"
proof -
  let ?inv = "\<lambda>p. stream_laws S sent rcvd \<and>
    pipe_inv (\<lambda>w. aw_laws M T net queue cap rxq txq \<and> aw_idle queue w) aw_rd (aw_wr txq) sent rcvd dial vc w0 p"
  have "?inv (pipe_start w0)" using assms(1-3) by (simp add: pipe_inv_def pipe_start_def)
  from on_actor.pipe.steps_inv [OF assms(4) this] show ?thesis by simp
qed

text \<open>
  While a relay copies, in every interleaving of its two directions, nothing is lost,
  repeated, reordered or made up: the bytes the actor has delivered from the virtual
  connection are those written upstream, and those received from upstream are those handed to
  the connection's socket, but for the chunk a direction holds or the tail lost to its error.
  A write of nothing never ends a direction.
\<close>
theorem relay_copies_both_ways:
  assumes "aw_laws M T net queue cap rxq txq" and "stream_laws S sent rcvd" and "aw_idle queue w0"
    and "(pipe_step (actor_vconn M T net) S (connect D S px) vc)\<^sup>*\<^sup>* (pipe_start w0) p"
    and "pipe_pc p = PipeCopy u d"
  shows "\<exists>up s ugot uput dgot dput. connect D S px (destination vc) = Inr up \<and> pipe_upstream p = Some s \<and>
    up_copied u ugot uput \<and> delivered (aw_log (pipe_world p)) = delivered (aw_log w0) @ ugot \<and>
      sent s = sent (up_stream up) @ uput \<and>
    down_copied d dgot dput \<and> rcvd s = rcvd (up_stream up) @ dgot \<and>
      txq (aw_sock (pipe_world p)) = txq (aw_sock w0) @ dput \<and>
    d \<noteq> DownDone (Inl WriteZero)"
proof -
  from relay_inv [OF assms(1-4)] assms(5) obtain up s where up: "connect D S px (destination vc) = Inr up"
    "pipe_upstream p = Some s" "both_copied aw_rd (aw_wr txq) sent rcvd w0 (up_stream up) u d (pipe_world p) s"
    by (auto simp: pipe_inv_def)
  then obtain ugot uput dgot dput where copied: "up_copied u ugot uput" "aw_rd (pipe_world p) = aw_rd w0 @ ugot"
    "sent s = sent (up_stream up) @ uput" "down_copied d dgot dput" "rcvd s = rcvd (up_stream up) @ dgot"
    "aw_wr txq (pipe_world p) = aw_wr txq w0 @ dput" unfolding both_copied_def by blast
  from copied(4) have "d \<noteq> DownDone (Inl WriteZero)" by auto
  with up copied show ?thesis unfolding aw_rd_def aw_wr_def by blast
qed

text \<open>
  When both directions of a relay have ended without error, everything has been copied:
  the bytes delivered from the virtual connection are exactly those written upstream, and the
  bytes received from upstream exactly those handed to the connection's socket.
\<close>
theorem relay_finished_complete:
  assumes "aw_laws M T net queue cap rxq txq" and "stream_laws S sent rcvd" and "aw_idle queue w0"
    and "(pipe_step (actor_vconn M T net) S (connect D S px) vc)\<^sup>*\<^sup>* (pipe_start w0) p"
    and "pipe_pc p = PipeClose (Inr ()) (Inr ())"
  shows "\<exists>up s out inp. connect D S px (destination vc) = Inr up \<and> pipe_upstream p = Some s \<and>
    delivered (aw_log (pipe_world p)) = delivered (aw_log w0) @ out \<and> sent s = sent (up_stream up) @ out \<and>
    rcvd s = rcvd (up_stream up) @ inp \<and> txq (aw_sock (pipe_world p)) = txq (aw_sock w0) @ inp"
  using relay_inv [OF assms(1-4)] assms(5)
  by (auto simp: pipe_inv_def both_copied_def aw_rd_def aw_wr_def)

text \<open>
  A relay that ends with an error has failed to dial, and the error names the destination;
  the virtual connection is as it was handed over, with nothing read from it.
\<close>
theorem relay_dial_failure:
  assumes "aw_laws M T net queue cap rxq txq" and "stream_laws S sent rcvd" and "aw_idle queue w0"
    and "(pipe_step (actor_vconn M T net) S (connect D S px) vc)\<^sup>*\<^sup>* (pipe_start w0) p"
    and "pipe_pc p = PipeDone (Inl e)"
  shows "\<exists>ce. connect D S px (destination vc) = Inl ce \<and> e = DialProxy (destination vc) ce \<and>
    pipe_world p = w0 \<and> pipe_upstream p = None"
  using relay_inv [OF assms(1-4)] assms(5) by (auto simp: pipe_inv_def)

section \<open>Witnesses\<close>

text \<open>
  A client that has sent four bytes and finished, with room for four in return, relayed to a
  server that has two bytes for it.
\<close>

definition demo_world :: "(nat conn_cmd buf_chan, sim_socket) actor_world" where
  "demo_world = \<lparr>aw_conn = demo_conn [], aw_sock = demo_sock\<lparr>sim_state := CloseWait\<rparr>, aw_log = [], aw_next = 0\<rparr>"

definition demo_vconn :: "unit vconn" where
  "demo_vconn = vconn_new \<lparr>src = demo_target, dst = demo_target\<rparr> ()"

abbreviation demo_ops :: "((nat conn_cmd buf_chan, sim_socket) actor_world, unit, nat) vconn_ops" where
  "demo_ops \<equiv> actor_vconn buf_mpsc sim_tcp id"

lemma demo_aw_laws: "aw_laws buf_mpsc sim_tcp id bc_queue bc_cap sim_rx sim_tx"
  by (simp add: aw_laws_def buf_mpsc_laws sim_tcp_laws)

lemma demo_world_idle: "aw_idle bc_queue demo_world"
  by (simp add: aw_idle_def demo_world_def demo_conn_def conn_state_new_def)

lemmas relay_eval = vconn_calls request_def actor_vconn_def actor_turn_def await_reply.simps conn_eval
  copy_vconn_to_def copy_to_vconn_def up_io_def down_io_def RELAY_BUF_def script_stream_def demo_vconn_def demo_world_def

definition demo_up :: script where
  "demo_up = \<lparr>to_read = [104, 105], written = [5, 1, 0, 5, 1, 0, 1, 203, 0, 113, 7, 1, 187],
     was_read = [5, 0, 5, 0, 0, 1, 0, 0, 0, 0, 0, 0]\<rparr>"

definition demo_world_up :: "(nat conn_cmd buf_chan, sim_socket) actor_world" where
  "demo_world_up = demo_world\<lparr>aw_sock := demo_sock\<lparr>sim_state := CloseWait, sim_rx := []\<rparr>,
     aw_log := [ReadReply 0 (Inr [112, 105, 110, 103]), ReadReply 1 (Inr [])], aw_next := 2\<rparr>"

lemma demo_up_run:
  "copy_vconn_to_steps demo_ops script_stream demo_vconn (Suc (Suc (Suc (Suc 0)))) (Some (UpRead, demo_world, demo_up)) =
     Some (UpDone (Inr ()), demo_world_up, demo_up\<lparr>written := written demo_up @ [112, 105, 110, 103]\<rparr>)"
  by (simp add: relay_eval demo_world_up_def)

definition demo_up_end :: script where
  "demo_up_end = demo_up\<lparr>written := written demo_up @ [112, 105, 110, 103], to_read := [],
     was_read := was_read demo_up @ [104, 105]\<rparr>"

definition demo_world_end :: "(nat conn_cmd buf_chan, sim_socket) actor_world" where
  "demo_world_end = demo_world_up\<lparr>
     aw_sock := demo_sock\<lparr>sim_state := LastAck, sim_rx := [], sim_tx := [104, 105], sim_room := 2\<rparr>,
     aw_log := aw_log demo_world_up @ [WriteReply 2 (Inr 2), UnitReply 3 (Inr ())], aw_next := 4\<rparr>"

lemma demo_down_run:
  "copy_to_vconn_steps demo_ops script_stream demo_vconn (Suc (Suc (Suc (Suc (Suc 0)))))
     (Some (DownRead, demo_world_up, demo_up\<lparr>written := written demo_up @ [112, 105, 110, 103]\<rparr>)) =
   Some (DownDone (Inr ()), demo_world_end, demo_up_end)"
  by (simp add: relay_eval demo_world_up_def demo_world_end_def demo_up_end_def demo_up_def)

abbreviation demo_dialer :: "socket_addr \<Rightarrow> script_error connect_error + script upstream" where
  "demo_dialer \<equiv> connect (demo_dial demo_plain) script_stream demo_proxy"

abbreviation demo_pipe_step where
  "demo_pipe_step \<equiv> pipe_step demo_ops script_stream demo_dialer demo_vconn"

lemma demo_pipe_dialled:
  "demo_pipe_step (pipe_start demo_world)
     \<lparr>pipe_pc = PipeCopy UpRead DownRead, pipe_world = demo_world, pipe_upstream = Some demo_up\<rparr>"
proof -
  have "demo_dialer (destination demo_vconn) = Inr \<lparr>up_stream = demo_up,
      up_local_addr = \<lparr>sa_ip = V4 0xCB007107, sa_port = 0\<rparr>\<rparr>"
    using demo_connect_run by (simp add: destination_def demo_vconn_def vconn_new_def demo_up_def)
  from pipe_step.dial_ok [where p = "pipe_start demo_world" and dial = demo_dialer and vc = demo_vconn, OF _ this]
  show ?thesis by (simp add: pipe_start_def)
qed

lemma demo_pipe_copied:
  "demo_pipe_step\<^sup>*\<^sup>* (pipe_start demo_world)
     \<lparr>pipe_pc = PipeCopy (UpDone (Inr ())) DownRead, pipe_world = demo_world_up,
       pipe_upstream = Some (demo_up\<lparr>written := written demo_up @ [112, 105, 110, 103]\<rparr>)\<rparr>"
  by (rule converse_rtranclp_into_rtranclp [OF demo_pipe_dialled copy_up_run [OF demo_up_run]])

lemma demo_pipe_joined:
  "demo_pipe_step\<^sup>*\<^sup>* (pipe_start demo_world)
     \<lparr>pipe_pc = PipeClose (Inr ()) (Inr ()), pipe_world = demo_world_end, pipe_upstream = Some demo_up_end\<rparr>"
proof -
  let ?p = "\<lparr>pipe_pc = PipeCopy (UpDone (Inr ())) (DownDone (Inr ())), pipe_world = demo_world_end,
    pipe_upstream = Some demo_up_end\<rparr>"
  have "demo_pipe_step\<^sup>*\<^sup>* (pipe_start demo_world) ?p"
    by (rule rtranclp_trans [OF demo_pipe_copied copy_down_run [OF demo_down_run]])
  moreover from pipe_step.joined [of ?p "Inr ()" "Inr ()" demo_ops script_stream demo_dialer demo_vconn]
  have "demo_pipe_step ?p \<lparr>pipe_pc = PipeClose (Inr ()) (Inr ()), pipe_world = demo_world_end,
      pipe_upstream = Some demo_up_end\<rparr>" by simp
  ultimately show ?thesis by (rule rtranclp.rtrancl_into_rtrancl)
qed

theorem relay_copies_both_ways_witness:
  "\<exists>up. demo_dialer (destination demo_vconn) = Inr up \<and>
     delivered (aw_log demo_world_up) = [112, 105, 110, 103] \<and>
     written demo_up @ [112, 105, 110, 103] = written (up_stream up) @ [112, 105, 110, 103]"
  using relay_copies_both_ways [OF demo_aw_laws script_stream_laws demo_world_idle demo_pipe_copied]
  by (auto simp: demo_world_def demo_world_up_def)

theorem relay_finished_complete_witness:
  "\<exists>up out inp. demo_dialer (destination demo_vconn) = Inr up \<and>
     delivered (aw_log demo_world_end) = out \<and> written demo_up_end = written (up_stream up) @ out \<and>
     was_read demo_up_end = was_read (up_stream up) @ inp \<and> sim_tx (aw_sock demo_world_end) = inp"
  using relay_finished_complete [OF demo_aw_laws script_stream_laws demo_world_idle demo_pipe_joined]
  by (auto simp: demo_world_def demo_sock_def)

text \<open>A proxy that cannot be reached.\<close>

definition demo_unreachable :: "(script, script_error) dial_ops" where
  "demo_unreachable = \<lparr>tcp_connect = (\<lambda>_. Inl UnexpectedEof), set_nodelay = id, local_addr = (\<lambda>_. Inl UnexpectedEof)\<rparr>"

theorem relay_dial_failure_witness:
  "\<exists>p ce. (pipe_step demo_ops script_stream (connect demo_unreachable script_stream demo_proxy) demo_vconn)\<^sup>*\<^sup>*
       (pipe_start demo_world) p \<and> pipe_pc p = PipeDone (Inl (DialProxy (destination demo_vconn) ce)) \<and>
     pipe_world p = demo_world"
proof -
  let ?dial = "connect demo_unreachable script_stream demo_proxy"
  obtain ce where ce: "?dial (destination demo_vconn) = Inl ce"
    by (simp add: connect_def demo_unreachable_def Let_def)
  let ?p = "(pipe_start demo_world)\<lparr>pipe_pc := PipeDone (Inl (DialProxy (destination demo_vconn) ce))\<rparr>"
  have "pipe_step demo_ops script_stream ?dial demo_vconn (pipe_start demo_world) ?p"
    by (rule pipe_step.dial_err) (simp_all add: ce, simp add: pipe_start_def)
  then have run: "(pipe_step demo_ops script_stream ?dial demo_vconn)\<^sup>*\<^sup>* (pipe_start demo_world) ?p" ..
  from relay_dial_failure [OF demo_aw_laws script_stream_laws demo_world_idle run,
      of "DialProxy (destination demo_vconn) ce"] run
  show ?thesis by auto
qed

end
