(* ===== verification/Relay_Tasks.thy ===== *)
theory Relay_Tasks
  imports Relay_Link Vconn_Actor
begin

text \<open>
  The relay of \<open>src/relay.rs\<close> as it runs: its two directions suspend at every await, so a
  read and a write wait in the actor at the same time while the actor takes its turns, the
  network and the upstream's other end move, and the actor may stop at any moment. Shown: in
  every such interleaving bytes are copied in order, each once; no direction is ever told that
  the other is in its way; of the actor's answers only those the network holds up keep a
  direction waiting; a chunk takes at most one write call per byte; and a relay whose actor is
  gone waits for nothing but its upstream.
\<close>

section \<open>The tasks\<close>

text \<open>
  \<open>tk_up\<close> and \<open>tk_down\<close> are the reply channels the two directions await; the final
  close uses the second.
\<close>

record ('c, 'k, 's, 'e) relay_tasks =
  tk_pc :: "'e pipe_pc"
  tk_up :: "nat option"
  tk_down :: "nat option"
  tk_link :: "('c, 'k) link"
  tk_stream :: "'s option"

definition tasks_start :: "('c, 'k) link \<Rightarrow> ('c, 'k, 's, 'e) relay_tasks" where
  "tasks_start lk = \<lparr>tk_pc = PipeDial, tk_up = None, tk_down = None, tk_link = lk, tk_stream = None\<rparr>"

text \<open>
  The steps of the relay's own task. An await on the upstream is over only when the upstream is
  ready, and the dial whenever it is; until then the relay is where it was.
\<close>

inductive relay_step ::
  "('c, nat conn_cmd) mpsc_ops \<Rightarrow> ('s, 'e) stream_ops \<Rightarrow> (socket_addr \<Rightarrow> 'e connect_error + 's upstream) \<Rightarrow>
   'tx vconn \<Rightarrow> ('c, 'k, 's, 'e) relay_tasks \<Rightarrow> ('c, 'k, 's, 'e) relay_tasks \<Rightarrow> bool"
  for M S dial vc where
  dialled: "tk_pc p = PipeDial \<Longrightarrow> dial (destination vc) = Inr u \<Longrightarrow>
     relay_step M S dial vc p (p\<lparr>tk_pc := PipeCopy UpRead DownRead, tk_stream := Some (up_stream u)\<rparr>)"
| undialled: "tk_pc p = PipeDial \<Longrightarrow> dial (destination vc) = Inl e \<Longrightarrow>
     relay_step M S dial vc p (p\<lparr>tk_pc := PipeDone (Inl (DialProxy (destination vc) e))\<rparr>)"
| up_send: "tk_pc p = PipeCopy UpRead d \<Longrightarrow> tk_up p = None \<Longrightarrow>
     begin_call M (Read RELAY_BUF) (tk_link p) = Some (Inr n, lk) \<Longrightarrow>
     relay_step M S dial vc p (p\<lparr>tk_up := Some n, tk_link := lk\<rparr>)"
| up_refused: "tk_pc p = PipeCopy UpRead d \<Longrightarrow> tk_up p = None \<Longrightarrow>
     begin_call M (Read RELAY_BUF) (tk_link p) = Some (Inl e, lk) \<Longrightarrow>
     relay_step M S dial vc p (p\<lparr>tk_pc := PipeCopy (up_resume (Inl e)) d, tk_link := lk\<rparr>)"
| up_reply: "tk_pc p = PipeCopy UpRead d \<Longrightarrow> tk_up p = Some n \<Longrightarrow>
     poll_call (find_read n) (tk_link p) = Some res \<Longrightarrow>
     relay_step M S dial vc p (p\<lparr>tk_pc := PipeCopy (up_resume res) d, tk_up := None\<rparr>)"
| up_writes: "tk_pc p = PipeCopy u d \<Longrightarrow> u = UpFlush \<or> (\<exists>bs. u = UpWrite bs) \<Longrightarrow> tk_stream p = Some s \<Longrightarrow>
     up_io S u s = (u', s') \<Longrightarrow> writable S s \<Longrightarrow>
     relay_step M S dial vc p (p\<lparr>tk_pc := PipeCopy u' d, tk_stream := Some s'\<rparr>)"
| down_reads: "tk_pc p = PipeCopy u d \<Longrightarrow> d = DownRead \<or> (\<exists>buf n. d = DownWrite buf n \<and> \<not> n < length buf) \<Longrightarrow>
     tk_stream p = Some s \<Longrightarrow> down_io S d s = (d', s') \<Longrightarrow> d = DownRead \<longrightarrow> readable S s \<Longrightarrow>
     relay_step M S dial vc p (p\<lparr>tk_pc := PipeCopy u d', tk_stream := Some s'\<rparr>)"
| down_send: "tk_pc p = PipeCopy u d \<Longrightarrow> tk_down p = None \<Longrightarrow> down_request d = Some mk \<Longrightarrow>
     begin_call M mk (tk_link p) = Some (Inr n, lk) \<Longrightarrow>
     relay_step M S dial vc p (p\<lparr>tk_down := Some n, tk_link := lk\<rparr>)"
| write_refused: "tk_pc p = PipeCopy u (DownWrite buf n) \<Longrightarrow> tk_down p = None \<Longrightarrow> n < length buf \<Longrightarrow>
     begin_call M (Write (drop n buf)) (tk_link p) = Some (Inl e, lk) \<Longrightarrow>
     relay_step M S dial vc p (p\<lparr>tk_pc := PipeCopy u (down_resume buf n (Inl e)), tk_link := lk\<rparr>)"
| write_reply: "tk_pc p = PipeCopy u (DownWrite buf n) \<Longrightarrow> tk_down p = Some r \<Longrightarrow>
     poll_call (find_write r) (tk_link p) = Some res \<Longrightarrow>
     relay_step M S dial vc p (p\<lparr>tk_pc := PipeCopy u (down_resume buf n res), tk_down := None\<rparr>)"
| shut_refused: "tk_pc p = PipeCopy u DownClose \<Longrightarrow> tk_down p = None \<Longrightarrow>
     begin_call M CloseWrite (tk_link p) = Some (Inl e, lk) \<Longrightarrow>
     relay_step M S dial vc p (p\<lparr>tk_pc := PipeCopy u (DownDone (Inr ())), tk_link := lk\<rparr>)"
| shut_reply: "tk_pc p = PipeCopy u DownClose \<Longrightarrow> tk_down p = Some r \<Longrightarrow>
     poll_call (find_unit r) (tk_link p) = Some res \<Longrightarrow>
     relay_step M S dial vc p (p\<lparr>tk_pc := PipeCopy u (DownDone (Inr ())), tk_down := None\<rparr>)"
| joins: "tk_pc p = PipeCopy (UpDone ur) (DownDone dr) \<Longrightarrow>
     relay_step M S dial vc p (p\<lparr>tk_pc := PipeClose ur dr\<rparr>)"
| close_send: "tk_pc p = PipeClose ur dr \<Longrightarrow> tk_down p = None \<Longrightarrow>
     begin_call M Close (tk_link p) = Some (Inr n, lk) \<Longrightarrow>
     relay_step M S dial vc p (p\<lparr>tk_down := Some n, tk_link := lk\<rparr>)"
| close_refused: "tk_pc p = PipeClose ur dr \<Longrightarrow> tk_down p = None \<Longrightarrow>
     begin_call M Close (tk_link p) = Some (Inl e, lk) \<Longrightarrow>
     relay_step M S dial vc p (p\<lparr>tk_pc := PipeDone (Inr ()), tk_link := lk, tk_stream := None\<rparr>)"
| close_reply: "tk_pc p = PipeClose ur dr \<Longrightarrow> tk_down p = Some r \<Longrightarrow>
     poll_call (find_unit r) (tk_link p) = Some res \<Longrightarrow>
     relay_step M S dial vc p (p\<lparr>tk_pc := PipeDone (Inr ()), tk_down := None, tk_stream := None\<rparr>)"

text \<open>
  The steps of the actor and of the network. \<open>N\<close> is what a poll may do to the socket. The
  actor drops the connection when it stops, or in a turn that finds every \<open>VConn\<close> gone,
  which is when the relay has ended.
\<close>

inductive actor_step ::
  "('c, nat conn_cmd) mpsc_ops \<Rightarrow> 'k tcp_ops \<Rightarrow> ('k \<Rightarrow> 'k \<Rightarrow> bool) \<Rightarrow>
   ('c, 'k, 's, 'e) relay_tasks \<Rightarrow> ('c, 'k, 's, 'e) relay_tasks \<Rightarrow> bool"
  for M T N where
  network: "N (lk_sock (tk_link p)) k \<Longrightarrow> actor_step M T N p (p\<lparr>tk_link := (tk_link p)\<lparr>lk_sock := k\<rparr>\<rparr>)"
| turns: "link_turn M T (tk_link p) = Some lk \<Longrightarrow> actor_step M T N p (p\<lparr>tk_link := lk\<rparr>)"
| stops: "actor_step M T N p (p\<lparr>tk_link := (tk_link p)\<lparr>lk_conn := None\<rparr>\<rparr>)"
| reaps: "tk_pc p = PipeDone r \<Longrightarrow> link_reap M T (tk_link p) = Some lk \<Longrightarrow> actor_step M T N p (p\<lparr>tk_link := lk\<rparr>)"

inductive task_step ::
  "('c, nat conn_cmd) mpsc_ops \<Rightarrow> 'k tcp_ops \<Rightarrow> ('k \<Rightarrow> 'k \<Rightarrow> bool) \<Rightarrow> ('s, 'e) stream_ops \<Rightarrow>
   (socket_addr \<Rightarrow> 'e connect_error + 's upstream) \<Rightarrow> 'tx vconn \<Rightarrow>
   ('c, 'k, 's, 'e) relay_tasks \<Rightarrow> ('c, 'k, 's, 'e) relay_tasks \<Rightarrow> bool"
  for M T N S dial vc where
  by_relay: "relay_step M S dial vc p p' \<Longrightarrow> task_step M T N S dial vc p p'"
| by_actor: "actor_step M T N p p' \<Longrightarrow> task_step M T N S dial vc p p'"
| by_peer: "tk_stream p = Some s \<Longrightarrow> peer_moves S s s' \<Longrightarrow> task_step M T N S dial vc p (p\<lparr>tk_stream := Some s'\<rparr>)"

inductive_cases relay_step_cases: "relay_step M S dial vc p p'"
inductive_cases actor_step_cases: "actor_step M T N p p'"

section \<open>The invariant\<close>

text \<open>What the directions await of the actor, and the write among it.\<close>

fun down_cmd :: "'e pipe_pc \<Rightarrow> nat \<Rightarrow> nat conn_cmd" where
  "down_cmd (PipeCopy u (DownWrite buf m)) n = Write (drop m buf) n"
| "down_cmd (PipeCopy u d) n = CloseWrite n"
| "down_cmd pc n = Close n"

definition awaited :: "('c, 'k, 's, 'e) relay_tasks \<Rightarrow> nat conn_cmd multiset" where
  "awaited p = (case tk_up p of None \<Rightarrow> {#} | Some n \<Rightarrow> {#Read RELAY_BUF n#}) +
     (case tk_down p of None \<Rightarrow> {#} | Some n \<Rightarrow> {#down_cmd (tk_pc p) n#})"

definition write_call :: "('c, 'k, 's, 'e) relay_tasks \<Rightarrow> (bytes \<times> nat) option" where
  "write_call p = (case (tk_pc p, tk_down p) of
     (PipeCopy u (DownWrite buf m), Some n) \<Rightarrow> Some (drop m buf, n) | _ \<Rightarrow> None)"

lemma awaited_as: "reads_as (awaited p) (tk_up p)" "writes_as (awaited p) (write_call p)" "lone (awaited p)"
proof -
  have d: "\<not> is_read (down_cmd pc n)" for pc n by (induction pc n rule: down_cmd.induct) simp_all
  have w: "is_write (down_cmd pc n) \<longleftrightarrow> (\<exists>u buf m. pc = PipeCopy u (DownWrite buf m))" for pc n
    by (induction pc n rule: down_cmd.induct) simp_all
  show "reads_as (awaited p) (tk_up p)" by (auto simp: reads_as_def awaited_def d split: option.splits)
  show "writes_as (awaited p) (write_call p)"
    by (auto simp: writes_as_def awaited_def write_call_def w split: option.splits pipe_pc.splits down_pc.splits)
  show "lone (awaited p)" by (auto simp: lone_def awaited_def d split: option.splits)
qed

text \<open>The errors a direction may end with.\<close>

fun fair_error :: "'e relay_error \<Rightarrow> bool" where
  "fair_error (VConnErr e) \<longleftrightarrow> e = Closed \<or> e = ActorGone"
| "fair_error (UpstreamIo e) \<longleftrightarrow> True"
| "fair_error _ \<longleftrightarrow> False"

lemma fair_errorD: "fair_error e \<Longrightarrow> e = VConnErr Closed \<or> e = VConnErr ActorGone \<or> (\<exists>io. e = UpstreamIo io)"
  by (cases e) auto

fun up_fair :: "'e up_pc \<Rightarrow> bool" where
  "up_fair (UpDone (Inl e)) = fair_error e"
| "up_fair _ = True"

fun down_fair :: "'e down_pc \<Rightarrow> bool" where
  "down_fair (DownDone (Inl e)) = fair_error e"
| "down_fair _ = True"

text \<open>
  The bytes: \<open>a\<close> has been replied to the read under way and \<open>b\<close> taken from the write
  under way, and the direction concerned does not know yet.
\<close>

definition up_moved ::
  "('s \<Rightarrow> bytes) \<Rightarrow> bytes \<Rightarrow> 's \<Rightarrow> 'e up_pc \<Rightarrow> bytes \<Rightarrow> ('c, 'k) link \<Rightarrow> 's \<Rightarrow> bool" where
  "up_moved sent rd0 s0 u a lk s \<longleftrightarrow>
     (\<exists>got put. up_copied u got put \<and> delivered (lk_replies lk) = rd0 @ got @ a \<and> sent s = sent s0 @ put)"

definition down_moved ::
  "('s \<Rightarrow> bytes) \<Rightarrow> ('k \<Rightarrow> bytes) \<Rightarrow> bytes \<Rightarrow> 's \<Rightarrow> 'e down_pc \<Rightarrow> bytes \<Rightarrow> ('c, 'k) link \<Rightarrow> 's \<Rightarrow> bool" where
  "down_moved rcvd txq tx0 s0 d b lk s \<longleftrightarrow>
     (\<exists>got put. down_copied d got put \<and> rcvd s = rcvd s0 @ got \<and> txq (lk_sock lk) = tx0 @ put @ b)"

definition tasks_inv ::
  "('c \<Rightarrow> nat conn_cmd list) \<Rightarrow> ('k \<Rightarrow> bytes) \<Rightarrow> ('s \<Rightarrow> bytes) \<Rightarrow> ('s \<Rightarrow> bytes) \<Rightarrow>
   (socket_addr \<Rightarrow> 'e connect_error + 's upstream) \<Rightarrow> 'tx vconn \<Rightarrow> bytes \<Rightarrow> bytes \<Rightarrow>
   ('c, 'k, 's, 'e) relay_tasks \<Rightarrow> bool" where
  "tasks_inv queue txq sent rcvd dial vc rd0 tx0 p \<longleftrightarrow> link_inv queue (awaited p) (tk_link p) \<and>
     (case tk_pc p of
        PipeDial \<Rightarrow> tk_up p = None \<and> tk_down p = None \<and> tk_stream p = None \<and>
          delivered (lk_replies (tk_link p)) = rd0 \<and> txq (lk_sock (tk_link p)) = tx0
      | PipeCopy u d \<Rightarrow> (tk_up p = None \<or> u = UpRead) \<and> (tk_down p = None \<or> d = DownClose \<or>
            (\<exists>buf n. d = DownWrite buf n \<and> n < length buf)) \<and> up_fair u \<and> down_fair d \<and>
          (\<exists>up s. dial (destination vc) = Inr up \<and> tk_stream p = Some s \<and>
             up_moved sent rd0 (up_stream up) u (unread (tk_up p) (tk_link p)) (tk_link p) s \<and>
             down_moved rcvd txq tx0 (up_stream up) d (untold (write_call p) (tk_link p)) (tk_link p) s)
      | PipeClose ur dr \<Rightarrow> tk_up p = None \<and> up_fair (UpDone ur) \<and> down_fair (DownDone dr) \<and>
          (\<exists>up s. dial (destination vc) = Inr up \<and> tk_stream p = Some s \<and>
             up_moved sent rd0 (up_stream up) (UpDone ur) [] (tk_link p) s \<and>
             down_moved rcvd txq tx0 (up_stream up) (DownDone dr) [] (tk_link p) s)
      | PipeDone r \<Rightarrow> tk_up p = None \<and> tk_down p = None \<and> tk_stream p = None \<and>
          (case r of
             Inr _ \<Rightarrow> \<exists>up. dial (destination vc) = Inr up
           | Inl e \<Rightarrow> delivered (lk_replies (tk_link p)) = rd0 \<and> txq (lk_sock (tk_link p)) = tx0 \<and>
               (\<exists>ce. dial (destination vc) = Inl ce \<and> e = DialProxy (destination vc) ce)))"

section \<open>What moves\<close>

lemma up_moved_cong: "lk_replies lk' = lk_replies lk \<Longrightarrow> up_moved sent rd0 s0 u a lk' s = up_moved sent rd0 s0 u a lk s"
  and down_moved_cong: "txq (lk_sock lk') = txq (lk_sock lk) \<Longrightarrow>
    down_moved rcvd txq tx0 s0 d b lk' s = down_moved rcvd txq tx0 s0 d b lk s"
  by (simp_all add: up_moved_def down_moved_def)

lemma up_moved_resume:
  assumes "up_moved sent rd0 s0 UpRead (unread (Some n) lk) lk s"
    and "find_read n (lk_replies lk) = Some res \<or> find_read n (lk_replies lk) = None \<and> res = Inl e"
  shows "up_moved sent rd0 s0 (up_resume res) [] lk s"
  using assms by (cases res) (auto simp: up_moved_def unread_def)

lemma up_moved_io:
  assumes "stream_laws S sent rcvd" and "up_moved sent rd0 s0 u a lk s" and "up_io S u s = (u', s')"
  shows "up_moved sent rd0 s0 u' a lk s' \<and> rcvd s' = rcvd s"
  using up_io_copied [OF assms(1) _ _ assms(3)] assms(2) unfolding up_moved_def by metis

lemma down_moved_resume:
  assumes "down_moved rcvd txq tx0 s0 (DownWrite buf m) (untold (Some (drop m buf, n)) lk) lk s" and "m < length buf"
    and "find_write n (lk_replies lk) = Some res \<and> answers (Write (drop m buf) n) (WriteReply n res) \<or>
      find_write n (lk_replies lk) = None \<and> res = Inl e"
  shows "down_moved rcvd txq tx0 s0 (down_resume buf m res) [] lk s"
proof -
  from assms(1) obtain got put where mv: "down_copied (DownWrite buf m) got put" "rcvd s = rcvd s0 @ got"
    "txq (lk_sock lk) = tx0 @ put @ untold (Some (drop m buf, n)) lk" by (auto simp: down_moved_def)
  show ?thesis
  proof (cases res)
    case (Inl e')
    with mv assms(3) show ?thesis
      using down_resume_copied(1) [OF mv(1)] by (auto simp: down_moved_def untold_def)
  next
    case (Inr k)
    with assms(2,3) have k: "k \<noteq> 0" "k \<le> length (drop m buf)" "untold (Some (drop m buf, n)) lk = take k (drop m buf)"
      by (auto simp: untold_def)
    from down_resume_copied(2) [OF mv(1) assms(2) k(1,2)] mv(2,3) k(3) Inr show ?thesis
      unfolding down_moved_def by (metis append.right_neutral append.assoc)
  qed
qed

lemma down_moved_io:
  assumes "stream_laws S sent rcvd" and "down_moved rcvd txq tx0 s0 d b lk s" and "down_io S d s = (d', s')"
  shows "down_moved rcvd txq tx0 s0 d' b lk s' \<and> sent s' = sent s"
  using down_io_copied [OF assms(1) _ _ assms(3)] assms(2) unfolding down_moved_def by metis

lemma moved_frame:
  "sent s' = sent s \<Longrightarrow> up_moved sent rd0 s0 u a lk s' = up_moved sent rd0 s0 u a lk s"
  "rcvd s' = rcvd s \<Longrightarrow> down_moved rcvd txq tx0 s0 d b lk s' = down_moved rcvd txq tx0 s0 d b lk s"
  by (simp_all add: up_moved_def down_moved_def)

lemma moved_turn:
  "lk_replies lk' = lk_replies lk @ new \<Longrightarrow> up_moved sent rd0 s0 u a lk s \<Longrightarrow> up_moved sent rd0 s0 u (a @ delivered new) lk' s"
  "txq (lk_sock lk') = txq (lk_sock lk) @ tk \<Longrightarrow> down_moved rcvd txq tx0 s0 d b lk s \<Longrightarrow>
     down_moved rcvd txq tx0 s0 d (b @ tk) lk' s"
  by (auto simp: up_moved_def down_moved_def delivered_append)

section \<open>The relay's steps keep the invariant\<close>

lemma write_call_None [simp]: "tk_down p = None \<Longrightarrow> write_call p = None"
  by (simp add: write_call_def split: pipe_pc.splits down_pc.splits)

lemma awaited_up: "tk_up p = None \<Longrightarrow> awaited (p\<lparr>tk_up := Some n, tk_link := lk\<rparr>) = add_mset (Read RELAY_BUF n) (awaited p)"
  and awaited_down: "tk_down p = None \<Longrightarrow>
    awaited (p\<lparr>tk_down := Some n, tk_link := lk\<rparr>) = add_mset (down_cmd (tk_pc p) n) (awaited p)"
  by (auto simp: awaited_def split: option.split)

lemma resume_fair:
  "answers (Read m n) (ReadReply n res) \<Longrightarrow> \<not> would_block (ReadReply n res) \<Longrightarrow> up_fair (up_resume res)"
  "answers (Write d n) (WriteReply n w) \<Longrightarrow> \<not> would_block (WriteReply n w) \<Longrightarrow> d \<noteq> [] \<Longrightarrow> down_fair (down_resume buf i w)"
  subgoal by (cases res) (auto split: vconn_error.splits)
  subgoal by (cases w) (auto split: vconn_error.splits)
  done

lemma up_send_inv:
  assumes M: "mpsc_laws M queue cap" and inv: "tasks_inv queue txq sent rcvd dial vc rd0 tx0 p"
    and pc: "tk_pc p = PipeCopy UpRead d" and up: "tk_up p = None"
    and call: "begin_call M (Read RELAY_BUF) (tk_link p) = Some (Inr n, lk)"
  shows "tasks_inv queue txq sent rcvd dial vc rd0 tx0 (p\<lparr>tk_up := Some n, tk_link := lk\<rparr>)"
proof -
  let ?p = "p\<lparr>tk_up := Some n, tk_link := lk\<rparr>"
  have "link_inv queue (awaited p) (tk_link p)" using inv by (simp add: tasks_inv_def)
  note sent = begin_call_sent [OF M this call cmd_id.simps(1) awaited_as(3) [of ?p, unfolded awaited_up [OF up]]]
  have wc: "write_call ?p = write_call p" by (simp add: write_call_def)
  have lk: "link_inv queue (awaited ?p) lk" "lk_replies lk = lk_replies (tk_link p)" "lk_sock lk = lk_sock (tk_link p)"
    "n \<notin> replied lk"
    unfolding awaited_up [OF up] replied_cong [OF sent(2)] by (fact sent)+
  from inv pc up show ?thesis
    by (auto simp: tasks_inv_def lk wc untold_cong [OF lk(2)] unread_fresh up_moved_cong [OF lk(2)]
        down_moved_cong [of txq lk "tk_link p"])
qed

lemma up_reply_inv:
  assumes inv: "tasks_inv queue txq sent rcvd dial vc rd0 tx0 p"
    and pc: "tk_pc p = PipeCopy UpRead d" and up: "tk_up p = Some n"
    and reply: "poll_call (find_read n) (tk_link p) = Some res"
  shows "tasks_inv queue txq sent rcvd dial vc rd0 tx0 (p\<lparr>tk_pc := PipeCopy (up_resume res) d, tk_up := None\<rparr>)"
proof -
  let ?p = "p\<lparr>tk_pc := PipeCopy (up_resume res) d, tk_up := None\<rparr>"
  have dc: "down_cmd (PipeCopy (up_resume res) d) m = down_cmd (PipeCopy UpRead d) m" for m by (cases d) simp_all
  have aw: "awaited p = add_mset (Read RELAY_BUF n) (awaited ?p)"
    using up pc by (auto simp: awaited_def dc split: option.split)
  have "link_inv queue (add_mset (Read RELAY_BUF n) (awaited ?p)) (tk_link p)" using inv aw by (simp add: tasks_inv_def)
  note got = poll_read [OF this reply, simplified]
  have wc: "write_call ?p = write_call p" using pc by (simp add: write_call_def split: down_pc.splits)
  have fair: "up_fair (up_resume res)" using got(2) resume_fair(1) by auto
  from got(2) have found: "find_read n (lk_replies (tk_link p)) = Some res \<or>
      find_read n (lk_replies (tk_link p)) = None \<and> res = Inl ActorGone" by blast
  from inv pc up got(1) fair wc show ?thesis
    by (auto simp: tasks_inv_def intro: up_moved_resume [OF _ found])
qed

lemma down_send_inv:
  assumes M: "mpsc_laws M queue cap" and inv: "tasks_inv queue txq sent rcvd dial vc rd0 tx0 p"
    and pc: "tk_pc p = PipeCopy u d \<and> down_request d = Some mk \<or> tk_pc p = PipeClose ur dr \<and> mk = Close"
    and down: "tk_down p = None" and call: "begin_call M mk (tk_link p) = Some (Inr n, lk)"
  shows "tasks_inv queue txq sent rcvd dial vc rd0 tx0 (p\<lparr>tk_down := Some n, tk_link := lk\<rparr>)"
proof -
  let ?p = "p\<lparr>tk_down := Some n, tk_link := lk\<rparr>"
  have mk: "mk n = down_cmd (tk_pc p) n" and id: "cmd_id (mk n) = n"
    using pc by (cases d; auto split: if_splits)+
  have one: "lone (add_mset (mk n) (awaited p))" using awaited_as(3) [of ?p] by (simp add: awaited_down [OF down] mk)
  have "link_inv queue (awaited p) (tk_link p)" using inv by (simp add: tasks_inv_def)
  note sent = begin_call_sent [OF M this call id one]
  have lk: "link_inv queue (awaited ?p) lk" "lk_replies lk = lk_replies (tk_link p)" "lk_sock lk = lk_sock (tk_link p)"
    "n \<notin> replied lk"
    unfolding awaited_down [OF down] mk [symmetric] replied_cong [OF sent(2)] by (fact sent)+
  have none: "untold (write_call ?p) lk = []"
    using lk(4) by (simp add: write_call_def untold_fresh split: pipe_pc.split down_pc.split)
  show ?thesis
    using inv pc down by (cases d)
      (auto simp: tasks_inv_def lk none unread_cong [OF lk(2)] up_moved_cong [OF lk(2)]
        down_moved_cong [of txq lk "tk_link p"] split: if_splits)
qed

lemma write_reply_inv:
  assumes inv: "tasks_inv queue txq sent rcvd dial vc rd0 tx0 p"
    and pc: "tk_pc p = PipeCopy u (DownWrite buf m)" and down: "tk_down p = Some n"
    and reply: "poll_call (find_write n) (tk_link p) = Some res"
  shows "tasks_inv queue txq sent rcvd dial vc rd0 tx0 (p\<lparr>tk_pc := PipeCopy u (down_resume buf m res), tk_down := None\<rparr>)"
proof -
  let ?p = "p\<lparr>tk_pc := PipeCopy u (down_resume buf m res), tk_down := None\<rparr>"
  have aw: "awaited p = add_mset (Write (drop m buf) n) (awaited ?p)" using down pc by (simp add: awaited_def)
  have wc: "write_call p = Some (drop m buf, n)" "write_call ?p = None"
    using pc down write_call_None [of ?p] by (simp_all add: write_call_def [of p])
  have "link_inv queue (add_mset (Write (drop m buf) n) (awaited ?p)) (tk_link p)" using inv aw by (simp add: tasks_inv_def)
  note got = poll_write [OF this reply, simplified]
  have m: "m < length buf" using inv pc down by (simp add: tasks_inv_def)
  have fair: "down_fair (down_resume buf m res)" using got(2) m resume_fair(2) [of "drop m buf" n res] by auto
  from got(2) have found: "find_write n (lk_replies (tk_link p)) = Some res \<and> answers (Write (drop m buf) n) (WriteReply n res) \<or>
      find_write n (lk_replies (tk_link p)) = None \<and> res = Inl ActorGone" by auto
  from inv pc down got(1) fair wc show ?thesis
    by (auto simp: tasks_inv_def intro: down_moved_resume [OF _ m found])
qed

lemma shut_reply_inv:
  assumes inv: "tasks_inv queue txq sent rcvd dial vc rd0 tx0 p"
    and pc: "tk_pc p = PipeCopy u DownClose" and down: "tk_down p = Some n"
    and reply: "poll_call (find_unit n) (tk_link p) = Some res"
  shows "tasks_inv queue txq sent rcvd dial vc rd0 tx0 (p\<lparr>tk_pc := PipeCopy u (DownDone (Inr ())), tk_down := None\<rparr>)"
proof -
  let ?p = "p\<lparr>tk_pc := PipeCopy u (DownDone (Inr ())), tk_down := None\<rparr>"
  have aw: "awaited p = add_mset (CloseWrite n) (awaited ?p)" using down pc by (simp add: awaited_def)
  have "link_inv queue (add_mset (CloseWrite n) (awaited ?p)) (tk_link p)" using inv aw by (simp add: tasks_inv_def)
  from poll_unit(1) [OF this reply] have "link_inv queue (awaited ?p) (tk_link p)" by simp
  moreover have "write_call p = None" using pc by (simp add: write_call_def)
  ultimately show ?thesis using inv pc down by (auto simp: tasks_inv_def down_moved_def)
qed

lemma close_reply_inv:
  assumes inv: "tasks_inv queue txq sent rcvd dial vc rd0 tx0 p"
    and pc: "tk_pc p = PipeClose ur dr" and down: "tk_down p = Some n"
    and reply: "poll_call (find_unit n) (tk_link p) = Some res"
  shows "tasks_inv queue txq sent rcvd dial vc rd0 tx0 (p\<lparr>tk_pc := PipeDone (Inr ()), tk_down := None, tk_stream := None\<rparr>)"
proof -
  let ?p = "p\<lparr>tk_pc := PipeDone (Inr ()), tk_down := None, tk_stream := None\<rparr>"
  have aw: "awaited p = add_mset (Close n) (awaited ?p)" using down pc by (simp add: awaited_def)
  have "link_inv queue (add_mset (Close n) (awaited ?p)) (tk_link p)" using inv aw by (simp add: tasks_inv_def)
  from poll_unit(1) [OF this reply] have "link_inv queue (awaited ?p) (tk_link p)" by simp
  then show ?thesis using inv pc by (auto simp: tasks_inv_def)
qed

text \<open>A step of one direction leaves alone what the other awaits.\<close>

lemma awaited_frame:
  "tk_pc p = PipeCopy u d \<Longrightarrow> tk_pc p' = PipeCopy u' d \<Longrightarrow> tk_up p' = tk_up p \<Longrightarrow> tk_down p' = tk_down p \<Longrightarrow>
   awaited p' = awaited p \<and> write_call p' = write_call p"
  "tk_down p = None \<Longrightarrow> tk_up p' = tk_up p \<Longrightarrow> tk_down p' = None \<Longrightarrow> awaited p' = awaited p \<and> write_call p' = write_call p"
proof -
  have "down_cmd (PipeCopy u' d) n = down_cmd (PipeCopy u d) n" for n by (cases d) simp_all
  then show "tk_pc p = PipeCopy u d \<Longrightarrow> tk_pc p' = PipeCopy u' d \<Longrightarrow> tk_up p' = tk_up p \<Longrightarrow> tk_down p' = tk_down p \<Longrightarrow>
      awaited p' = awaited p \<and> write_call p' = write_call p"
    by (auto simp: awaited_def write_call_def split: option.split down_pc.split)
qed (simp add: awaited_def)

lemma relay_step_inv:
  assumes M: "mpsc_laws M queue cap" and S: "stream_laws S sent rcvd"
    and inv: "tasks_inv queue txq sent rcvd dial vc rd0 tx0 p" and step: "relay_step M S dial vc p p'"
  shows "tasks_inv queue txq sent rcvd dial vc rd0 tx0 p'"
  using step
proof cases
  case (dialled u)
  with inv show ?thesis by (auto simp: tasks_inv_def awaited_def up_moved_def down_moved_def)
next
  case (undialled e)
  with inv show ?thesis by (auto simp: tasks_inv_def awaited_def)
next
  case (up_send d n lk)
  with up_send_inv [OF M inv] show ?thesis by blast
next
  case (up_reply d n res)
  with up_reply_inv [OF inv] show ?thesis by blast
next
  case (down_send u d mk n lk)
  with down_send_inv [OF M inv] show ?thesis by blast
next
  case (write_reply u buf n r res)
  with write_reply_inv [OF inv] show ?thesis by blast
next
  case (shut_reply u r res)
  with shut_reply_inv [OF inv] show ?thesis by blast
next
  case (close_send ur dr n lk)
  with down_send_inv [OF M inv] show ?thesis by blast
next
  case (close_reply ur dr r res)
  with close_reply_inv [OF inv] show ?thesis by blast
next
  case (up_refused d e lk)
  note fr = awaited_frame(1) [of p UpRead d p' "up_resume (Inl e)"]
  from up_refused begin_call_refused [OF up_refused(4)] fr inv show ?thesis
    by (auto simp: tasks_inv_def up_moved_def)
next
  case (up_writes u d s u' s')
  note fr = awaited_frame(1) [of p u d p' u']
  from up_writes inv have up: "tk_up p = None" by (auto simp: tasks_inv_def)
  have fair: "up_fair u'" using up_writes(3,5) by (auto simp: up_io_def split: prod.splits sum.splits)
  from up_writes inv obtain up where at: "dial (destination vc) = Inr up"
    "up_moved sent rd0 (up_stream up) u (unread (tk_up p) (tk_link p)) (tk_link p) s" by (auto simp: tasks_inv_def)
  note io = up_moved_io [OF S at(2) up_writes(5)]
  note same = moved_frame(2) [of rcvd s' s, OF conjunct2 [OF io]]
  from up_writes up fr fair inv at(1) io show ?thesis by (auto simp: tasks_inv_def same)
next
  case (down_reads u d s d' s')
  from down_reads inv have down: "tk_down p = None" by (auto simp: tasks_inv_def)
  note fr = awaited_frame(2) [OF down, of p']
  have fair: "down_fair d'" using down_reads(3,5) by (auto simp: down_io_def split: prod.splits sum.splits if_splits)
  from down_reads down inv obtain up where at: "dial (destination vc) = Inr up"
    "down_moved rcvd txq tx0 (up_stream up) d [] (tk_link p) s" by (auto simp: tasks_inv_def)
  note io = down_moved_io [OF S at(2) down_reads(5)]
  note same = moved_frame(1) [of sent s' s, OF conjunct2 [OF io]]
  from down_reads down fr fair inv at(1) io show ?thesis by (auto simp: tasks_inv_def same)
next
  case (write_refused u buf n e lk)
  note fr = awaited_frame(2) [OF write_refused(3), of p']
  from write_refused begin_call_refused [OF write_refused(5)] fr inv show ?thesis
    by (auto simp: tasks_inv_def down_moved_def)
next
  case (shut_refused u e lk)
  note fr = awaited_frame(2) [OF shut_refused(3), of p']
  from shut_refused begin_call_refused [OF shut_refused(4)] fr inv show ?thesis
    by (auto simp: tasks_inv_def down_moved_def)
next
  case (joins ur dr)
  from joins inv have idle: "tk_up p = None" "tk_down p = None" by (auto simp: tasks_inv_def)
  from joins idle awaited_frame(2) [OF idle(2), of p'] inv show ?thesis by (auto simp: tasks_inv_def)
next
  case (close_refused ur dr e lk)
  from close_refused begin_call_refused [OF close_refused(4)] awaited_frame(2) [OF close_refused(3), of p'] inv
  show ?thesis by (auto simp: tasks_inv_def)
qed

section \<open>The actor's steps keep the invariant\<close>

text \<open>What the network does to a socket: it does not touch the bytes handed over so far.\<close>

definition net_laws :: "('k \<Rightarrow> 'k \<Rightarrow> bool) \<Rightarrow> ('k \<Rightarrow> bytes) \<Rightarrow> bool" where
  "net_laws N txq \<longleftrightarrow> (\<forall>k k'. N k k' \<longrightarrow> txq k' = txq k)"

lemma link_inv_sock [simp]: "link_inv queue aw (lk\<lparr>lk_sock := k\<rparr>) = link_inv queue aw lk"
  and link_inv_gone: "link_inv queue aw lk \<Longrightarrow> link_inv queue aw (lk\<lparr>lk_conn := None\<rparr>)"
  by (simp_all add: link_inv_def replied_def)

lemma awaited_link [simp]:
  "awaited (p\<lparr>tk_link := lk\<rparr>) = awaited p" "write_call (p\<lparr>tk_link := lk\<rparr>) = write_call p"
  by (auto simp: awaited_def write_call_def split: option.split)

lemma frame_inv:
  assumes inv: "tasks_inv queue txq sent rcvd dial vc rd0 tx0 p"
    and lk: "link_inv queue (awaited p) lk" "lk_replies lk = lk_replies (tk_link p)" "txq (lk_sock lk) = txq (lk_sock (tk_link p))"
  shows "tasks_inv queue txq sent rcvd dial vc rd0 tx0 (p\<lparr>tk_link := lk\<rparr>)"
  using inv lk(1)
  by (simp add: tasks_inv_def unread_cong [OF lk(2)] untold_cong [OF lk(2)] up_moved_cong [OF lk(2)]
      down_moved_cong [of txq lk "tk_link p", OF lk(3)] lk(2,3) cong: pipe_pc.case_cong sum.case_cong)

lemma turn_inv:
  assumes M: "mpsc_laws M queue cap" and L: "tcp_laws T rxq txq"
    and inv: "tasks_inv queue txq sent rcvd dial vc rd0 tx0 p" and turn: "link_turn M T (tk_link p) = Some lk"
  shows "tasks_inv queue txq sent rcvd dial vc rd0 tx0 (p\<lparr>tk_link := lk\<rparr>)"
proof -
  have at: "link_inv queue (awaited p) (tk_link p)" using inv by (simp add: tasks_inv_def)
  from link_turn_inv [OF M L at turn] obtain ex where ex: "lk_replies lk = lk_replies (tk_link p) @ map snd ex"
    "\<forall>(c, rep) \<in> set ex. answers c rep" "mset (map fst ex) \<subseteq># {#c \<in># awaited p. cmd_id c \<notin> replied (tk_link p)#}"
    "txq (lk_sock lk) = txq (lk_sock (tk_link p)) @ all_taken ex" "link_inv queue (awaited p) lk" by metis
  note rd = turn_unread [OF at awaited_as(1) ex(1-3)] and wr = turn_untold [OF at awaited_as(2) ex(1-3)]
  have none: "delivered (map snd ex) = []" if "tk_up p = None" using rd that by simp
  have none': "all_taken ex = []" if "write_call p = None" using wr that by simp
  show ?thesis
  proof (cases "tk_pc p")
    case (PipeCopy u d)
    with inv ex(5) rd wr moved_turn(1) [OF ex(1)] moved_turn(2) [OF ex(4)] show ?thesis
      by (auto simp: tasks_inv_def)
  next
    case (PipeClose ur dr)
    then have "write_call p = None" by (simp add: write_call_def)
    with PipeClose inv ex(5) none none' moved_turn(1) [OF ex(1)] moved_turn(2) [OF ex(4)] show ?thesis
      by (auto simp: tasks_inv_def)
  qed (use inv ex none none' in \<open>auto simp: tasks_inv_def delivered_append split: sum.splits\<close>)
qed

lemma link_reap_turn:
  assumes "link_reap M T lk = Some lk'"
  obtains lk1 conn where "link_turn M T lk = Some lk1" "lk_conn lk1 = Some conn"
    "lk' = lk1\<lparr>lk_conn := None, lk_sock := tcp_abort T (lk_sock lk1), lk_replies := snd (fail_pending (conn, lk_replies lk1))\<rparr>"
proof -
  from assms obtain conn0 conn k log where sv: "lk_conn lk = Some conn0"
    "service M T (\<lambda>_ _. False) (conn0, lk_sock lk, lk_replies lk) = Some (conn, k, log)"
    and lk': "lk' = (case fail_pending (conn, log) of (_, log) \<Rightarrow> lk\<lparr>lk_conn := None, lk_sock := tcp_abort T k, lk_replies := log\<rparr>)"
    by (auto simp: link_reap_def split: option.splits)
  show thesis
    by (rule that [of "lk\<lparr>lk_conn := Some conn, lk_sock := k, lk_replies := log\<rparr>" conn])
      (use sv lk' in \<open>auto simp: link_turn_def split: prod.split\<close>)
qed

lemma reap_inv:
  assumes M: "mpsc_laws M queue cap" and L: "tcp_laws T rxq txq"
    and inv: "tasks_inv queue txq sent rcvd dial vc rd0 tx0 p" and pc: "tk_pc p = PipeDone r"
    and reap: "link_reap M T (tk_link p) = Some lk"
  shows "tasks_inv queue txq sent rcvd dial vc rd0 tx0 (p\<lparr>tk_link := lk\<rparr>)"
proof -
  from link_reap_turn [OF reap] obtain lk1 conn where lk1: "link_turn M T (tk_link p) = Some lk1" "lk_conn lk1 = Some conn"
    and lk: "lk = lk1\<lparr>lk_conn := None, lk_sock := tcp_abort T (lk_sock lk1),
      lk_replies := snd (fail_pending (conn, lk_replies lk1))\<rparr>" by metis
  note 1 = turn_inv [OF M L inv lk1(1)]
  have aw: "awaited p = {#}" using inv pc by (simp add: tasks_inv_def awaited_def)
  then have owed: "link_inv queue {#} lk1" using 1 by (simp add: tasks_inv_def)
  then have "waiting_cmds conn = {#}" using lk1(2) by (simp add: link_inv_def open_cmds_def)
  then have "snd (fail_pending (conn, lk_replies lk1)) = lk_replies lk1"
    by (auto simp: waiting_cmds_def fail_pending_def Let_def split: option.splits)
  then have same: "lk = (lk1\<lparr>lk_sock := tcp_abort T (lk_sock lk1)\<rparr>)\<lparr>lk_conn := None\<rparr>" by (simp add: lk)
  have "link_inv queue (awaited (p\<lparr>tk_link := lk1\<rparr>)) lk"
    unfolding same by (rule link_inv_gone) (use owed aw in simp)
  from frame_inv [OF 1 this] show ?thesis by (simp add: same tcp_abort_laws [OF L])
qed

lemma actor_step_inv:
  assumes M: "mpsc_laws M queue cap" and L: "tcp_laws T rxq txq" and N: "net_laws N txq"
    and inv: "tasks_inv queue txq sent rcvd dial vc rd0 tx0 p" and step: "actor_step M T N p p'"
  shows "tasks_inv queue txq sent rcvd dial vc rd0 tx0 p'"
proof -
  have at: "link_inv queue (awaited p) (tk_link p)" using inv by (simp add: tasks_inv_def)
  show ?thesis using step
  proof cases
    case (network k)
    with N at show ?thesis by (simp add: frame_inv [OF inv] net_laws_def)
  next
    case (turns lk)
    with turn_inv [OF M L inv] show ?thesis by blast
  next
    case stops
    with at show ?thesis by (simp add: frame_inv [OF inv] link_inv_gone)
  next
    case (reaps r lk)
    with reap_inv [OF M L inv] show ?thesis by blast
  qed
qed

lemma peer_inv:
  assumes S: "stream_laws S sent rcvd" and inv: "tasks_inv queue txq sent rcvd dial vc rd0 tx0 p"
    and moves: "tk_stream p = Some s" "peer_moves S s s'"
  shows "tasks_inv queue txq sent rcvd dial vc rd0 tx0 (p\<lparr>tk_stream := Some s'\<rparr>)"
proof -
  have aw: "awaited (p\<lparr>tk_stream := Some s'\<rparr>) = awaited p" "write_call (p\<lparr>tk_stream := Some s'\<rparr>) = write_call p"
    by (simp_all add: awaited_def write_call_def split: option.split)
  note same = peer_moves_frame [OF S moves(2)]
  from inv moves(1) show ?thesis
    by (auto simp: tasks_inv_def aw moved_frame [of sent s' s, OF conjunct2 [OF same]]
        moved_frame(2) [of rcvd s' s, OF conjunct1 [OF same]] split: pipe_pc.splits)
qed

interpretation tasks: transition_system "task_step M T N S dial vc"
    "\<lambda>p. mpsc_laws M queue cap \<and> tcp_laws T rxq txq \<and> net_laws N txq \<and> stream_laws S sent rcvd \<and>
       tasks_inv queue txq sent rcvd dial vc rd0 tx0 p"
  for M T N S dial vc queue cap rxq txq sent rcvd rd0 tx0
  by unfold_locales (auto elim!: task_step.cases intro: relay_step_inv actor_step_inv peer_inv)

section \<open>Reachable states\<close>

text \<open>A connection as \<open>try_accept\<close> hands it over: a new \<open>ConnState\<close> on an established socket.\<close>

definition link_new :: "('c, nat conn_cmd) mpsc_ops \<Rightarrow> 'k \<Rightarrow> ('c, 'k) link" where
  "link_new M k = \<lparr>lk_conn = Some (conn_state_new (chan_new M 32)), lk_sock = k, lk_replies = [], lk_next = 0\<rparr>"

definition task_laws ::
  "('c, nat conn_cmd) mpsc_ops \<Rightarrow> 'k tcp_ops \<Rightarrow> ('k \<Rightarrow> 'k \<Rightarrow> bool) \<Rightarrow> ('s, 'e) stream_ops \<Rightarrow>
   ('c \<Rightarrow> nat conn_cmd list) \<Rightarrow> ('c \<Rightarrow> nat) \<Rightarrow> ('k \<Rightarrow> bytes) \<Rightarrow> ('k \<Rightarrow> bytes) \<Rightarrow> ('s \<Rightarrow> bytes) \<Rightarrow> ('s \<Rightarrow> bytes) \<Rightarrow> bool" where
  "task_laws M T N S queue cap rxq txq sent rcvd \<longleftrightarrow>
     mpsc_laws M queue cap \<and> tcp_laws T rxq txq \<and> net_laws N txq \<and> stream_laws S sent rcvd"

lemma link_new_inv: "mpsc_laws M queue cap \<Longrightarrow> link_inv queue {#} (link_new M k)"
  using chan_new_queue [of M queue cap 32]
  by (simp add: link_inv_def link_new_def replied_def open_cmds_def lone_def conn_state_new_def
      waiting_cmds_def)

lemma reachable_inv:
  assumes laws: "task_laws M T N S queue cap rxq txq sent rcvd"
    and run: "(task_step M T N S dial vc)\<^sup>*\<^sup>* (tasks_start (link_new M k)) p"
  shows "tasks_inv queue txq sent rcvd dial vc [] (txq k) p"
proof -
  let ?inv = "\<lambda>p. mpsc_laws M queue cap \<and> tcp_laws T rxq txq \<and> net_laws N txq \<and> stream_laws S sent rcvd \<and>
       tasks_inv queue txq sent rcvd dial vc [] (txq k) p"
  have "?inv (tasks_start (link_new M k))"
    using laws link_new_inv [of M queue cap k]
    by (simp add: task_laws_def tasks_inv_def tasks_start_def awaited_def link_new_def)
  from tasks.steps_inv [OF run this] show ?thesis by blast
qed

section \<open>Ending without the actor\<close>

fun up_left :: "'e up_pc \<Rightarrow> nat option \<Rightarrow> nat" where
  "up_left UpRead a = (if a = None then 1 else 3)"
| "up_left (UpWrite bs) a = 2"
| "up_left UpFlush a = 1"
| "up_left (UpDone r) a = 0"

fun down_left :: "'e down_pc \<Rightarrow> nat option \<Rightarrow> nat" where
  "down_left DownRead a = 2"
| "down_left (DownWrite buf n) a = (if a \<noteq> None then 4 else if n < length buf then 1 else 3)"
| "down_left DownClose a = 1"
| "down_left (DownDone r) a = 0"

definition tasks_left :: "('c, 'k, 's, 'e) relay_tasks \<Rightarrow> nat" where
  "tasks_left p = (case tk_pc p of
     PipeDial \<Rightarrow> 6 | PipeCopy u d \<Rightarrow> up_left u (tk_up p) + down_left d (tk_down p) + 2 | PipeClose ur dr \<Rightarrow> 1 | PipeDone r \<Rightarrow> 0)"

lemma resume_left: "up_left (up_resume res) None < 3" "down_left (down_resume buf n w) None < 4"
  by (cases res; simp) (cases w; simp)

lemma up_left_bound: "up_left u a \<le> 3" and down_left_bound: "down_left d b \<le> 4"
  by (cases u; simp) (cases d; simp)

lemma tasks_left_bound: "tasks_left p \<le> 9"
proof (cases "tk_pc p")
  case (PipeCopy u d)
  with up_left_bound [of u "tk_up p"] down_left_bound [of d "tk_down p"] show ?thesis by (simp add: tasks_left_def)
qed (simp_all add: tasks_left_def)

lemma begin_call_gone: "lk_conn lk = None \<Longrightarrow> begin_call M mk lk = Some (Inl ActorGone, lk)"
  and poll_call_gone: "lk_conn lk = None \<Longrightarrow> \<exists>res. poll_call pick lk = Some res"
  by (simp_all add: begin_call_def poll_call_def split: option.split)

lemma relay_step_gone:
  assumes inv: "tasks_inv queue txq sent rcvd dial vc rd0 tx0 p" and gone: "lk_conn (tk_link p) = None"
    and step: "relay_step M S dial vc p p'"
  shows "tasks_left p' < tasks_left p \<and> lk_conn (tk_link p') = None"
  using step
proof cases
  case (up_reply d n res)
  with gone show ?thesis by (simp add: tasks_left_def resume_left)
next
  case (write_reply u buf n r res)
  with gone show ?thesis by (simp add: tasks_left_def resume_left)
next
  case (up_writes u d s u' s')
  then show ?thesis using gone inv
    by (auto simp: tasks_left_def tasks_inv_def up_io_def split: prod.splits sum.splits)
next
  case (down_reads u d s d' s')
  then show ?thesis using gone inv
    by (auto simp: tasks_left_def tasks_inv_def down_io_def split: prod.splits sum.splits if_splits)
qed (use gone inv in \<open>auto simp: tasks_left_def tasks_inv_def begin_call_gone\<close>)

text \<open>
  A relay that waits for the upstream and nothing else: for its dial, or with each direction
  over or at an upstream await that cannot complete yet.
\<close>

fun up_pending :: "('s, 'e) stream_ops \<Rightarrow> 'e up_pc \<Rightarrow> 's \<Rightarrow> bool" where
  "up_pending S (UpWrite bs) s \<longleftrightarrow> \<not> writable S s"
| "up_pending S UpFlush s \<longleftrightarrow> \<not> writable S s"
| "up_pending S _ s \<longleftrightarrow> False"

fun down_pending :: "('s, 'e) stream_ops \<Rightarrow> 'e down_pc \<Rightarrow> 's \<Rightarrow> bool" where
  "down_pending S DownRead s \<longleftrightarrow> \<not> readable S s"
| "down_pending S _ s \<longleftrightarrow> False"

fun up_over :: "'e up_pc \<Rightarrow> bool" where
  "up_over (UpDone r) = True"
| "up_over _ = False"

fun down_over :: "'e down_pc \<Rightarrow> bool" where
  "down_over (DownDone r) = True"
| "down_over _ = False"

definition upstream_pending :: "('s, 'e) stream_ops \<Rightarrow> ('c, 'k, 's, 'e) relay_tasks \<Rightarrow> bool" where
  "upstream_pending S p \<longleftrightarrow>
     (case (tk_pc p, tk_stream p) of
        (PipeDial, _) \<Rightarrow> True
      | (PipeCopy u d, Some s) \<Rightarrow> (up_pending S u s \<or> down_pending S d s) \<and>
          (up_pending S u s \<or> up_over u) \<and> (down_pending S d s \<or> down_over d)
      | _ \<Rightarrow> False)"

text \<open>What happens around the relay while it is at its awaits.\<close>

definition away_step ::
  "('c, nat conn_cmd) mpsc_ops \<Rightarrow> 'k tcp_ops \<Rightarrow> ('k \<Rightarrow> 'k \<Rightarrow> bool) \<Rightarrow> ('s, 'e) stream_ops \<Rightarrow>
   ('c, 'k, 's, 'e) relay_tasks \<Rightarrow> ('c, 'k, 's, 'e) relay_tasks \<Rightarrow> bool" where
  "away_step M T N S p p' \<longleftrightarrow> actor_step M T N p p' \<or>
     (\<exists>s s'. tk_stream p = Some s \<and> peer_moves S s s' \<and> p' = p\<lparr>tk_stream := Some s'\<rparr>)"

lemma away_task_step: "away_step M T N S p p' \<Longrightarrow> task_step M T N S dial vc p p'"
  by (auto simp: away_step_def intro: by_actor by_peer)

lemma away_step_gone:
  assumes "away_step M T N S p p'" and "lk_conn (tk_link p) = None"
  shows "tasks_left p' = tasks_left p \<and> lk_conn (tk_link p') = None"
  using assms by (auto simp: away_step_def tasks_left_def link_turn_def link_reap_def elim!: actor_step_cases
      split: pipe_pc.split option.splits prod.splits)

lemma away_steps_gone:
  "(away_step M T N S)\<^sup>*\<^sup>* p p' \<Longrightarrow> lk_conn (tk_link p) = None \<Longrightarrow>
     tasks_left p' = tasks_left p \<and> lk_conn (tk_link p') = None \<and> (task_step M T N S dial vc)\<^sup>*\<^sup>* p p'"
proof (induction rule: rtranclp_induct)
  case (step p1 p2)
  with away_step_gone [OF step.hyps(2)] away_task_step [OF step.hyps(2), of dial vc] show ?case
    by (auto intro: rtranclp.rtrancl_into_rtrancl)
qed simp

lemma up_progress_gone:
  assumes gone: "lk_conn (tk_link p) = None" and pc: "tk_pc p = PipeCopy u d" and s: "tk_stream p = Some s"
    and run: "\<not> up_over u" "\<not> up_pending S u s"
  shows "\<exists>p'. relay_step M S dial vc p p'"
proof (cases "u = UpRead")
  case True
  with pc begin_call_gone [OF gone] poll_call_gone [OF gone] show ?thesis
    by (cases "tk_up p") (blast intro: up_refused up_reply)+
next
  case False
  with run have "u = UpFlush \<or> (\<exists>bs. u = UpWrite bs)" "writable S s" by (cases u; auto)+
  with pc s show ?thesis by (cases "up_io S u s") (blast intro: up_writes)
qed

lemma down_progress_gone:
  assumes gone: "lk_conn (tk_link p) = None" and pc: "tk_pc p = PipeCopy u d" and s: "tk_stream p = Some s"
    and run: "\<not> down_over d" "\<not> down_pending S d s"
  shows "\<exists>p'. relay_step M S dial vc p p'"
proof -
  consider (io) "d = DownRead \<or> (\<exists>buf n. d = DownWrite buf n \<and> \<not> n < length buf)" "d = DownRead \<longrightarrow> readable S s"
    | (chunk) buf n where "d = DownWrite buf n" "n < length buf" | (shut) "d = DownClose"
    using run by (cases d) auto
  then show ?thesis
  proof cases
    case io
    with pc s show ?thesis by (cases "down_io S d s") (blast intro: down_reads)
  next
    case (chunk buf n)
    show ?thesis
    proof (cases "tk_down p")
      case None
      from write_refused [OF pc [unfolded chunk(1)] None chunk(2) begin_call_gone [OF gone]] show ?thesis by blast
    next
      case (Some r)
      obtain res where "poll_call (find_write r) (tk_link p) = Some res" using poll_call_gone [OF gone] by blast
      from write_reply [OF pc [unfolded chunk(1)] Some this] show ?thesis by blast
    qed
  next
    case shut
    show ?thesis
    proof (cases "tk_down p")
      case None
      from shut_refused [OF pc [unfolded shut] None begin_call_gone [OF gone]] show ?thesis by blast
    next
      case (Some r)
      obtain res where "poll_call (find_unit r) (tk_link p) = Some res" using poll_call_gone [OF gone] by blast
      from shut_reply [OF pc [unfolded shut] Some this] show ?thesis by blast
    qed
  qed
qed

lemma relay_progress_gone:
  assumes inv: "tasks_inv queue txq sent rcvd dial vc rd0 tx0 p" and gone: "lk_conn (tk_link p) = None"
    and run: "\<nexists>r. tk_pc p = PipeDone r" "\<not> upstream_pending S p"
  shows "\<exists>p'. relay_step M S dial vc p p'"
proof (cases "tk_pc p")
  case (PipeClose ur dr)
  with begin_call_gone [OF gone] poll_call_gone [OF gone] show ?thesis
    by (cases "tk_down p") (blast intro: close_refused close_reply)+
next
  case (PipeCopy u d)
  then obtain s where s: "tk_stream p = Some s" using inv by (auto simp: tasks_inv_def)
  have "\<not> (up_pending S u s \<or> down_pending S d s) \<or> \<not> (up_pending S u s \<or> up_over u) \<or> \<not> (down_pending S d s \<or> down_over d)"
    using run(2) PipeCopy s by (simp add: upstream_pending_def)
  moreover have "\<exists>p'. relay_step M S dial vc p p'" if "up_over u" "down_over d"
  proof -
    from that obtain ur dr where "u = UpDone ur" "d = DownDone dr" by (cases u; cases d) auto
    with joins [of p ur dr] PipeCopy show ?thesis by blast
  qed
  ultimately show ?thesis using up_progress_gone [OF gone PipeCopy s] down_progress_gone [OF gone PipeCopy s] by blast
qed (use run in \<open>auto simp: upstream_pending_def\<close>)

section \<open>One chunk\<close>

text \<open>
  The inner loop of \<open>copy_to_vconn\<close>: \<open>chunk_at\<close> is the chunk in hand and how much of
  it the connection has taken. A step of anyone stays with the chunk or leaves it;
  \<open>chunk_taken\<close> is one that takes the answer to a call of \<open>write\<close> and goes on.
\<close>

fun chunk_at :: "'e pipe_pc \<Rightarrow> (bytes \<times> nat) option" where
  "chunk_at (PipeCopy u (DownWrite buf n)) = Some (buf, n)"
| "chunk_at _ = None"

definition chunk_stays :: "bytes \<Rightarrow> (('c, 'k, 's, 'e) relay_tasks \<Rightarrow> ('c, 'k, 's, 'e) relay_tasks \<Rightarrow> bool) \<Rightarrow>
   ('c, 'k, 's, 'e) relay_tasks \<Rightarrow> ('c, 'k, 's, 'e) relay_tasks \<Rightarrow> bool" where
  "chunk_stays buf R p p' \<longleftrightarrow> R p p' \<and> (\<exists>n. chunk_at (tk_pc p') = Some (buf, n))"

definition chunk_taken :: "bytes \<Rightarrow> (('c, 'k, 's, 'e) relay_tasks \<Rightarrow> ('c, 'k, 's, 'e) relay_tasks \<Rightarrow> bool) \<Rightarrow>
   ('c, 'k, 's, 'e) relay_tasks \<Rightarrow> ('c, 'k, 's, 'e) relay_tasks \<Rightarrow> bool" where
  "chunk_taken buf R p p' \<longleftrightarrow> chunk_stays buf R p p' \<and> tk_down p \<noteq> None \<and> tk_down p' = None"

lemma chunk_at_Some: "chunk_at pc = Some (buf, n) \<longleftrightarrow> (\<exists>u. pc = PipeCopy u (DownWrite buf n))"
  by (cases pc rule: chunk_at.cases) auto

definition chunk_after :: "bytes \<Rightarrow> nat \<Rightarrow> ('c, 'k, 's, 'e) relay_tasks \<Rightarrow> ('c, 'k, 's, 'e) relay_tasks \<Rightarrow> bool" where
  "chunk_after buf n p p' \<longleftrightarrow> (\<exists>u d. tk_pc p' = PipeCopy u d \<and>
     (d = DownWrite buf n \<and> (tk_down p \<noteq> None \<longrightarrow> tk_down p' \<noteq> None) \<or>
      (\<exists>n'. d = DownWrite buf n' \<and> n < n' \<and> n' \<le> length buf \<and> tk_down p \<noteq> None) \<or>
      d = DownRead \<and> n = length buf \<or>
      d = DownDone (Inl (VConnErr Closed)) \<or> d = DownDone (Inl (VConnErr ActorGone))))"

lemma chunk_bound:
  "tasks_inv queue txq sent rcvd dial vc rd0 tx0 p \<Longrightarrow> tk_pc p = PipeCopy u (DownWrite buf n) \<Longrightarrow> n \<le> length buf"
  by (auto simp: tasks_inv_def down_moved_def)

lemma write_reply_after:
  assumes inv: "tasks_inv queue txq sent rcvd dial vc rd0 tx0 p"
    and pc: "tk_pc p = PipeCopy u (DownWrite buf n)" and down: "tk_down p = Some r"
    and reply: "poll_call (find_write r) (tk_link p) = Some res"
  shows "chunk_after buf n p (p\<lparr>tk_pc := PipeCopy u (down_resume buf n res), tk_down := None\<rparr>)"
proof -
  let ?p = "p\<lparr>tk_pc := PipeCopy u (down_resume buf n res), tk_down := None\<rparr>"
  note inv' = write_reply_inv [OF inv pc down reply]
  have m: "n < length buf" using inv pc down by (simp add: tasks_inv_def)
  have aw: "awaited p = add_mset (Write (drop n buf) r) (awaited ?p)" using down pc by (simp add: awaited_def)
  have "link_inv queue (add_mset (Write (drop n buf) r) (awaited ?p)) (tk_link p)" using inv aw by (simp add: tasks_inv_def)
  note got = poll_write(2) [OF this reply, simplified]
  show ?thesis
  proof (cases res)
    case (Inl e)
    with inv' show ?thesis by (auto simp: tasks_inv_def chunk_after_def)
  next
    case (Inr k)
    with got m have "k \<noteq> 0" "k \<le> length buf - n" by auto
    with Inr m down show ?thesis by (auto simp: chunk_after_def)
  qed
qed

lemma chunk_step:
  assumes inv: "tasks_inv queue txq sent rcvd dial vc rd0 tx0 p" and pc: "tk_pc p = PipeCopy u (DownWrite buf n)"
    and step: "task_step M T N S dial vc p p'"
  shows "chunk_after buf n p p'"
  using step
proof cases
  case by_relay
  then show ?thesis
  proof cases
    case (write_reply u' buf' n' r res)
    with write_reply_after [OF inv pc] pc show ?thesis by simp
  next
    case (write_refused u' buf' n' e lk)
    with begin_call_refused [OF write_refused(5)] pc show ?thesis by (auto simp: chunk_after_def)
  next
    case (down_reads u' d s d' s')
    with pc chunk_bound [OF inv pc] show ?thesis by (auto simp: chunk_after_def down_io_def)
  qed (use pc in \<open>auto simp: chunk_after_def\<close>)
qed (use pc in \<open>auto simp: chunk_after_def elim!: actor_step_cases\<close>)

section \<open>Properties\<close>

text \<open>
  While a relay copies, in every interleaving of its two directions with the actor's
  turns, the network and a stop of the actor, nothing is lost, repeated, reordered or made up:
  the bytes the actor has delivered are those written upstream, and the bytes received from
  upstream are those handed to the connection's socket, but for the chunk a direction holds, a
  reply it has not taken yet, or the tail lost to its error.
\<close>
theorem relay_tasks_copy:
  assumes "task_laws M T N S queue cap rxq txq sent rcvd"
    and "(task_step M T N S (connect D S px) vc)\<^sup>*\<^sup>* (tasks_start (link_new M k)) p" and "tk_pc p = PipeCopy u d"
  shows "\<exists>up s ugot uput dgot dput. connect D S px (destination vc) = Inr up \<and> tk_stream p = Some s \<and>
    up_copied u ugot uput \<and> sent s = sent (up_stream up) @ uput \<and>
      delivered (lk_replies (tk_link p)) = ugot @ unread (tk_up p) (tk_link p) \<and>
    down_copied d dgot dput \<and> rcvd s = rcvd (up_stream up) @ dgot \<and>
      txq (lk_sock (tk_link p)) = txq k @ dput @ untold (write_call p) (tk_link p)"
  using reachable_inv [OF assms(1,2)] assms(3) by (auto simp: tasks_inv_def up_moved_def down_moved_def)

text \<open>
  When both directions of a relay have ended without error, everything has been copied:
  the bytes the actor delivered to the relay are exactly those written upstream, and the bytes
  received from upstream exactly those handed to the connection's socket.
\<close>
theorem relay_tasks_complete:
  assumes "task_laws M T N S queue cap rxq txq sent rcvd"
    and "(task_step M T N S (connect D S px) vc)\<^sup>*\<^sup>* (tasks_start (link_new M k)) p"
    and "tk_pc p = PipeClose (Inr ()) (Inr ())"
  shows "\<exists>up s out inp. connect D S px (destination vc) = Inr up \<and> tk_stream p = Some s \<and>
    delivered (lk_replies (tk_link p)) = out \<and> sent s = sent (up_stream up) @ out \<and>
    rcvd s = rcvd (up_stream up) @ inp \<and> txq (lk_sock (tk_link p)) = txq k @ inp"
  using reachable_inv [OF assms(1,2)] assms(3) by (auto simp: tasks_inv_def up_moved_def down_moved_def)

text \<open>
  C7. The directions of a relay are never in each other's way: the actor holds at most one read
  and one write of a relay at any time, no direction is answered \<open>WouldBlock\<close> or ends with
  an empty write, and the only errors it ends with are those of the upstream, a closed socket
  and an actor that is gone.
\<close>
theorem relay_tasks_no_conflict:
  assumes "task_laws M T N S queue cap rxq txq sent rcvd"
    and "(task_step M T N S dial vc)\<^sup>*\<^sup>* (tasks_start (link_new M k)) p"
  shows "(\<forall>conn. lk_conn (tk_link p) = Some conn \<longrightarrow> lone (open_cmds queue conn)) \<and>
    (\<forall>u d. tk_pc p = PipeCopy u d \<longrightarrow>
       (\<forall>e. u = UpDone (Inl e) \<longrightarrow> e = VConnErr Closed \<or> e = VConnErr ActorGone \<or> (\<exists>io. e = UpstreamIo io)) \<and>
       (\<forall>e. d = DownDone (Inl e) \<longrightarrow> e = VConnErr Closed \<or> e = VConnErr ActorGone \<or> (\<exists>io. e = UpstreamIo io)))"
proof -
  note inv = reachable_inv [OF assms]
  have "lone (open_cmds queue conn)" if "lk_conn (tk_link p) = Some conn" for conn
    using inv that lone_subset [OF awaited_as(3) multiset_filter_subset] by (simp add: tasks_inv_def link_inv_def)
  with inv show ?thesis by (auto simp: tasks_inv_def dest!: fair_errorD)
qed

text \<open>
  C16. A relay waits only for the network. The actor's turn returns, and after it a direction
  whose request is not answered is a read of a socket that is open and empty or a write to one
  that is open and full; closes are always answered.
\<close>
theorem relay_tasks_wait_for_network:
  assumes "task_laws M T N S queue cap rxq txq sent rcvd"
    and "(task_step M T N S dial vc)\<^sup>*\<^sup>* (tasks_start (link_new M k)) p" and "lk_conn (tk_link p) = Some conn"
  shows "\<exists>lk. link_turn M T (tk_link p) = Some lk \<and>
    (\<forall>n. tk_up p = Some n \<and> poll_call (find_read n) lk = None \<longrightarrow>
      \<not> can_recv T (lk_sock lk) \<and> may_recv T (lk_sock lk)) \<and>
    (\<forall>u buf m n. tk_pc p = PipeCopy u (DownWrite buf m) \<and> tk_down p = Some n \<and> poll_call (find_write n) lk = None \<longrightarrow>
      \<not> can_send T (lk_sock lk) \<and> may_send T (lk_sock lk)) \<and>
    (\<forall>u n. tk_pc p = PipeCopy u DownClose \<and> tk_down p = Some n \<longrightarrow> poll_call (find_unit n) lk \<noteq> None) \<and>
    (\<forall>ur dr n. tk_pc p = PipeClose ur dr \<and> tk_down p = Some n \<longrightarrow> poll_call (find_unit n) lk \<noteq> None)"
proof -
  have M: "mpsc_laws M queue cap" and L: "tcp_laws T rxq txq" using assms(1) by (simp_all add: task_laws_def)
  from link_turn_returns [OF M assms(3)] obtain lk where lk: "link_turn M T (tk_link p) = Some lk" by blast
  have at: "link_inv queue (awaited p) (tk_link p)" using reachable_inv [OF assms(1,2)] by (simp add: tasks_inv_def)
  have after: "link_inv queue (awaited p) lk" using link_turn_inv [OF M L at lk] by metis
  note blocked = link_turn_blocked [OF M L at lk _ still_waiting [OF after]]
  have up: "Read RELAY_BUF n \<in># awaited p" if "tk_up p = Some n" for n using that by (simp add: awaited_def)
  have down: "down_cmd (tk_pc p) n \<in># awaited p" if "tk_down p = Some n" for n using that by (simp add: awaited_def)
  have 1: "\<not> can_recv T (lk_sock lk) \<and> may_recv T (lk_sock lk)"
    if "tk_up p = Some n" "poll_call (find_read n) lk = None" for n
    using blocked [OF up [OF that(1)] up [OF that(1)] that(2) find_answered(1)] by simp
  have 2: "\<not> can_send T (lk_sock lk) \<and> may_send T (lk_sock lk)"
    if "tk_pc p = PipeCopy u (DownWrite buf m)" "tk_down p = Some n" "poll_call (find_write n) lk = None" for u buf m n
    using blocked [OF down [OF that(2)] down [OF that(2)] that(3)] that(1) find_answered(2) [of _ _ "drop m buf" n]
    by simp
  have 3: "poll_call (find_unit n) lk \<noteq> None"
    if c: "down_cmd (tk_pc p) n = CloseWrite n \<or> down_cmd (tk_pc p) n = Close n" and n: "tk_down p = Some n" for n
  proof
    assume none: "poll_call (find_unit n) lk = None"
    have "find_unit n (lk_replies lk) \<noteq> None" if "rep \<in> set (lk_replies lk)" "answers (down_cmd (tk_pc p) n) rep" for rep
      using c that find_answered(3,4) by metis
    from blocked [OF down [OF n] down [OF n] none this] c show False by auto
  qed
  show ?thesis using lk 1 2 3 by (intro exI [of _ lk]) simp
qed

text \<open>
  C9. A relay outlives the actor only briefly. Once the actor has dropped the connection, the
  relay takes at most nine more steps of its own, whatever it was doing and whatever the
  network and the upstream do meanwhile, and it waits for the actor no more: it is over, or it
  can go on, or it waits for the upstream alone, for the dial or with each direction over or
  at an upstream read, write or flush that cannot complete.
\<close>
theorem relay_tasks_end_without_actor:
  assumes "task_laws M T N S queue cap rxq txq sent rcvd"
    and "(task_step M T N S dial vc)\<^sup>*\<^sup>* (tasks_start (link_new M k)) p" and "lk_conn (tk_link p) = None"
    and "(((away_step M T N S)\<^sup>*\<^sup>* OO relay_step M S dial vc) ^^ steps) p p'"
  shows "steps \<le> 9 \<and> lk_conn (tk_link p') = None \<and>
    ((\<exists>r. tk_pc p' = PipeDone r) \<or> (\<exists>p''. relay_step M S dial vc p' p'') \<or> upstream_pending S p')"
proof -
  let ?reached = "\<lambda>q. (task_step M T N S dial vc)\<^sup>*\<^sup>* (tasks_start (link_new M k)) q \<and> lk_conn (tk_link q) = None"
  have "(((away_step M T N S)\<^sup>*\<^sup>* OO relay_step M S dial vc) ^^ i) p q \<Longrightarrow> ?reached q \<and> tasks_left q + i \<le> tasks_left p" for i q
  proof (induction i arbitrary: q)
    case 0
    with assms(2,3) show ?case by simp
  next
    case (Suc i)
    then obtain q1 q2 where q: "(((away_step M T N S)\<^sup>*\<^sup>* OO relay_step M S dial vc) ^^ i) p q1"
      "(away_step M T N S)\<^sup>*\<^sup>* q1 q2" "relay_step M S dial vc q2 q" by auto
    from Suc.IH [OF q(1)] away_steps_gone [OF q(2), of dial vc]
    have q2: "tasks_left q2 = tasks_left q1" "?reached q2" "tasks_left q1 + i \<le> tasks_left p" by (auto intro: rtranclp_trans)
    from relay_step_gone [OF reachable_inv [OF assms(1) conjunct1 [OF q2(2)]] conjunct2 [OF q2(2)] q(3)] q2
      rtranclp.rtrancl_into_rtrancl [OF conjunct1 [OF q2(2)] by_relay [OF q(3)]] show ?case by simp
  qed
  from this [OF assms(4)] have p': "?reached p'" "steps \<le> tasks_left p" by auto
  from relay_progress_gone [OF reachable_inv [OF assms(1) conjunct1 [OF p'(1)]] conjunct2 [OF p'(1)]]
    tasks_left_bound [of p] p' show ?thesis by (metis le_trans)
qed

text \<open>
  C36. Writing a chunk takes at most one call per byte, with a read of the other direction
  under way or not: while a relay writes a chunk, every answered call that it goes on from has
  moved it on by at least a byte, and never past the end; it leaves the chunk only when all of
  it has been taken, to read the next, or with a closed socket or an actor that is gone.
\<close>
theorem chunk_write_advances:
  assumes "task_laws M T N S queue cap rxq txq sent rcvd"
    and "(task_step M T N S dial vc)\<^sup>*\<^sup>* (tasks_start (link_new M k)) p" and "chunk_at (tk_pc p) = Some (buf, n)"
    and "(((chunk_stays buf (task_step M T N S dial vc))\<^sup>*\<^sup>* OO chunk_taken buf (task_step M T N S dial vc)) ^^ calls) p p'"
  shows "\<exists>n'. chunk_at (tk_pc p') = Some (buf, n') \<and> n + calls \<le> n' \<and> n' \<le> length buf \<and>
    (\<forall>p''. task_step M T N S dial vc p' p'' \<longrightarrow> (\<exists>u d. tk_pc p'' = PipeCopy u d \<and>
       ((\<exists>m. d = DownWrite buf m \<and> n' \<le> m \<and> m \<le> length buf) \<or> d = DownRead \<and> n' = length buf \<or>
        d = DownDone (Inl (VConnErr Closed)) \<or> d = DownDone (Inl (VConnErr ActorGone)))))"
proof -
  let ?R = "task_step M T N S dial vc"
  let ?at = "\<lambda>m q. ?R\<^sup>*\<^sup>* (tasks_start (link_new M k)) q \<and> (\<exists>n'. chunk_at (tk_pc q) = Some (buf, n') \<and> m \<le> n')"
  have one: "?at m q2 \<and> (chunk_taken buf ?R q1 q2 \<longrightarrow> ?at (Suc m) q2)" if "?at m q1" "chunk_stays buf ?R q1 q2" for m q1 q2
  proof -
    from that obtain u n1 n2 where q: "?R\<^sup>*\<^sup>* (tasks_start (link_new M k)) q1" "tk_pc q1 = PipeCopy u (DownWrite buf n1)" "m \<le> n1"
      "?R q1 q2" "chunk_at (tk_pc q2) = Some (buf, n2)" by (auto simp: chunk_stays_def chunk_at_Some)
    from chunk_step [OF reachable_inv [OF assms(1) q(1)] q(2,4)] q(3,5) rtranclp.rtrancl_into_rtrancl [OF q(1,4)] show ?thesis
      by (auto simp: chunk_after_def chunk_at_Some chunk_taken_def)
  qed
  have stay: "?at m q" if "(chunk_stays buf ?R)\<^sup>*\<^sup>* q0 q" "?at m q0" for m q0 q
    using that by induction (use one in blast)+
  have "(((chunk_stays buf ?R)\<^sup>*\<^sup>* OO chunk_taken buf ?R) ^^ i) p q \<Longrightarrow> ?at (n + i) q" for i q
  proof (induction i arbitrary: q)
    case 0
    with assms(2,3) show ?case by auto
  next
    case (Suc i)
    then obtain q1 q2 where q: "(((chunk_stays buf ?R)\<^sup>*\<^sup>* OO chunk_taken buf ?R) ^^ i) p q1" "(chunk_stays buf ?R)\<^sup>*\<^sup>* q1 q2"
      "chunk_taken buf ?R q2 q" by auto
    from one [OF stay [OF q(2) Suc.IH [OF q(1)]], of q] q(3) show ?case by (simp add: chunk_taken_def)
  qed
  from this [OF assms(4)] obtain u n' where p': "?R\<^sup>*\<^sup>* (tasks_start (link_new M k)) p'"
    "tk_pc p' = PipeCopy u (DownWrite buf n')" "n + calls \<le> n'" by (auto simp: chunk_at_Some)
  note inv = reachable_inv [OF assms(1) p'(1)]
  from chunk_step [OF inv p'(2)] p' chunk_bound [OF inv p'(2)] show ?thesis
    by (intro exI [of _ n']) (fastforce simp: chunk_after_def)
qed

text \<open>
  C37. A relay that ends with an error has failed to dial, and the error names the destination;
  nothing was read from the virtual connection and nothing handed to its socket.
\<close>
theorem relay_tasks_dial_failure:
  assumes "task_laws M T N S queue cap rxq txq sent rcvd"
    and "(task_step M T N S (connect D S px) vc)\<^sup>*\<^sup>* (tasks_start (link_new M k)) p" and "tk_pc p = PipeDone (Inl e)"
  shows "\<exists>ce. connect D S px (destination vc) = Inl ce \<and> e = DialProxy (destination vc) ce \<and>
    delivered (lk_replies (tk_link p)) = [] \<and> txq (lk_sock (tk_link p)) = txq k \<and> tk_stream p = None"
  using reachable_inv [OF assms(1,2)] assms(3) by (auto simp: tasks_inv_def)

section \<open>Running the tasks\<close>

text \<open>
  The same steps as a function of who moves, so that runs can be computed. A mover that waits
  has no step.
\<close>

datatype mover = Main | Up | Down | Actor | Stop

definition move_up ::
  "('c, nat conn_cmd) mpsc_ops \<Rightarrow> ('s, 'e) stream_ops \<Rightarrow> 'e up_pc \<Rightarrow> 'e down_pc \<Rightarrow> ('c, 'k, 's, 'e) relay_tasks \<Rightarrow>
   ('c, 'k, 's, 'e) relay_tasks option" where
  "move_up M S u d p =
     (case u of
        UpRead \<Rightarrow> (case tk_up p of
            None \<Rightarrow> (case begin_call M (Read RELAY_BUF) (tk_link p) of
                None \<Rightarrow> None
              | Some (Inr n, lk) \<Rightarrow> Some (p\<lparr>tk_up := Some n, tk_link := lk\<rparr>)
              | Some (Inl e, lk) \<Rightarrow> Some (p\<lparr>tk_pc := PipeCopy (up_resume (Inl e)) d, tk_link := lk\<rparr>))
          | Some n \<Rightarrow> map_option (\<lambda>res. p\<lparr>tk_pc := PipeCopy (up_resume res) d, tk_up := None\<rparr>)
              (poll_call (find_read n) (tk_link p)))
      | UpDone r \<Rightarrow> None
      | _ \<Rightarrow> Option.bind (tk_stream p) (\<lambda>s. if up_pending S u s then None else
          Some (p\<lparr>tk_pc := PipeCopy (fst (up_io S u s)) d, tk_stream := Some (snd (up_io S u s))\<rparr>)))"

definition move_down ::
  "('c, nat conn_cmd) mpsc_ops \<Rightarrow> ('s, 'e) stream_ops \<Rightarrow> 'e up_pc \<Rightarrow> 'e down_pc \<Rightarrow> ('c, 'k, 's, 'e) relay_tasks \<Rightarrow>
   ('c, 'k, 's, 'e) relay_tasks option" where
  "move_down M S u d p =
     (case tk_down p of
        Some r \<Rightarrow> (case d of
            DownWrite buf n \<Rightarrow> map_option (\<lambda>res. p\<lparr>tk_pc := PipeCopy u (down_resume buf n res), tk_down := None\<rparr>)
              (poll_call (find_write r) (tk_link p))
          | DownClose \<Rightarrow> map_option (\<lambda>res. p\<lparr>tk_pc := PipeCopy u (DownDone (Inr ())), tk_down := None\<rparr>)
              (poll_call (find_unit r) (tk_link p))
          | _ \<Rightarrow> None)
      | None \<Rightarrow> (case down_request d of
            Some mk \<Rightarrow> (case begin_call M mk (tk_link p) of
                None \<Rightarrow> None
              | Some (Inr n, lk) \<Rightarrow> Some (p\<lparr>tk_down := Some n, tk_link := lk\<rparr>)
              | Some (Inl e, lk) \<Rightarrow> Some (p\<lparr>tk_pc := PipeCopy u
                  (case d of DownWrite buf n \<Rightarrow> down_resume buf n (Inl e) | _ \<Rightarrow> DownDone (Inr ())), tk_link := lk\<rparr>))
          | None \<Rightarrow> (case d of DownDone r \<Rightarrow> None | _ \<Rightarrow>
              Option.bind (tk_stream p) (\<lambda>s. if down_pending S d s then None else
                Some (p\<lparr>tk_pc := PipeCopy u (fst (down_io S d s)), tk_stream := Some (snd (down_io S d s))\<rparr>)))))"

definition move_main ::
  "('c, nat conn_cmd) mpsc_ops \<Rightarrow> (socket_addr \<Rightarrow> 'e connect_error + 's upstream) \<Rightarrow> 'tx vconn \<Rightarrow>
   ('c, 'k, 's, 'e) relay_tasks \<Rightarrow> ('c, 'k, 's, 'e) relay_tasks option" where
  "move_main M dial vc p =
     (case tk_pc p of
        PipeDial \<Rightarrow> Some (case dial (destination vc) of
            Inr u \<Rightarrow> p\<lparr>tk_pc := PipeCopy UpRead DownRead, tk_stream := Some (up_stream u)\<rparr>
          | Inl e \<Rightarrow> p\<lparr>tk_pc := PipeDone (Inl (DialProxy (destination vc) e))\<rparr>)
      | PipeCopy (UpDone ur) (DownDone dr) \<Rightarrow> Some (p\<lparr>tk_pc := PipeClose ur dr\<rparr>)
      | PipeClose ur dr \<Rightarrow> (case tk_down p of
            None \<Rightarrow> (case begin_call M Close (tk_link p) of
                None \<Rightarrow> None
              | Some (Inr n, lk) \<Rightarrow> Some (p\<lparr>tk_down := Some n, tk_link := lk\<rparr>)
              | Some (Inl e, lk) \<Rightarrow> Some (p\<lparr>tk_pc := PipeDone (Inr ()), tk_link := lk, tk_stream := None\<rparr>))
          | Some r \<Rightarrow> map_option (\<lambda>res. p\<lparr>tk_pc := PipeDone (Inr ()), tk_down := None, tk_stream := None\<rparr>)
              (poll_call (find_unit r) (tk_link p)))
      | _ \<Rightarrow> None)"

definition move ::
  "('c, nat conn_cmd) mpsc_ops \<Rightarrow> 'k tcp_ops \<Rightarrow> ('s, 'e) stream_ops \<Rightarrow> (socket_addr \<Rightarrow> 'e connect_error + 's upstream) \<Rightarrow>
   'tx vconn \<Rightarrow> mover \<Rightarrow> ('c, 'k, 's, 'e) relay_tasks \<Rightarrow> ('c, 'k, 's, 'e) relay_tasks option" where
  "move M T S dial vc m p =
     (case m of
        Main \<Rightarrow> move_main M dial vc p
      | Up \<Rightarrow> (case tk_pc p of PipeCopy u d \<Rightarrow> move_up M S u d p | _ \<Rightarrow> None)
      | Down \<Rightarrow> (case tk_pc p of PipeCopy u d \<Rightarrow> move_down M S u d p | _ \<Rightarrow> None)
      | Actor \<Rightarrow> map_option (\<lambda>lk. p\<lparr>tk_link := lk\<rparr>) (link_turn M T (tk_link p))
      | Stop \<Rightarrow> Some (p\<lparr>tk_link := (tk_link p)\<lparr>lk_conn := None\<rparr>\<rparr>))"

fun moves ::
  "('c, nat conn_cmd) mpsc_ops \<Rightarrow> 'k tcp_ops \<Rightarrow> ('s, 'e) stream_ops \<Rightarrow> (socket_addr \<Rightarrow> 'e connect_error + 's upstream) \<Rightarrow>
   'tx vconn \<Rightarrow> mover list \<Rightarrow> ('c, 'k, 's, 'e) relay_tasks \<Rightarrow> ('c, 'k, 's, 'e) relay_tasks option" where
  "moves M T S dial vc [] p = Some p"
| "moves M T S dial vc (m # ms) p = Option.bind (move M T S dial vc m p) (moves M T S dial vc ms)"

lemma move_up_step: "tk_pc p = PipeCopy u d \<Longrightarrow> move_up M S u d p = Some p' \<Longrightarrow> relay_step M S dial vc p p'"
  unfolding move_up_def
  by (auto simp del: up_resume.simps split: up_pc.splits option.splits sum.splits prod.splits if_splits
      intro: up_send up_refused up_reply up_writes [OF _ _ _ prod.collapse [symmetric]]
      simp: bind_eq_Some_conv)

lemma move_down_step: "tk_pc p = PipeCopy u d \<Longrightarrow> move_down M S u d p = Some p' \<Longrightarrow> relay_step M S dial vc p p'"
  unfolding move_down_def
  by (auto simp del: down_resume.simps split: down_pc.splits option.splits sum.splits prod.splits if_splits
      intro: down_send write_refused write_reply shut_refused shut_reply down_reads [OF _ _ _ prod.collapse [symmetric]]
      simp: bind_eq_Some_conv)

lemma move_main_step: "move_main M dial vc p = Some p' \<Longrightarrow> relay_step M S dial vc p p'"
  unfolding move_main_def
  by (auto split: pipe_pc.splits up_pc.splits down_pc.splits option.splits sum.splits prod.splits
      intro: dialled undialled joins close_send close_refused close_reply)

lemma move_step:
  assumes "move M T S dial vc m p = Some p'"
  shows "task_step M T N S dial vc p p'"
proof (cases m)
  case Actor
  with assms show ?thesis by (auto simp: move_def intro: by_actor turns)
next
  case Stop
  with assms show ?thesis by (auto simp: move_def intro: by_actor stops)
qed (use assms in \<open>auto simp: move_def split: pipe_pc.splits
    intro: by_relay move_main_step move_up_step move_down_step\<close>)

lemma moves_steps: "moves M T S dial vc ms p = Some p' \<Longrightarrow> (task_step M T N S dial vc)\<^sup>*\<^sup>* p p'"
proof (induction ms arbitrary: p)
  case (Cons m ms)
  then obtain p1 where "move M T S dial vc m p = Some p1" "moves M T S dial vc ms p1 = Some p'"
    by (auto simp: bind_eq_Some_conv)
  with Cons.IH move_step show ?case by (metis converse_rtranclp_into_rtranclp)
qed simp

section \<open>Witnesses\<close>

text \<open>
  A client that has sent four bytes and finished, relayed to a server with two bytes for it:
  the read and the write are both in the actor's channel when it takes its turn.
\<close>

abbreviation demo_moves where
  "demo_moves \<equiv> moves buf_mpsc sim_tcp script_stream demo_dialer demo_vconn"

definition demo_begin :: "(nat conn_cmd buf_chan, sim_socket, script, script_error) relay_tasks" where
  "demo_begin = tasks_start (link_new buf_mpsc (demo_sock\<lparr>sim_state := CloseWait\<rparr>))"

lemma demo_dialled: "demo_dialer (destination demo_vconn) = Inr \<lparr>up_stream = demo_up,
      up_local_addr = \<lparr>sa_ip = V4 0xCB007107, sa_port = 0\<rparr>\<rparr>"
  using demo_connect_run by (simp add: destination_def demo_vconn_def vconn_new_def demo_up_def)

lemma script_stream_ops:
  "write_all script_stream bs s = (Inr (), s\<lparr>written := written s @ bs\<rparr>)"
  "read_some script_stream n s = (Inr (take n (to_read s)),
     s\<lparr>to_read := drop n (to_read s), was_read := was_read s @ take n (to_read s)\<rparr>)"
  "flush script_stream s = (Inr (), s)" "writable script_stream s" "readable script_stream s"
  by (simp_all add: script_stream_def)

lemmas task_eval = move_def move_main_def move_up_def move_down_def begin_call_def poll_call_def link_turn_def
  conn_eval up_io_def down_io_def RELAY_BUF_def script_stream_ops demo_dialled

definition demo_both :: "(nat conn_cmd buf_chan, sim_socket, script, script_error) relay_tasks" where
  "demo_both = \<lparr>tk_pc = PipeCopy UpRead (DownWrite [104, 105] 0), tk_up = Some 0, tk_down = Some 1,
     tk_link = \<lparr>lk_conn = Some (demo_conn []),
       lk_sock = demo_sock\<lparr>sim_state := CloseWait, sim_rx := [], sim_tx := [104, 105], sim_room := 2\<rparr>,
       lk_replies = [ReadReply 0 (Inr [112, 105, 110, 103]), WriteReply 1 (Inr 2)], lk_next = 2\<rparr>,
     tk_stream = Some (demo_up\<lparr>to_read := [], was_read := was_read demo_up @ [104, 105]\<rparr>)\<rparr>"

lemma demo_both_run: "demo_moves [Main, Up, Down, Down, Actor] demo_begin = Some demo_both"
  by (simp add: task_eval demo_begin_def tasks_start_def link_new_def demo_both_def demo_up_def)

definition demo_joined :: "(nat conn_cmd buf_chan, sim_socket, script, script_error) relay_tasks" where
  "demo_joined = \<lparr>tk_pc = PipeClose (Inr ()) (Inr ()), tk_up = None, tk_down = None,
     tk_link = \<lparr>lk_conn = Some (demo_conn []),
       lk_sock = demo_sock\<lparr>sim_state := LastAck, sim_rx := [], sim_tx := [104, 105], sim_room := 2\<rparr>,
       lk_replies = [ReadReply 0 (Inr [112, 105, 110, 103]), WriteReply 1 (Inr 2), ReadReply 2 (Inr []), UnitReply 3 (Inr ())],
       lk_next = 4\<rparr>,
     tk_stream = Some demo_up_end\<rparr>"

lemma demo_joined_run: "demo_moves [Up, Down, Up, Up, Down, Down, Down, Actor, Up, Down, Up, Main] demo_both = Some demo_joined"
  by (simp add: task_eval demo_both_def demo_joined_def demo_up_end_def demo_up_def)

definition demo_net :: "sim_socket \<Rightarrow> sim_socket \<Rightarrow> bool" where
  "demo_net k k' \<longleftrightarrow> sim_tx k' = sim_tx k"

abbreviation demo_task_step where
  "demo_task_step \<equiv> task_step buf_mpsc sim_tcp demo_net script_stream demo_dialer demo_vconn"

lemma demo_task_laws: "task_laws buf_mpsc sim_tcp demo_net script_stream bc_queue bc_cap sim_rx sim_tx written was_read"
  by (simp add: task_laws_def buf_mpsc_laws sim_tcp_laws script_stream_laws net_laws_def demo_net_def)

lemma demo_both_reached: "demo_task_step\<^sup>*\<^sup>* (tasks_start (link_new buf_mpsc (demo_sock\<lparr>sim_state := CloseWait\<rparr>))) demo_both"
  using moves_steps [OF demo_both_run] by (simp add: demo_begin_def)

lemma demo_joined_reached: "demo_task_step\<^sup>*\<^sup>* (tasks_start (link_new buf_mpsc (demo_sock\<lparr>sim_state := CloseWait\<rparr>))) demo_joined"
  using demo_both_reached moves_steps [OF demo_joined_run] by (rule rtranclp_trans)

theorem relay_tasks_copy_witness:
  "\<exists>up uput dput. demo_dialer (destination demo_vconn) = Inr up \<and> written demo_up = written (up_stream up) @ uput \<and>
     [112, 105, 110, 103] = uput @ unread (tk_up demo_both) (tk_link demo_both) \<and>
     was_read demo_up @ [104, 105] = was_read (up_stream up) @ dput @ [104, 105] \<and>
     [104, 105] = dput @ untold (write_call demo_both) (tk_link demo_both)"
  using relay_tasks_copy [OF demo_task_laws demo_both_reached, of UpRead "DownWrite [104, 105] 0"]
  by (auto simp: demo_both_def demo_sock_def)

theorem relay_tasks_complete_witness:
  "\<exists>up out inp. demo_dialer (destination demo_vconn) = Inr up \<and>
     [112, 105, 110, 103] = out \<and> written demo_up_end = written (up_stream up) @ out \<and>
     was_read demo_up_end = was_read (up_stream up) @ inp \<and> [104, 105] = inp"
  using relay_tasks_complete [OF demo_task_laws demo_joined_reached] by (auto simp: demo_joined_def demo_sock_def)

text \<open>The same relay with both commands still in the channel.\<close>

definition demo_asked :: "(nat conn_cmd buf_chan, sim_socket, script, script_error) relay_tasks" where
  "demo_asked = demo_both\<lparr>tk_link := \<lparr>lk_conn = Some (demo_conn [Read RELAY_BUF 0, Write [104, 105] 1]),
     lk_sock = demo_sock\<lparr>sim_state := CloseWait\<rparr>, lk_replies = [], lk_next = 2\<rparr>\<rparr>"

lemma demo_asked_run: "demo_moves [Main, Up, Down, Down] demo_begin = Some demo_asked"
  by (simp add: task_eval demo_begin_def tasks_start_def link_new_def demo_both_def demo_asked_def demo_up_def)

lemma demo_asked_reached: "demo_task_step\<^sup>*\<^sup>* (tasks_start (link_new buf_mpsc (demo_sock\<lparr>sim_state := CloseWait\<rparr>))) demo_asked"
  using moves_steps [OF demo_asked_run] by (simp add: demo_begin_def)

theorem relay_tasks_no_conflict_witness: "lone (open_cmds bc_queue (demo_conn [Read RELAY_BUF 0, Write [104, 105] 1]))"
  using relay_tasks_no_conflict [OF demo_task_laws demo_asked_reached] by (simp add: demo_asked_def)

theorem chunk_write_advances_witness:
  "\<exists>n'. chunk_at (tk_pc (demo_both\<lparr>tk_pc := PipeCopy UpRead (DownWrite [104, 105] 2), tk_down := None\<rparr>)) =
     Some ([104, 105], n') \<and> 0 + 1 \<le> n' \<and> n' \<le> length [104, 105 :: byte]"
proof -
  have "move buf_mpsc sim_tcp script_stream demo_dialer demo_vconn Down demo_both =
      Some (demo_both\<lparr>tk_pc := PipeCopy UpRead (DownWrite [104, 105] 2), tk_down := None\<rparr>)"
    by (simp add: task_eval demo_both_def)
  note step = move_step [OF this, of demo_net]
  have at: "chunk_at (tk_pc demo_both) = Some ([104, 105], 0)" by (simp add: demo_both_def)
  have "tk_down demo_both \<noteq> None" by (simp add: demo_both_def)
  with step have "chunk_taken [104, 105] demo_task_step demo_both
      (demo_both\<lparr>tk_pc := PipeCopy UpRead (DownWrite [104, 105] 2), tk_down := None\<rparr>)"
    by (simp add: chunk_taken_def chunk_stays_def)
  then have "(((chunk_stays [104, 105] demo_task_step)\<^sup>*\<^sup>* OO chunk_taken [104, 105] demo_task_step) ^^ 1) demo_both
      (demo_both\<lparr>tk_pc := PipeCopy UpRead (DownWrite [104, 105] 2), tk_down := None\<rparr>)"
    unfolding relpowp_1 by blast
  from chunk_write_advances [OF demo_task_laws demo_both_reached at this] show ?thesis by blast
qed

text \<open>A relay whose upstream is silent when the actor stops.\<close>

definition silent_dial :: "socket_addr \<Rightarrow> script_error connect_error + script upstream" where
  "silent_dial target = Inr \<lparr>up_stream = script_start [], up_local_addr = target\<rparr>"

definition demo_silent :: "(nat conn_cmd buf_chan, sim_socket, script, script_error) relay_tasks" where
  "demo_silent = \<lparr>tk_pc = PipeCopy UpRead DownRead, tk_up = Some 0, tk_down = None,
     tk_link = \<lparr>lk_conn = None, lk_sock = demo_sock, lk_replies = [], lk_next = 1\<rparr>, tk_stream = Some (script_start [])\<rparr>"

definition demo_waits :: "(nat conn_cmd buf_chan, sim_socket, script, script_error) relay_tasks" where
  "demo_waits = demo_silent\<lparr>tk_pc := PipeCopy (UpDone (Inl (VConnErr ActorGone))) DownRead, tk_up := None\<rparr>"

lemma demo_live_laws: "task_laws buf_mpsc sim_tcp demo_net live_stream bc_queue bc_cap sim_rx sim_tx written was_read"
  by (simp add: task_laws_def buf_mpsc_laws sim_tcp_laws live_stream_laws net_laws_def demo_net_def)

lemma demo_silent_run:
  "moves buf_mpsc sim_tcp live_stream silent_dial demo_vconn [Main, Up, Stop] (tasks_start (link_new buf_mpsc demo_sock)) = Some demo_silent"
  by (simp add: move_def move_main_def move_up_def begin_call_def conn_eval RELAY_BUF_def silent_dial_def tasks_start_def
      link_new_def demo_silent_def)

lemma demo_gives_up:
  "(((away_step buf_mpsc sim_tcp demo_net live_stream)\<^sup>*\<^sup>* OO relay_step buf_mpsc live_stream silent_dial demo_vconn) ^^ 1)
     demo_silent demo_waits"
proof -
  have "relay_step buf_mpsc live_stream silent_dial demo_vconn demo_silent
      (demo_silent\<lparr>tk_pc := PipeCopy (up_resume (Inl ActorGone)) DownRead, tk_up := None\<rparr>)"
    by (rule up_reply [of _ _ 0]) (simp_all add: demo_silent_def poll_call_def)
  then show ?thesis by (auto simp: demo_waits_def)
qed

theorem relay_tasks_end_without_actor_witness: "upstream_pending live_stream demo_waits"
proof -
  have "lk_conn (tk_link demo_silent) = None" by (simp add: demo_silent_def)
  note ends = relay_tasks_end_without_actor [OF demo_live_laws moves_steps [OF demo_silent_run] this demo_gives_up]
  have "\<nexists>p''. relay_step buf_mpsc live_stream silent_dial demo_vconn demo_waits p''"
    by (auto simp: demo_waits_def demo_silent_def live_stream_def script_start_def elim!: relay_step_cases)
  moreover have "\<nexists>r. tk_pc demo_waits = PipeDone r" by (simp add: demo_waits_def)
  ultimately show ?thesis using ends by blast
qed

text \<open>A client that has sent nothing yet.\<close>

definition demo_quiet :: "(nat conn_cmd buf_chan, sim_socket, script, script_error) relay_tasks" where
  "demo_quiet = \<lparr>tk_pc = PipeCopy UpRead DownRead, tk_up = Some 0, tk_down = None,
     tk_link = \<lparr>lk_conn = Some (demo_conn [Read RELAY_BUF 0]), lk_sock = demo_sock\<lparr>sim_rx := []\<rparr>,
       lk_replies = [], lk_next = 1\<rparr>, tk_stream = Some demo_up\<rparr>"

lemma demo_quiet_run: "demo_moves [Main, Up] (tasks_start (link_new buf_mpsc (demo_sock\<lparr>sim_rx := []\<rparr>))) = Some demo_quiet"
  by (simp add: task_eval tasks_start_def link_new_def demo_quiet_def)

lemma demo_quiet_turn:
  "link_turn buf_mpsc sim_tcp (tk_link demo_quiet) = Some ((tk_link demo_quiet)\<lparr>lk_conn :=
     Some ((demo_conn [])\<lparr>read := Some \<lparr>max_len = RELAY_BUF, rd_reply = 0\<rparr>\<rparr>)\<rparr>)"
  by (simp add: task_eval demo_quiet_def)

theorem relay_tasks_wait_for_network_witness:
  "\<not> can_recv sim_tcp (demo_sock\<lparr>sim_rx := []\<rparr>) \<and> may_recv sim_tcp (demo_sock\<lparr>sim_rx := []\<rparr>)"
proof -
  have "lk_conn (tk_link demo_quiet) = Some (demo_conn [Read RELAY_BUF 0])" by (simp add: demo_quiet_def)
  from relay_tasks_wait_for_network [OF demo_task_laws moves_steps [OF demo_quiet_run] this] demo_quiet_turn show ?thesis
    by (simp add: demo_quiet_def poll_call_def)
qed

theorem relay_tasks_dial_failure_witness:
  "\<exists>p ce. (task_step buf_mpsc sim_tcp demo_net script_stream (connect demo_unreachable script_stream demo_proxy) demo_vconn)\<^sup>*\<^sup>*
       (tasks_start (link_new buf_mpsc demo_sock)) p \<and> tk_pc p = PipeDone (Inl (DialProxy (destination demo_vconn) ce)) \<and>
     delivered (lk_replies (tk_link p)) = []"
proof -
  let ?dial = "connect demo_unreachable script_stream demo_proxy"
  obtain ce where ce: "?dial (destination demo_vconn) = Inl ce"
    by (simp add: connect_def demo_unreachable_def Let_def)
  let ?p = "(tasks_start (link_new buf_mpsc demo_sock))\<lparr>tk_pc := PipeDone (Inl (DialProxy (destination demo_vconn) ce))\<rparr>"
  have "moves buf_mpsc sim_tcp script_stream ?dial demo_vconn [Main] (tasks_start (link_new buf_mpsc demo_sock)) = Some ?p"
    by (simp add: move_def move_main_def ce tasks_start_def)
  note run = moves_steps [OF this, of demo_net]
  from relay_tasks_dial_failure [OF demo_task_laws run, of "DialProxy (destination demo_vconn) ce"] run
  show ?thesis by auto
qed

end
