(* ===== verification/Config.thy ===== *)
theory Config
  imports Socks_Prelude
begin

text \<open>
  The configuration of \<open>src/config.rs\<close>: the \<open>Config\<close> struct and its default. A
  \<open>Duration\<close> here is a number of whole seconds, the only kind the program makes.
\<close>

section \<open>Definitions\<close>

type_synonym secs = u64

record config =
  device :: string
  proxy :: string
  cfg_mtu :: u16
  fwmark :: u32
  interface :: "string option"
  udp_timeout :: secs
  log_level :: string

definition config_default :: config where
  "config_default = \<lparr>device = [], proxy = [], cfg_mtu = 0, fwmark = 0, interface = None,
     udp_timeout = 60, log_level = ''info''\<rparr>"

end
