(* ===== verification/Device_Phy.thy ===== *)
theory Device_Phy
  imports Tokio_Iface
begin

text \<open>
  The bridge of \<open>src/device.rs\<close> between the asynchronous TUN pump and smoltcp's
  synchronous device: \<open>Phy\<close>, its tokens, \<open>receive\<close>, \<open>transmit\<close> and
  \<open>capabilities\<close>. The two channels are tokio's (\<open>mpsc_ops\<close>). The inbound side is a
  first-in first-out queue in two parts; the locale \<open>fifo\<close> states that contract and
  proves what holds of every interleaving of pushes and pops.
\<close>

section \<open>Definitions\<close>

definition QUEUE_DEPTH :: nat where "QUEUE_DEPTH = 1024"

type_synonym packet = bytes

datatype medium = Ethernet | MediumIp | Ieee802154

definition MEDIUM :: medium where "MEDIUM = MediumIp"

record 'c phy =
  inbound_rx :: 'c
  inbound_buf :: "packet list"
  outbound_tx :: 'c
  mtu :: nat

record 'c device_handles =
  inbound :: 'c
  outbound :: 'c

definition phy_new :: "('c, packet) mpsc_ops \<Rightarrow> nat \<Rightarrow> 'c phy \<times> 'c device_handles" where
  "phy_new M m =
     (let i = chan_new M QUEUE_DEPTH; o' = chan_new M QUEUE_DEPTH in
      (\<lparr>inbound_rx = i, inbound_buf = [], outbound_tx = o', mtu = m\<rparr>,
       \<lparr>inbound = i, outbound = o'\<rparr>))"

record rx_token = buffer :: packet

definition rx_consume :: "rx_token \<Rightarrow> (bytes \<Rightarrow> 'r) \<Rightarrow> 'r" where
  "rx_consume self f = f (buffer self)"

text \<open>
  A transmit token is a reference to the outbound channel, so \<open>consume\<close> is an effect on it;
  \<open>f\<close> fills the zeroed buffer and returns a result.
\<close>

definition tx_consume ::
  "('c, packet) mpsc_ops \<Rightarrow> nat \<Rightarrow> (bytes \<Rightarrow> 'r \<times> bytes) \<Rightarrow> 'c \<Rightarrow> 'r \<times> 'c" where
  "tx_consume M len f c =
     (case f (replicate len 0) of (r, buf) \<Rightarrow>
      (case try_send M buf c of (_, c') \<Rightarrow> (r, c')))"

record device_capabilities =
  cap_medium :: medium
  max_transmission_unit :: nat

definition capabilities :: "'c phy \<Rightarrow> device_capabilities" where
  "capabilities self = \<lparr>cap_medium = MEDIUM, max_transmission_unit = mtu self\<rparr>"

text \<open>The refill loop ends only when \<open>try_recv\<close> finds the channel empty.\<close>

partial_function (option) refill ::
  "('c, packet) mpsc_ops \<Rightarrow> 'c \<Rightarrow> packet list \<Rightarrow> ('c \<times> packet list) option" where
  "refill M rx buf =
     (case try_recv M rx of
        (Some pkt, rx') \<Rightarrow> refill M rx' (buf @ [pkt])
      | (None, rx') \<Rightarrow> Some (rx', buf))"

definition receive :: "('c, packet) mpsc_ops \<Rightarrow> 'c phy \<Rightarrow> (rx_token option \<times> 'c phy) option" where
  "receive M self =
     (case refill M (inbound_rx self) (inbound_buf self) of
        None \<Rightarrow> None
      | Some (rx, buf) \<Rightarrow>
          let self = self\<lparr>inbound_rx := rx, inbound_buf := buf\<rparr> in
          (case inbound_buf self of
             [] \<Rightarrow> Some (None, self)
           | pkt # rest \<Rightarrow> Some (Some \<lparr>buffer = pkt\<rparr>, self\<lparr>inbound_buf := rest\<rparr>)))"

text \<open>\<open>transmit\<close> always offers a token: consuming it sends on the outbound channel.\<close>

definition transmit ::
  "('c, packet) mpsc_ops \<Rightarrow> 'c phy \<Rightarrow> (nat \<Rightarrow> (bytes \<Rightarrow> 'r \<times> bytes) \<Rightarrow> 'r \<times> 'c phy) option" where
  "transmit M self = Some (\<lambda>len f.
     case tx_consume M len f (outbound_tx self) of (r, c) \<Rightarrow> (r, self\<lparr>outbound_tx := c\<rparr>))"

section \<open>First-in first-out queues\<close>

datatype 'a queue_op = Push 'a | Pop

text \<open>
  A run of pushes and pops: the values accepted, the values popped, and the queue at the end.
\<close>

fun run_queue ::
  "('a \<Rightarrow> 'q \<Rightarrow> bool \<times> 'q) \<Rightarrow> ('q \<Rightarrow> ('a option \<times> 'q) option) \<Rightarrow> 'a queue_op list \<Rightarrow> 'q \<Rightarrow>
   ('a list \<times> 'a list \<times> 'q) option" where
  "run_queue push pop [] q = Some ([], [], q)"
| "run_queue push pop (Push x # os) q =
     (case push x q of (ok, q') \<Rightarrow>
        map_option (\<lambda>(acc, got, q''). (if ok then x # acc else acc, got, q''))
          (run_queue push pop os q'))"
| "run_queue push pop (Pop # os) q =
     Option.bind (pop q) (\<lambda>(r, q').
        map_option (\<lambda>(acc, got, q''). (acc, (case r of None \<Rightarrow> got | Some x \<Rightarrow> x # got), q''))
          (run_queue push pop os q'))"

locale fifo =
  fixes invar :: "'q \<Rightarrow> bool"
    and contents :: "'q \<Rightarrow> 'a list"
    and push :: "'a \<Rightarrow> 'q \<Rightarrow> bool \<times> 'q"
    and pop :: "'q \<Rightarrow> ('a option \<times> 'q) option"
  assumes push_accept: "invar q \<Longrightarrow> push x q = (True, q') \<Longrightarrow> contents q' = contents q @ [x]"
    and push_refuse: "invar q \<Longrightarrow> push x q = (False, q') \<Longrightarrow> contents q' = contents q"
    and push_invar: "invar q \<Longrightarrow> push x q = (ok, q') \<Longrightarrow> invar q'"
    and pop_returns: "invar q \<Longrightarrow> \<exists>r q'. pop q = Some (r, q')"
    and pop_some: "invar q \<Longrightarrow> pop q = Some (Some x, q') \<Longrightarrow> contents q = x # contents q'"
    and pop_none: "invar q \<Longrightarrow> pop q = Some (None, q') \<Longrightarrow> contents q = [] \<and> contents q' = []"
    and pop_invar: "invar q \<Longrightarrow> pop q = Some (r, q') \<Longrightarrow> invar q'"
begin

text \<open>Every run returns; what came out, then what is left, is what was there, then what went in.\<close>

lemma run_fifo:
  "invar q \<Longrightarrow> \<exists>acc got q'. run_queue push pop os q = Some (acc, got, q') \<and> invar q' \<and>
     contents q @ acc = got @ contents q'"
proof (induction os arbitrary: q)
  case Nil
  then show ?case by simp
next
  case (Cons o' os)
  show ?case
  proof (cases o')
    case (Push x)
    obtain ok q1 where p: "push x q = (ok, q1)" by (cases "push x q")
    with Cons.prems push_invar have "invar q1" by blast
    from Cons.IH [OF this] obtain acc got q' where run: "run_queue push pop os q1 = Some (acc, got, q')"
      and q': "invar q'" "contents q1 @ acc = got @ contents q'" by blast
    have "contents q1 = contents q @ (if ok then [x] else [])"
      using push_accept push_refuse Cons.prems p by (cases ok) auto
    with run p q' Push show ?thesis by auto
  next
    case Pop
    from pop_returns [OF Cons.prems] obtain r q1 where p: "pop q = Some (r, q1)" by blast
    with Cons.prems pop_invar have "invar q1" by blast
    from Cons.IH [OF this] obtain acc got q' where run: "run_queue push pop os q1 = Some (acc, got, q')"
      and q': "invar q'" "contents q1 @ acc = got @ contents q'" by blast
    have "contents q = (case r of None \<Rightarrow> contents q1 | Some x \<Rightarrow> x # contents q1)"
      using pop_some pop_none Cons.prems p by (cases r) auto
    with run p q' Pop show ?thesis by (cases r) auto
  qed
qed

end

section \<open>The inbound side as a queue\<close>

definition pending :: "('c \<Rightarrow> packet list) \<Rightarrow> 'c phy \<Rightarrow> packet list" where
  "pending queue self = inbound_buf self @ queue (inbound_rx self)"

text \<open>The pump's end: \<open>inbound.try_send\<close> on the same channel.\<close>

definition phy_push :: "('c, packet) mpsc_ops \<Rightarrow> packet \<Rightarrow> 'c phy \<Rightarrow> bool \<times> 'c phy" where
  "phy_push M pkt self =
     (case try_send M pkt (inbound_rx self) of (ok, c) \<Rightarrow> (ok, self\<lparr>inbound_rx := c\<rparr>))"

definition phy_pop :: "('c, packet) mpsc_ops \<Rightarrow> 'c phy \<Rightarrow> (packet option \<times> 'c phy) option" where
  "phy_pop M self = map_option (apfst (map_option buffer)) (receive M self)"

lemma refill_all:
  assumes "mpsc_laws M queue cap"
  shows "\<exists>c. refill M rx buf = Some (c, buf @ queue rx) \<and> queue c = []"
proof (induction "queue rx" arbitrary: rx buf)
  case Nil
  from try_recv_Nil [OF assms Nil.hyps [symmetric]] Nil show ?case
    by (subst refill.simps) auto
next
  case (Cons p ps)
  from try_recv_Cons [OF assms Cons.hyps(2) [symmetric]] obtain c
    where c: "try_recv M rx = (Some p, c)" "queue c = ps" by blast
  with Cons.hyps(1) [of c "buf @ [p]"] Cons.hyps(2) [symmetric] show ?case
    by (subst refill.simps) auto
qed

lemma receive_eq:
  assumes "mpsc_laws M queue cap"
  obtains c where "queue c = []" and "receive M self = Some (case pending queue self of
      [] \<Rightarrow> (None, self\<lparr>inbound_rx := c, inbound_buf := []\<rparr>)
    | p # ps \<Rightarrow> (Some \<lparr>buffer = p\<rparr>, self\<lparr>inbound_rx := c, inbound_buf := ps\<rparr>))"
proof -
  obtain c where c: "refill M (inbound_rx self) (inbound_buf self) = Some (c, pending queue self)"
    "queue c = []" using refill_all [OF assms, of "inbound_rx self" "inbound_buf self"]
    by (auto simp: pending_def)
  show thesis
    by (rule that [of c]) (use c in \<open>auto simp: receive_def Let_def split: list.splits\<close>)
qed

interpretation inbound: fifo "\<lambda>_. mpsc_laws M queue cap" "pending queue" "phy_push M" "phy_pop M"
  for M queue cap
proof unfold_locales
  fix q x q'
  assume L: "mpsc_laws M queue cap"
  show "phy_push M x q = (True, q') \<Longrightarrow> pending queue q' = pending queue q @ [x]"
    by (auto simp: phy_push_def pending_def dest: try_send_True [OF L] split: prod.splits)
  show "phy_push M x q = (False, q') \<Longrightarrow> pending queue q' = pending queue q"
    by (auto simp: phy_push_def pending_def dest: try_send_False [OF L] split: prod.splits)
  obtain c where c: "queue c = []" "receive M q = Some (case pending queue q of
      [] \<Rightarrow> (None, q\<lparr>inbound_rx := c, inbound_buf := []\<rparr>)
    | p # ps \<Rightarrow> (Some \<lparr>buffer = p\<rparr>, q\<lparr>inbound_rx := c, inbound_buf := ps\<rparr>))"
    by (rule receive_eq [OF L])
  show "\<exists>r q'. phy_pop M q = Some (r, q')" using c by (auto simp: phy_pop_def split: list.splits)
  show "phy_pop M q = Some (Some x, q') \<Longrightarrow> pending queue q = x # pending queue q'"
    using c by (auto simp: phy_pop_def pending_def split: list.splits)
  show "phy_pop M q = Some (None, q') \<Longrightarrow> pending queue q = [] \<and> pending queue q' = []"
    using c by (auto simp: phy_pop_def pending_def split: list.splits)
qed

section \<open>Properties\<close>

text \<open>
  C29. However the pump's sends and the stack's receives interleave, every receive returns and
  the stack sees the packets the channel accepted, each once and in the order they were
  accepted: the packets received, followed by those still pending, are those pending at the
  start, followed by those accepted.
\<close>
theorem inbound_in_order:
  assumes "mpsc_laws M queue cap"
  shows "\<exists>acc got self'. run_queue (phy_push M) (phy_pop M) ops self = Some (acc, got, self') \<and>
    pending queue self @ acc = got @ pending queue self'"
  using inbound.run_fifo [OF assms, of ops self] by blast

text \<open>
  \<open>receive\<close> always returns. It hands out the oldest packet, and nothing only when no
  packet is pending; afterwards the channel is empty, whatever was in it having moved to the
  local buffer, and the outbound side and the MTU are as before.
\<close>
theorem receive_oldest:
  assumes "mpsc_laws M queue cap"
  shows "\<exists>tok self'. receive M self = Some (tok, self') \<and>
    pending queue self = (case tok of None \<Rightarrow> [] | Some t \<Rightarrow> [rx_consume t (\<lambda>pkt. pkt)]) @ inbound_buf self' \<and>
    (tok = None \<longleftrightarrow> pending queue self = []) \<and>
    queue (inbound_rx self') = [] \<and> outbound_tx self' = outbound_tx self \<and>
    capabilities self' = capabilities self"
proof -
  obtain c where c: "queue c = []" "receive M self = Some (case pending queue self of
      [] \<Rightarrow> (None, self\<lparr>inbound_rx := c, inbound_buf := []\<rparr>)
    | p # ps \<Rightarrow> (Some \<lparr>buffer = p\<rparr>, self\<lparr>inbound_rx := c, inbound_buf := ps\<rparr>))"
    by (rule receive_eq [OF assms])
  then show ?thesis
    by (cases "pending queue self") (simp_all add: rx_consume_def capabilities_def)
qed

text \<open>
  C30. A transmit token is always offered. Consuming it runs the stack's writer on a zeroed
  buffer of the requested length and returns the writer's result. While the outbound channel is
  open and has room, the buffer goes to its end; when it is full, the buffer is dropped and the
  channel is as it was; nothing else ever happens to it, it never grows past its capacity, and
  the inbound side is untouched.
\<close>
theorem transmit_sends_or_drops:
  assumes "mpsc_laws M queue cap" and "open_laws M queue cap"
    and "length (queue (outbound_tx self)) \<le> cap (outbound_tx self)"
  shows "\<exists>token c. transmit M self = Some token \<and>
    token len f = (fst (f (replicate len 0)), self\<lparr>outbound_tx := c\<rparr>) \<and>
    (\<not> rx_closed M (outbound_tx self) \<and> length (queue (outbound_tx self)) < cap (outbound_tx self) \<longrightarrow>
       queue c = queue (outbound_tx self) @ [snd (f (replicate len 0))]) \<and>
    (length (queue (outbound_tx self)) = cap (outbound_tx self) \<longrightarrow> queue c = queue (outbound_tx self)) \<and>
    (queue c = queue (outbound_tx self) @ [snd (f (replicate len 0))] \<or> queue c = queue (outbound_tx self)) \<and>
    length (queue c) \<le> cap c \<and> cap c = cap (outbound_tx self)"
proof -
  obtain r buf where f: "f (replicate len 0) = (r, buf)" by fastforce
  obtain ok c where c: "try_send M buf (outbound_tx self) = (ok, c)" by fastforce
  have q: "queue c = queue (outbound_tx self) @ (if ok then [buf] else []) \<and> cap c = cap (outbound_tx self) \<and>
      (ok \<longrightarrow> length (queue (outbound_tx self)) < cap (outbound_tx self))"
    using try_send_True [OF assms(1)] try_send_False [OF assms(1)] c by (cases ok) auto
  have ok: "ok" if "\<not> rx_closed M (outbound_tx self)" "length (queue (outbound_tx self)) < cap (outbound_tx self)"
    using try_send_room [OF assms(2) that, of buf] c by simp
  have t: "(case tx_consume M len f (outbound_tx self) of (r, c) \<Rightarrow> (r, self\<lparr>outbound_tx := c\<rparr>)) =
      (r, self\<lparr>outbound_tx := c\<rparr>)" by (simp add: tx_consume_def f c)
  have "length (queue c) \<le> cap c" using q assms(3) by (cases ok) auto
  with t q f ok show ?thesis
    by (intro exI [of _ "the (transmit M self)"] exI [of _ c]) (auto simp: transmit_def split: if_splits)
qed

section \<open>Witnesses\<close>

definition demo_phy :: "packet buf_chan phy" where
  "demo_phy = fst (phy_new buf_mpsc 1500)"

lemmas phy_eval = demo_phy_def phy_new_def QUEUE_DEPTH_def buf_mpsc_def Let_def

theorem inbound_in_order_witness:
  "\<exists>acc got self'. run_queue (phy_push buf_mpsc) (phy_pop buf_mpsc)
       [Push [1], Push [2], Pop, Push [3], Pop, Pop, Pop] demo_phy = Some (acc, got, self') \<and>
     acc = got @ pending bc_queue self'"
proof -
  have "pending bc_queue demo_phy = []" by (simp add: pending_def phy_eval)
  with inbound_in_order [OF buf_mpsc_laws, of "[Push [1], Push [2], Pop, Push [3], Pop, Pop, Pop]" demo_phy]
  show ?thesis by auto
qed

theorem receive_oldest_witness:
  "\<exists>self'. receive buf_mpsc (snd (phy_push buf_mpsc [69, 0] demo_phy)) = Some (Some \<lparr>buffer = [69, 0]\<rparr>, self') \<and>
     inbound_buf self' = []"
proof -
  have "pending bc_queue (snd (phy_push buf_mpsc [69, 0] demo_phy)) = [[69, 0]]"
    by (simp add: pending_def phy_push_def phy_eval)
  with receive_oldest [OF buf_mpsc_laws, of "snd (phy_push buf_mpsc [69, 0] demo_phy)"] obtain tok self' where
    run: "receive buf_mpsc (snd (phy_push buf_mpsc [69, 0] demo_phy)) = Some (tok, self')"
    and pkt: "[[69, 0]] = (case tok of None \<Rightarrow> [] | Some t \<Rightarrow> [rx_consume t (\<lambda>pkt. pkt)]) @ inbound_buf self'"
    and tok: "tok \<noteq> None"
    by auto
  from tok obtain t where t: "tok = Some t" by blast
  with pkt have "buffer t = [69, 0]" and "inbound_buf self' = []" by (simp_all add: rx_consume_def)
  with run t show ?thesis by (cases t) simp
qed

theorem transmit_sends_or_drops_witness:
  "\<exists>token c. transmit buf_mpsc demo_phy = Some token \<and>
     token 2 (\<lambda>b. (length b, 69 # tl b)) = (2, demo_phy\<lparr>outbound_tx := c\<rparr>) \<and> bc_queue c = [[69, 0]]"
  using transmit_sends_or_drops [OF buf_mpsc_laws buf_open_laws, of demo_phy 2 "\<lambda>b. (length b, 69 # tl b)"]
  by (auto simp: phy_eval numeral_2_eq_2)

end
