(* ===== verification/Netstack.thy ===== *)
theory Netstack
  imports Config Device_Phy Smoltcp_Iface
begin

text \<open>
  Interface setup of \<open>src/netstack/mod.rs\<close>: \<open>build_interface\<close>, the polling
  interval, the effective MTU and the TCP socket constructor. smoltcp's \<open>Interface\<close> is
  a parameter, a record of the operations the program calls; \<open>iface_laws\<close> states the one
  thing the actor relies on, that polling does not add or remove sockets.
\<close>

section \<open>smoltcp's interface\<close>

datatype hardware_address = HwIp | HwEthernet "48 word"

type_synonym instant = nat
type_synonym millis = u64

record ('i, 'd, 'z) iface_ops =
  iface_new :: "hardware_address \<Rightarrow> 'd phy \<Rightarrow> instant \<Rightarrow> 'i"
  set_any_ip :: "bool \<Rightarrow> 'i \<Rightarrow> 'i"
  add_default_ipv4_route :: "u32 \<Rightarrow> 'i \<Rightarrow> bool \<times> 'i"
  add_default_ipv6_route :: "128 word \<Rightarrow> 'i \<Rightarrow> bool \<times> 'i"
  poll :: "instant \<Rightarrow> 'i \<Rightarrow> 'd phy \<Rightarrow> 'z \<Rightarrow> 'i \<times> 'd phy \<times> 'z"
  poll_egress :: "instant \<Rightarrow> 'i \<Rightarrow> 'd phy \<Rightarrow> 'z \<Rightarrow> 'i \<times> 'd phy \<times> 'z"
  poll_delay :: "instant \<Rightarrow> 'i \<Rightarrow> 'z \<Rightarrow> millis option"

definition iface_laws :: "('i, 'd, 'z) iface_ops \<Rightarrow> ('z, 'h, 'k) set_ops \<Rightarrow> bool" where
  "iface_laws I Z \<longleftrightarrow>
     (\<forall>now i p z i' p' z'. poll I now i p z = (i', p', z') \<longrightarrow> handles Z z' = handles Z z) \<and>
     (\<forall>now i p z i' p' z'. poll_egress I now i p z = (i', p', z') \<longrightarrow> handles Z z' = handles Z z)"

section \<open>Definitions\<close>

definition build_interface :: "('i, 'd, 'z) iface_ops \<Rightarrow> instant \<Rightarrow> 'd phy \<Rightarrow> 'i" where
  "build_interface I now p =
     (let i = iface_new I HwIp p now;
          i = set_any_ip I True i;
          (_, i) = add_default_ipv4_route I 0 i;
          (_, i) = add_default_ipv6_route I 0 i
      in i)"

definition IDLE_POLL_INTERVAL :: millis where "IDLE_POLL_INTERVAL = 100"

definition resolve_mtu :: "config \<Rightarrow> nat" where
  "resolve_mtu cfg = (if cfg_mtu cfg = 0 then 1500 else unat (cfg_mtu cfg))"

definition new_tcp_socket :: "'k tcp_ops \<Rightarrow> nat \<Rightarrow> nat \<Rightarrow> 'k" where
  "new_tcp_socket T rx_buf tx_buf = tcp_new T rx_buf tx_buf"

section \<open>Lemmas\<close>

lemma poll_handles:
  "iface_laws I Z \<Longrightarrow> poll I now i p z = (i', p', z') \<Longrightarrow> handles Z z' = handles Z z"
  unfolding iface_laws_def by blast

lemma poll_egress_handles:
  "iface_laws I Z \<Longrightarrow> poll_egress I now i p z = (i', p', z') \<Longrightarrow> handles Z z' = handles Z z"
  unfolding iface_laws_def by blast

text \<open>The effective MTU fits a \<open>u16\<close>, so the cast in \<open>open_tun\<close> loses nothing.\<close>

lemma resolve_mtu_bounds: "0 < resolve_mtu cfg \<and> resolve_mtu cfg < 2 ^ 16"
  using unat_lt2p_16 [of "cfg_mtu cfg"] by (auto simp: resolve_mtu_def unat_gt_0)

end
