(* ===== verification/Netstack_Actor.thy ===== *)
theory Netstack_Actor
  imports Netstack Conn_State
begin

text \<open>
  The actor of \<open>src/netstack/actor.rs\<close> that owns the interface, the device and every
  socket: the pool of wildcard listeners, \<open>try_accept\<close>, \<open>service_commands\<close>,
  \<open>run\<close> and \<open>spawn\<close>. A panic, and a call that does not return, is \<open>None\<close>. The
  loop of \<open>run\<close> is a step relation with a program counter, interleaved with everything
  the other tasks may do to the channels; it is an instance of the prelude's
  \<open>live_system\<close>, which carries the invariant and progress to all reachable states.
\<close>

section \<open>State\<close>

definition TCP_RX_BUF :: nat where "TCP_RX_BUF = 64 * 1024"
definition TCP_TX_BUF :: nat where "TCP_TX_BUF = 64 * 1024"
definition LISTENER_POOL_SIZE :: nat where "LISTENER_POOL_SIZE = 4"

text \<open>
  The sending half a \<open>VConn\<close> holds is named by the socket handle whose connection owns
  the receiving half. The actor drops a receiver only when every sender is gone, so a live
  name is never ambiguous.
\<close>

type_synonym 'h accepted = "'h vconn \<times> conn_meta"

record ('i, 'd, 'z, 'h, 'c, 'r, 'a, 's) netstack_actor =
  iface :: 'i
  phy_dev :: "'d phy"
  sockets :: 'z
  conns :: "'h \<rightharpoonup> ('c, 'r) conn_state"
  listeners :: "'h list"
  accepted_tx :: 'a
  stop_rx :: 's

section \<open>Operations\<close>

definition add_wildcard_listener ::
  "'k tcp_ops \<Rightarrow> ('z, 'h, 'k) set_ops \<Rightarrow> 'z \<Rightarrow> ('h \<times> 'z) option" where
  "add_wildcard_listener T Z z =
     (case tcp_listen T (new_tcp_socket T TCP_RX_BUF TCP_TX_BUF) of
        Inl _ \<Rightarrow> None
      | Inr socket \<Rightarrow> Some (set_add Z socket z))"

fun add_listeners :: "'k tcp_ops \<Rightarrow> ('z, 'h, 'k) set_ops \<Rightarrow> nat \<Rightarrow> 'z \<Rightarrow> ('h list \<times> 'z) option" where
  "add_listeners T Z 0 z = Some ([], z)"
| "add_listeners T Z (Suc n) z =
     Option.bind (add_wildcard_listener T Z z) (\<lambda>(h, z).
       map_option (apfst (Cons h)) (add_listeners T Z n z))"

definition with_channels ::
  "'k tcp_ops \<Rightarrow> ('z, 'h, 'k) set_ops \<Rightarrow> 'i \<Rightarrow> 'd phy \<Rightarrow> 'a \<Rightarrow> 's \<Rightarrow>
   ('i, 'd, 'z, 'h, 'c, 'r, 'a, 's) netstack_actor option" where
  "with_channels T Z i p acc st =
     map_option (\<lambda>(hs, z). \<lparr>iface = i, phy_dev = p, sockets = z, conns = Map.empty, listeners = hs,
         accepted_tx = acc, stop_rx = st\<rparr>)
       (add_listeners T Z LISTENER_POOL_SIZE (set_empty Z))"

text \<open>
  One turn of the loop over the listener slots: the new content of the slot. The slots
  themselves are not read by the body.
\<close>

definition replace_listener ::
  "'k tcp_ops \<Rightarrow> ('z, 'h, 'k) set_ops \<Rightarrow> 'h \<Rightarrow> 'k \<Rightarrow>
   ('i, 'd, 'z, 'h, 'c, 'r, 'a, 's) netstack_actor \<Rightarrow>
   ('h \<times> ('i, 'd, 'z, 'h, 'c, 'r, 'a, 's) netstack_actor) option" where
  "replace_listener T Z handle socket self =
     Option.bind (set_remove Z handle (set_put Z handle (tcp_abort T socket) (sockets self))) (\<lambda>z.
       map_option (\<lambda>(h, z). (h, self\<lparr>sockets := z\<rparr>)) (add_wildcard_listener T Z z))"

definition try_accept_slot ::
  "('c, 'r conn_cmd) mpsc_ops \<Rightarrow> ('a, 'h accepted) mpsc_ops \<Rightarrow> 'k tcp_ops \<Rightarrow> ('z, 'h, 'k) set_ops \<Rightarrow>
   'h \<Rightarrow> ('i, 'd, 'z, 'h, 'c, 'r, 'a, 's) netstack_actor \<Rightarrow>
   ('h \<times> ('i, 'd, 'z, 'h, 'c, 'r, 'a, 's) netstack_actor) option" where
  "try_accept_slot M A T Z handle self =
     (case set_get Z handle (sockets self) of
        None \<Rightarrow> None
      | Some socket \<Rightarrow>
          if tcp_state T socket = Listen \<or> tcp_state T socket = SynReceived then Some (handle, self)
          else if tcp_state T socket = Established \<or> tcp_state T socket = CloseWait then
            (case (local_endpoint T socket, remote_endpoint T socket) of
               (Some local, Some remote) \<Rightarrow>
                 let m = \<lparr>src = remote, dst = local\<rparr>;
                     cmd_rx = chan_new M 32;
                     vconn = vconn_new m handle;
                     (ok, acc) = try_send A (vconn, m) (accepted_tx self);
                     self = self\<lparr>accepted_tx := acc\<rparr>
                 in if ok
                    then map_option (\<lambda>(h, z).
                           (h, self\<lparr>conns := (conns self)(handle \<mapsto> conn_state_new cmd_rx), sockets := z\<rparr>))
                         (add_wildcard_listener T Z (sockets self))
                    else replace_listener T Z handle socket self
             | _ \<Rightarrow> replace_listener T Z handle socket self)
          else replace_listener T Z handle socket self)"

fun try_accept_slots ::
  "('c, 'r conn_cmd) mpsc_ops \<Rightarrow> ('a, 'h accepted) mpsc_ops \<Rightarrow> 'k tcp_ops \<Rightarrow> ('z, 'h, 'k) set_ops \<Rightarrow>
   'h list \<Rightarrow> ('i, 'd, 'z, 'h, 'c, 'r, 'a, 's) netstack_actor \<Rightarrow>
   ('h list \<times> ('i, 'd, 'z, 'h, 'c, 'r, 'a, 's) netstack_actor) option" where
  "try_accept_slots M A T Z [] self = Some ([], self)"
| "try_accept_slots M A T Z (slot # slots) self =
     Option.bind (try_accept_slot M A T Z slot self) (\<lambda>(h, self).
       map_option (apfst (Cons h)) (try_accept_slots M A T Z slots self))"

definition try_accept ::
  "('c, 'r conn_cmd) mpsc_ops \<Rightarrow> ('a, 'h accepted) mpsc_ops \<Rightarrow> 'k tcp_ops \<Rightarrow> ('z, 'h, 'k) set_ops \<Rightarrow>
   ('i, 'd, 'z, 'h, 'c, 'r, 'a, 's) netstack_actor \<Rightarrow>
   ('i, 'd, 'z, 'h, 'c, 'r, 'a, 's) netstack_actor option" where
  "try_accept M A T Z self =
     map_option (\<lambda>(hs, self). self\<lparr>listeners := hs\<rparr>)
       (try_accept_slots M A T Z (listeners self) self)"

text \<open>
  \<open>HashMap::retain\<close> visits the entries in an unspecified order, which is an argument:
  any list of the keys without repetition.
\<close>

definition service_conn ::
  "('c, 'r conn_cmd) mpsc_ops \<Rightarrow> 'k tcp_ops \<Rightarrow> ('z, 'h, 'k) set_ops \<Rightarrow> ('r \<Rightarrow> 'c \<Rightarrow> bool) \<Rightarrow> 'h \<Rightarrow>
   ('i, 'd, 'z, 'h, 'c, 'r, 'a, 's) netstack_actor \<times> 'r reply list \<Rightarrow>
   (('i, 'd, 'z, 'h, 'c, 'r, 'a, 's) netstack_actor \<times> 'r reply list) option" where
  "service_conn M T Z is_closed handle x = (case x of (self, log) \<Rightarrow>
     (case conns self handle of
        None \<Rightarrow> Some (self, log)
      | Some conn \<Rightarrow>
         (case set_get Z handle (sockets self) of
            None \<Rightarrow> None
          | Some socket \<Rightarrow>
             (case service M T is_closed (conn, socket, log) of
                None \<Rightarrow> None
              | Some (conn, socket, log) \<Rightarrow>
                  if rx_closed M (cmd_rx conn) \<and> rx_empty M (cmd_rx conn)
                  then (case fail_pending (conn, log) of (_, log) \<Rightarrow>
                    map_option (\<lambda>z. (self\<lparr>conns := (conns self)(handle := None), sockets := z\<rparr>, log))
                      (set_remove Z handle (set_put Z handle (tcp_abort T socket) (sockets self))))
                  else Some (self\<lparr>conns := (conns self)(handle \<mapsto> conn),
                         sockets := set_put Z handle socket (sockets self)\<rparr>, log)))))"

fun service_commands ::
  "('c, 'r conn_cmd) mpsc_ops \<Rightarrow> 'k tcp_ops \<Rightarrow> ('z, 'h, 'k) set_ops \<Rightarrow> ('r \<Rightarrow> 'c \<Rightarrow> bool) \<Rightarrow> 'h list \<Rightarrow>
   ('i, 'd, 'z, 'h, 'c, 'r, 'a, 's) netstack_actor \<times> 'r reply list \<Rightarrow>
   (('i, 'd, 'z, 'h, 'c, 'r, 'a, 's) netstack_actor \<times> 'r reply list) option" where
  "service_commands M T Z is_closed [] x = Some x"
| "service_commands M T Z is_closed (handle # order) x =
     Option.bind (service_conn M T Z is_closed handle x) (service_commands M T Z is_closed order)"

text \<open>How long \<open>run\<close> sleeps before the next turn, in milliseconds.\<close>

definition sleep_delay ::
  "('i, 'd, 'z) iface_ops \<Rightarrow> instant \<Rightarrow> ('i, 'd, 'z, 'h, 'c, 'r, 'a, 's) netstack_actor \<Rightarrow> millis" where
  "sleep_delay I now self =
     min (case poll_delay I now (iface self) (sockets self) of
            Some delay \<Rightarrow> delay
          | None \<Rightarrow> IDLE_POLL_INTERVAL)
         IDLE_POLL_INTERVAL"

record 's netstack_handle =
  stop_tx :: 's

text \<open>
  \<open>spawn\<close> makes the two channels, builds the actor and starts its task and the
  dispatcher's; the tasks are the steps of the relation below.
\<close>

definition spawn ::
  "('a, 'h accepted) mpsc_ops \<Rightarrow> ('s, unit) mpsc_ops \<Rightarrow> 'k tcp_ops \<Rightarrow> ('z, 'h, 'k) set_ops \<Rightarrow>
   'i \<Rightarrow> 'd phy \<Rightarrow> (('i, 'd, 'z, 'h, 'c, 'r, 'a, 's) netstack_actor \<times> 's netstack_handle) option" where
  "spawn A S T Z i p =
     (let acc = chan_new A 64; st = chan_new S 1 in
      map_option (\<lambda>self. (self, \<lparr>stop_tx = st\<rparr>)) (with_channels T Z i p acc st))"

section \<open>The tasks as steps\<close>

datatype phase = Polling | Accepting | Servicing | Egress | Waiting | Stopped

text \<open>
  The actor with its program counter and the instant of the current turn, the replies it has
  sent, and the relays the dispatcher has started.
\<close>

record ('i, 'd, 'z, 'h, 'c, 'r, 'a, 's) system =
  actor :: "('i, 'd, 'z, 'h, 'c, 'r, 'a, 's) netstack_actor"
  phase :: phase
  now :: instant
  replies :: "'r reply list"
  relays :: "'h accepted list"

definition system_start ::
  "('i, 'd, 'z, 'h, 'c, 'r, 'a, 's) netstack_actor \<Rightarrow> ('i, 'd, 'z, 'h, 'c, 'r, 'a, 's) system" where
  "system_start self = \<lparr>actor = self, phase = Polling, now = 0, replies = [], relays = []\<rparr>"

inductive system_step ::
  "('c, 'r conn_cmd) mpsc_ops \<Rightarrow> ('a, 'h accepted) mpsc_ops \<Rightarrow> ('s, unit) mpsc_ops \<Rightarrow> 'k tcp_ops \<Rightarrow>
   ('z, 'h, 'k) set_ops \<Rightarrow> ('i, 'd, 'z) iface_ops \<Rightarrow> ('r \<Rightarrow> 'c \<Rightarrow> bool) \<Rightarrow>
   ('i, 'd, 'z, 'h, 'c, 'r, 'a, 's) system \<Rightarrow> ('i, 'd, 'z, 'h, 'c, 'r, 'a, 's) system \<Rightarrow> bool"
  for M A S T Z I is_closed where
  step_poll: "phase s = Polling \<Longrightarrow>
     poll I t (iface (actor s)) (phy_dev (actor s)) (sockets (actor s)) = (i, p, z) \<Longrightarrow>
     system_step M A S T Z I is_closed s
       (s\<lparr>actor := (actor s)\<lparr>iface := i, phy_dev := p, sockets := z\<rparr>, now := t, phase := Accepting\<rparr>)"
| step_accept: "phase s = Accepting \<Longrightarrow> try_accept M A T Z (actor s) = Some self \<Longrightarrow>
     system_step M A S T Z I is_closed s (s\<lparr>actor := self, phase := Servicing\<rparr>)"
| step_service: "phase s = Servicing \<Longrightarrow> distinct order \<Longrightarrow> set order = dom (conns (actor s)) \<Longrightarrow>
     service_commands M T Z is_closed order (actor s, replies s) = Some (self, log) \<Longrightarrow>
     system_step M A S T Z I is_closed s (s\<lparr>actor := self, replies := log, phase := Egress\<rparr>)"
| step_egress: "phase s = Egress \<Longrightarrow>
     poll_egress I (now s) (iface (actor s)) (phy_dev (actor s)) (sockets (actor s)) = (i, p, z) \<Longrightarrow>
     system_step M A S T Z I is_closed s
       (s\<lparr>actor := (actor s)\<lparr>iface := i, phy_dev := p, sockets := z\<rparr>, phase := Waiting\<rparr>)"
| step_sleep: "phase s = Waiting \<Longrightarrow> system_step M A S T Z I is_closed s (s\<lparr>phase := Polling\<rparr>)"
| step_stop: "phase s = Waiting \<Longrightarrow>
     fst (try_recv S (stop_rx (actor s))) \<noteq> None \<or> rx_closed S (stop_rx (actor s)) \<Longrightarrow>
     system_step M A S T Z I is_closed s (s\<lparr>phase := Stopped\<rparr>)"
| step_dispatch: "try_recv A (accepted_tx (actor s)) = (Some vm, acc) \<Longrightarrow>
     system_step M A S T Z I is_closed s
       (s\<lparr>actor := (actor s)\<lparr>accepted_tx := acc\<rparr>, relays := relays s @ [vm]\<rparr>)"
| step_relays: "system_step M A S T Z I is_closed s
     (s\<lparr>actor := (actor s)\<lparr>conns := (\<lambda>h. map_option (cmd_rx_update (f h)) (conns (actor s) h))\<rparr>\<rparr>)"
| step_pump: "system_step M A S T Z I is_closed s
     (s\<lparr>actor := (actor s)\<lparr>phy_dev := (phy_dev (actor s))\<lparr>inbound_rx := i, outbound_tx := e\<rparr>\<rparr>\<rparr>)"
| step_handle: "system_step M A S T Z I is_closed s (s\<lparr>actor := (actor s)\<lparr>stop_rx := st\<rparr>\<rparr>)"

section \<open>Specification\<close>

text \<open>
  Every socket of the set is a listener or an accepted connection, never both, and there are
  always \<open>LISTENER_POOL_SIZE\<close> listeners.
\<close>

definition sockets_split ::
  "('z, 'h, 'k) set_ops \<Rightarrow> 'h set \<Rightarrow> ('i, 'd, 'z, 'h, 'c, 'r, 'a, 's) netstack_actor \<Rightarrow> bool" where
  "sockets_split Z L self \<longleftrightarrow> L \<inter> dom (conns self) = {} \<and> handles Z (sockets self) = L \<union> dom (conns self)"

definition actor_inv ::
  "('z, 'h, 'k) set_ops \<Rightarrow> ('i, 'd, 'z, 'h, 'c, 'r, 'a, 's) netstack_actor \<Rightarrow> bool" where
  "actor_inv Z self \<longleftrightarrow>
     length (listeners self) = LISTENER_POOL_SIZE \<and> distinct (listeners self) \<and>
     finite (dom (conns self)) \<and> sockets_split Z (set (listeners self)) self"

definition listening ::
  "'k tcp_ops \<Rightarrow> ('z, 'h, 'k) set_ops \<Rightarrow> ('i, 'd, 'z, 'h, 'c, 'r, 'a, 's) netstack_actor \<Rightarrow> 'h \<Rightarrow> bool" where
  "listening T Z self h \<longleftrightarrow>
     (case set_get Z h (sockets self) of
        None \<Rightarrow> False | Some k \<Rightarrow> tcp_state T k = Listen \<or> tcp_state T k = SynReceived)"

text \<open>A connection that has just been accepted: the socket of \<open>h\<close> and the metadata made from it.\<close>

definition accepted_as ::
  "'k tcp_ops \<Rightarrow> ('z, 'h, 'k) set_ops \<Rightarrow> 'z \<Rightarrow> 'h \<times> conn_meta \<Rightarrow> bool" where
  "accepted_as T Z z hm = (case hm of (h, m) \<Rightarrow>
     (case set_get Z h z of
        None \<Rightarrow> False
      | Some k \<Rightarrow> (tcp_state T k = Established \<or> tcp_state T k = CloseWait) \<and>
          local_endpoint T k = Some (dst m) \<and> remote_endpoint T k = Some (src m)))"

definition new_conns :: "('c, 'r conn_cmd) mpsc_ops \<Rightarrow> ('h \<times> conn_meta) list \<Rightarrow> ('h \<rightharpoonup> ('c, 'r) conn_state)" where
  "new_conns M new = (\<lambda>h. if h \<in> fst ` set new then Some (conn_state_new (chan_new M 32)) else None)"

definition vconns_of :: "('h \<times> conn_meta) list \<Rightarrow> 'h accepted list" where
  "vconns_of new = map (\<lambda>(h, m). (vconn_new m h, m)) new"

text \<open>Receiving does not change whether the senders are gone.\<close>

definition closed_laws :: "('c, 'a) mpsc_ops \<Rightarrow> bool" where
  "closed_laws M \<longleftrightarrow> (\<forall>c. rx_closed M (snd (try_recv M c)) = rx_closed M c)"

text \<open>All requests the actor knows of: answered, pending on some connection, or queued for one.\<close>

definition open_ids :: "('c \<Rightarrow> 'r conn_cmd list) \<Rightarrow> ('c, 'r) conn_state \<Rightarrow> 'r multiset" where
  "open_ids queue conn = pending_ids conn + queued_ids (queue (cmd_rx conn))"

definition all_ids ::
  "('c \<Rightarrow> 'r conn_cmd list) \<Rightarrow> ('i, 'd, 'z, 'h, 'c, 'r, 'a, 's) netstack_actor \<times> 'r reply list \<Rightarrow> 'r multiset" where
  "all_ids queue x = (case x of (self, log) \<Rightarrow>
     replied_ids log + (\<Sum>h \<in> dom (conns self). open_ids queue (the (conns self h))))"

section \<open>The listener pool\<close>

lemma handles_get: "h \<in> handles Z z \<longleftrightarrow> (\<exists>k. set_get Z h z = Some k)"
  by (auto simp: handles_def)

lemma add_wildcard_listener_Some:
  assumes "listen_laws T" and "set_laws Z"
  obtains h k z' where "add_wildcard_listener T Z z = Some (h, z')" "tcp_state T k = Listen"
    "h \<notin> handles Z z" "handles Z z' = insert h (handles Z z)"
    "\<And>h'. set_get Z h' z' = (if h' = h then Some k else set_get Z h' z)"
proof -
  obtain k where k: "tcp_listen T (tcp_new T TCP_RX_BUF TCP_TX_BUF) = Inr k" "tcp_state T k = Listen"
    using assms(1) unfolding listen_laws_def by blast
  obtain h z' where add: "set_add Z k z = (h, z')" by (cases "set_add Z k z")
  show thesis
    by (rule that [of h z' k]) (use k add set_add_laws [OF assms(2) add] in
      \<open>simp_all add: add_wildcard_listener_def new_tcp_socket_def handles_get\<close>)
qed

lemma add_listeners_Some:
  assumes "listen_laws T" and "set_laws Z"
  shows "\<exists>hs z'. add_listeners T Z n z = Some (hs, z') \<and> length hs = n \<and> distinct hs \<and>
    set hs \<inter> handles Z z = {} \<and> handles Z z' = set hs \<union> handles Z z"
proof (induction n arbitrary: z)
  case (Suc n)
  obtain h k z1 where 1: "add_wildcard_listener T Z z = Some (h, z1)"
    "h \<notin> handles Z z" "handles Z z1 = insert h (handles Z z)"
    by (rule add_wildcard_listener_Some [OF assms])
  from Suc [of z1] obtain hs z' where "add_listeners T Z n z1 = Some (hs, z')" "length hs = n"
    "distinct hs" "set hs \<inter> handles Z z1 = {}" "handles Z z' = set hs \<union> handles Z z1" by blast
  with 1 show ?case by auto
qed simp

lemma with_channels_inv:
  assumes "listen_laws T" and "set_laws Z"
  shows "\<exists>self. with_channels T Z i p acc st = Some self \<and> actor_inv Z self \<and> conns self = Map.empty"
proof -
  from add_listeners_Some [OF assms, of LISTENER_POOL_SIZE "set_empty Z"] assms(2) show ?thesis
    by (auto simp: with_channels_def actor_inv_def sockets_split_def)
qed

lemma remove_after_put:
  assumes "set_laws Z" and "set_get Z h z \<noteq> None"
  obtains z' where "set_remove Z h (set_put Z h k z) = Some z'" "handles Z z' = handles Z z - {h}"
    "\<And>h'. h' \<noteq> h \<Longrightarrow> set_get Z h' z' = set_get Z h' z"
proof -
  note put = set_put_laws [OF assms, where k = k]
  have in_set: "set_get Z h (set_put Z h k z) \<noteq> None" by (simp add: put)
  obtain z' where "set_remove Z h (set_put Z h k z) = Some z'"
    "\<And>h'. set_get Z h' z' = (if h' = h then None else set_get Z h' (set_put Z h k z))"
    "handles Z z' = handles Z (set_put Z h k z) - {h}"
    by (rule set_remove_laws [OF assms(1) in_set]) blast
  then show thesis by (intro that [of z']) (simp_all add: put)
qed

lemma replace_listener_Some:
  assumes "listen_laws T" and "set_laws Z" and "set_get Z h (sockets self) = Some k"
  obtains h' k' z' where "\<And>acc. replace_listener T Z h k (self\<lparr>accepted_tx := acc\<rparr>) =
      Some (h', self\<lparr>accepted_tx := acc, sockets := z'\<rparr>)"
    "h' \<notin> handles Z (sockets self) - {h}" "handles Z z' = insert h' (handles Z (sockets self) - {h})"
    "tcp_state T k' = Listen" "set_get Z h' z' = Some k'"
    "\<And>g. g \<noteq> h \<Longrightarrow> set_get Z g z' = (if g = h' then Some k' else set_get Z g (sockets self))"
proof -
  have in_set: "set_get Z h (sockets self) \<noteq> None" by (simp add: assms(3))
  obtain z1 where z1: "set_remove Z h (set_put Z h (tcp_abort T k) (sockets self)) = Some z1"
    "handles Z z1 = handles Z (sockets self) - {h}" "\<And>g. g \<noteq> h \<Longrightarrow> set_get Z g z1 = set_get Z g (sockets self)"
    by (rule remove_after_put [OF assms(2) in_set, where k = "tcp_abort T k"]) blast
  obtain h1 k1 z2 where add: "add_wildcard_listener T Z z1 = Some (h1, z2)" "tcp_state T k1 = Listen"
    "h1 \<notin> handles Z z1" "handles Z z2 = insert h1 (handles Z z1)"
    "\<And>g. set_get Z g z2 = (if g = h1 then Some k1 else set_get Z g z1)"
    by (rule add_wildcard_listener_Some [OF assms(1,2), where z = z1]) blast
  show thesis
    by (rule that [of h1 z2 k1]) (use z1 add in \<open>simp_all add: replace_listener_def\<close>)
qed

text \<open>What one slot turns into, on every branch of the loop body.\<close>

lemma try_accept_slot_cases:
  assumes "listen_laws T" and "set_laws Z" and get: "set_get Z h (sockets self) = Some k"
  obtains
    (keep) "tcp_state T k = Listen \<or> tcp_state T k = SynReceived"
      "try_accept_slot M A T Z h self = Some (h, self)"
  | (admit) local remote acc h' k' z' where
      "tcp_state T k = Established \<or> tcp_state T k = CloseWait"
      "local_endpoint T k = Some local" "remote_endpoint T k = Some remote"
      "try_send A (vconn_new \<lparr>src = remote, dst = local\<rparr> h, \<lparr>src = remote, dst = local\<rparr>) (accepted_tx self) = (True, acc)"
      "try_accept_slot M A T Z h self = Some (h', self\<lparr>accepted_tx := acc,
         conns := (conns self)(h \<mapsto> conn_state_new (chan_new M 32)), sockets := z'\<rparr>)"
      "h' \<notin> handles Z (sockets self)" "handles Z z' = insert h' (handles Z (sockets self))"
      "tcp_state T k' = Listen"
      "\<And>h''. set_get Z h'' z' = (if h'' = h' then Some k' else set_get Z h'' (sockets self))"
  | (replace) acc h' k' z' where
      "tcp_state T k \<noteq> Listen" "tcp_state T k \<noteq> SynReceived"
      "acc = accepted_tx self \<or> (\<exists>vm. try_send A vm (accepted_tx self) = (False, acc))"
      "try_accept_slot M A T Z h self = Some (h', self\<lparr>accepted_tx := acc, sockets := z'\<rparr>)"
      "h' \<notin> handles Z (sockets self) - {h}" "handles Z z' = insert h' (handles Z (sockets self) - {h})"
      "tcp_state T k' = Listen"
      "\<And>h''. h'' \<noteq> h \<Longrightarrow> set_get Z h'' z' = (if h'' = h' then Some k' else set_get Z h'' (sockets self))"
      "set_get Z h' z' = Some k'"
proof -
  obtain h1 k1 z1 where rep: "\<And>acc. replace_listener T Z h k (self\<lparr>accepted_tx := acc\<rparr>) =
      Some (h1, self\<lparr>accepted_tx := acc, sockets := z1\<rparr>)"
    "h1 \<notin> handles Z (sockets self) - {h}" "handles Z z1 = insert h1 (handles Z (sockets self) - {h})"
    "tcp_state T k1 = Listen" "set_get Z h1 z1 = Some k1"
    "\<And>g. g \<noteq> h \<Longrightarrow> set_get Z g z1 = (if g = h1 then Some k1 else set_get Z g (sockets self))"
    by (rule replace_listener_Some [OF assms]) blast
  have replaced: thesis
    if "tcp_state T k \<noteq> Listen" "tcp_state T k \<noteq> SynReceived"
      "acc = accepted_tx self \<or> (\<exists>vm. try_send A vm (accepted_tx self) = (False, acc))"
      "try_accept_slot M A T Z h self = replace_listener T Z h k (self\<lparr>accepted_tx := acc\<rparr>)" for acc
    by (rule replace [OF that(1-3) _ rep(2-4,6,5)]) (use that(4) rep(1) in simp)
  show thesis
  proof (cases "tcp_state T k = Listen \<or> tcp_state T k = SynReceived")
    case True
    then show thesis by (intro keep) (simp_all add: try_accept_slot_def get)
  next
    case idle: False
    show thesis
    proof (cases "(tcp_state T k = Established \<or> tcp_state T k = CloseWait) \<and>
        local_endpoint T k \<noteq> None \<and> remote_endpoint T k \<noteq> None")
      case False
      then show thesis using idle
        by (intro replaced [of "accepted_tx self"]) (auto simp: try_accept_slot_def get split: option.splits)
    next
      case True
      then obtain local remote where ends: "local_endpoint T k = Some local" "remote_endpoint T k = Some remote"
        and st: "tcp_state T k = Established \<or> tcp_state T k = CloseWait" by blast
      let ?m = "\<lparr>src = remote, dst = local\<rparr>"
      obtain ok acc where send: "try_send A (vconn_new ?m h, ?m) (accepted_tx self) = (ok, acc)"
        by (cases "try_send A (vconn_new ?m h, ?m) (accepted_tx self)")
      show thesis
      proof (cases ok)
        case False
        then show thesis using idle send ends st
          by (intro replaced [of acc]) (auto simp: try_accept_slot_def get Let_def)
      next
        case ok: True
        obtain h2 k2 z3 where add2: "add_wildcard_listener T Z (sockets self) = Some (h2, z3)" "tcp_state T k2 = Listen"
          "h2 \<notin> handles Z (sockets self)" "handles Z z3 = insert h2 (handles Z (sockets self))"
          "\<And>h'. set_get Z h' z3 = (if h' = h2 then Some k2 else set_get Z h' (sockets self))"
          by (rule add_wildcard_listener_Some [OF assms(1,2), where z = "sockets self"]) blast
        show thesis
          by (rule admit [OF st ends, of acc h2 z3 k2])
            (use send ok add2 idle st ends in \<open>auto simp: try_accept_slot_def get Let_def\<close>)
      qed
    qed
  qed
qed

text \<open>
  What visiting the listeners \<open>slots\<close> does beside other listeners \<open>E\<close>: the slots
  hold listening sockets again, the other sockets are as they were, and each connection of
  \<open>new\<close> is queued and registered.
\<close>

definition pool_turn ::
  "('c, 'r conn_cmd) mpsc_ops \<Rightarrow> 'k tcp_ops \<Rightarrow> ('z, 'h, 'k) set_ops \<Rightarrow> ('a \<Rightarrow> 'h accepted list) \<Rightarrow> 'h set \<Rightarrow>
   'h list \<Rightarrow> ('i, 'd, 'z, 'h, 'c, 'r, 'a, 's) netstack_actor \<Rightarrow> 'h list \<Rightarrow>
   ('i, 'd, 'z, 'h, 'c, 'r, 'a, 's) netstack_actor \<Rightarrow> ('h \<times> conn_meta) list \<Rightarrow> bool" where
  "pool_turn M T Z queue E slots self hs self' new \<longleftrightarrow>
     length hs = length slots \<and> distinct hs \<and> E \<inter> set hs = {} \<and> sockets_split Z (E \<union> set hs) self' \<and>
     (\<forall>h \<in> set hs. listening T Z self' h) \<and>
     (\<forall>g \<in> E \<union> dom (conns self). set_get Z g (sockets self') = set_get Z g (sockets self)) \<and>
     queue (accepted_tx self') = queue (accepted_tx self) @ vconns_of new \<and>
     conns self' = conns self ++ new_conns M new \<and> subseq (map fst new) slots \<and>
     (\<forall>hm \<in> set new. accepted_as T Z (sockets self) hm \<and>
        set_get Z (fst hm) (sockets self') = set_get Z (fst hm) (sockets self))"

lemma listeningI: "set_get Z h (sockets self) = Some k \<Longrightarrow> tcp_state T k = Listen \<or> tcp_state T k = SynReceived \<Longrightarrow>
    listening T Z self h"
  by (simp add: listening_def)

text \<open>The turn of one slot, by its branches.\<close>

lemma admit_turn:
  assumes q: "queue acc = queue (accepted_tx self) @ [(vconn_new m h, m)]"
    and st: "accepted_as T Z (sockets self) (h, m)" and h: "h \<notin> E" and split: "sockets_split Z (insert h E) self"
    and h': "h' \<notin> handles Z (sockets self)" "handles Z z' = insert h' (handles Z (sockets self))" "tcp_state T k' = Listen"
    and get: "\<And>g. set_get Z g z' = (if g = h' then Some k' else set_get Z g (sockets self))"
  shows "pool_turn M T Z queue E [h] self [h']
    (self\<lparr>accepted_tx := acc, conns := (conns self)(h \<mapsto> conn_state_new (chan_new M 32)), sockets := z'\<rparr>) [(h, m)]"
    (is "pool_turn _ _ _ _ _ _ _ _ ?self _")
proof -
  have sp: "insert h E \<inter> dom (conns self) = {}" "handles Z (sockets self) = insert h E \<union> dom (conns self)"
    using split by (simp_all add: sockets_split_def)
  have "conns ?self = conns self ++ new_conns M [(h, m)]" by (auto simp: new_conns_def map_add_def fun_eq_iff)
  moreover have "sockets_split Z (insert h' E) ?self" and fresh: "h' \<notin> E" "h' \<noteq> h" "h' \<notin> dom (conns self)"
    using sp h h'(1,2) by (auto simp: sockets_split_def)
  moreover have "\<forall>g \<in> E \<union> dom (conns self). set_get Z g z' = set_get Z g (sockets self)" using get fresh by auto
  moreover have "listening T Z ?self h'" using get h'(3) by (auto intro: listeningI)
  ultimately show ?thesis using q st get by (simp add: pool_turn_def vconns_of_def del: fun_upd_apply)
qed

lemma replace_turn:
  assumes q: "queue acc = queue (accepted_tx self)" and h: "h \<notin> E" and split: "sockets_split Z (insert h E) self"
    and h': "h' \<notin> handles Z (sockets self) - {h}" "handles Z z' = insert h' (handles Z (sockets self) - {h})"
      "tcp_state T k' = Listen" "set_get Z h' z' = Some k'"
    and get: "\<And>g. g \<noteq> h \<Longrightarrow> set_get Z g z' = (if g = h' then Some k' else set_get Z g (sockets self))"
  shows "pool_turn M T Z queue E [h] self [h'] (self\<lparr>accepted_tx := acc, sockets := z'\<rparr>) []"
    (is "pool_turn _ _ _ _ _ _ _ _ ?self _")
proof -
  have sp: "insert h E \<inter> dom (conns self) = {}" "handles Z (sockets self) = insert h E \<union> dom (conns self)"
    using split by (simp_all add: sockets_split_def)
  have fresh: "h' \<notin> E" "h' \<notin> dom (conns self)" using sp h h'(1) by auto
  have "set_get Z g z' = set_get Z g (sockets self)" if "g \<in> E \<union> dom (conns self)" for g
  proof -
    have "g \<noteq> h" "g \<noteq> h'" using that h fresh sp(1) by blast+
    with get show ?thesis by simp
  qed
  moreover have "sockets_split Z (insert h' E) ?self" using sp h h'(2) fresh by (auto simp: sockets_split_def)
  moreover have "listening T Z ?self h'" using h'(3,4) by (auto intro: listeningI)
  ultimately show ?thesis using q fresh(1) by (simp add: pool_turn_def vconns_of_def new_conns_def map_add_def)
qed

lemma try_accept_slot_pool:
  assumes laws: "listen_laws T" "set_laws Z" "mpsc_laws A queue cap"
    and h: "h \<notin> E" and split: "sockets_split Z (insert h E) self"
  shows "\<exists>h' self' new. try_accept_slot M A T Z h self = Some (h', self') \<and> pool_turn M T Z queue E [h] self [h'] self' new"
proof -
  have "h \<in> handles Z (sockets self)" using split by (simp add: sockets_split_def)
  then obtain k where get: "set_get Z h (sockets self) = Some k" by (auto simp: handles_get)
  from laws(1,2) get show ?thesis
  proof (cases rule: try_accept_slot_cases [where M = M and A = A])
    case keep
    then have "pool_turn M T Z queue E [h] self [h] self []"
      using h split get by (simp add: pool_turn_def vconns_of_def new_conns_def map_add_def listeningI)
    with keep show ?thesis by blast
  next
    case (admit local remote acc h' k' z')
    let ?m = "\<lparr>src = remote, dst = local\<rparr>"
    have "queue acc = queue (accepted_tx self) @ [(vconn_new ?m h, ?m)]" using try_send_True [OF laws(3) admit(4)] by simp
    moreover have "accepted_as T Z (sockets self) (h, ?m)" using admit(1-3) get by (simp add: accepted_as_def)
    ultimately show ?thesis using admit_turn [OF _ _ h split admit(6-9)] admit(5) by blast
  next
    case (replace acc h' k' z')
    have "queue acc = queue (accepted_tx self)" using replace(3) try_send_False [OF laws(3)] by auto
    from replace_turn [OF this h split replace(5-7,9,8)] replace(4) show ?thesis by blast
  qed
qed

lemma new_conns_append: "conns' ++ new_conns M xs ++ new_conns M ys = conns' ++ new_conns M (xs @ ys)"
  by (auto simp: new_conns_def map_add_def fun_eq_iff)

lemma dom_new_conns: "dom (new_conns M new) = fst ` set new"
  by (force simp: new_conns_def dom_def)

lemma listening_cong: "set_get Z h (sockets self') = set_get Z h (sockets self) \<Longrightarrow>
    listening T Z self' h = listening T Z self h"
  by (simp add: listening_def)

lemma accepted_as_cong: "set_get Z (fst hm) z' = set_get Z (fst hm) z \<Longrightarrow>
    accepted_as T Z z' hm = accepted_as T Z z hm"
  by (cases hm) (simp add: accepted_as_def)

lemma pool_turn_Cons:
  assumes 1: "pool_turn M T Z queue (E \<union> set slots) [h] self [h'] self1 new1"
    and 2: "pool_turn M T Z queue (insert h' E) slots self1 hs self' new2"
  shows "pool_turn M T Z queue E (h # slots) self (h' # hs) self' (new1 @ new2)"
proof -
  have conns1: "conns self1 = conns self ++ new_conns M new1" using 1 by (simp add: pool_turn_def)
  have dom1: "dom (conns self1) = dom (conns self) \<union> fst ` set new1" by (auto simp: conns1 dom_new_conns)
  have get1: "set_get Z g (sockets self1) = set_get Z g (sockets self)" if "g \<in> E \<union> set slots \<union> dom (conns self)" for g
    using 1 that by (auto simp: pool_turn_def)
  have get2: "set_get Z g (sockets self') = set_get Z g (sockets self1)" if "g \<in> insert h' E \<union> dom (conns self1)" for g
    using 2 that by (auto simp: pool_turn_def)
  have "listening T Z self' h'" using 1 get2 listening_cong [of Z h' self' self1] by (simp add: pool_turn_def)
  moreover have "set_get Z g (sockets self') = set_get Z g (sockets self)" if "g \<in> E \<union> dom (conns self)" for g
    using get1 [of g] get2 [of g] that dom1 by (metis Un_iff insertI2)
  moreover have "accepted_as T Z (sockets self) hm \<and> set_get Z (fst hm) (sockets self') = set_get Z (fst hm) (sockets self)"
    if hm: "hm \<in> set new1" for hm
  proof -
    have "set_get Z (fst hm) (sockets self') = set_get Z (fst hm) (sockets self1)" using hm by (intro get2) (simp add: dom1)
    with 1 hm show ?thesis by (simp add: pool_turn_def)
  qed
  moreover have "accepted_as T Z (sockets self) hm \<and> set_get Z (fst hm) (sockets self') = set_get Z (fst hm) (sockets self)"
    if hm: "hm \<in> set new2" for hm
  proof -
    have "subseq (map fst new2) slots" using 2 by (simp add: pool_turn_def)
    from set_mono_subseq [OF this] have "fst hm \<in> set slots" using hm by auto
    then have "set_get Z (fst hm) (sockets self1) = set_get Z (fst hm) (sockets self)" by (intro get1) simp
    with 2 hm accepted_as_cong [OF this, of T] show ?thesis by (auto simp: pool_turn_def)
  qed
  moreover have "subseq (map fst (new1 @ new2)) (h # slots)"
    using list_emb_append_mono [of "(=)" "map fst new1" "[h]" "map fst new2" slots] 1 2 by (simp add: pool_turn_def)
  moreover have "conns self' = conns self ++ new_conns M (new1 @ new2)"
    using 2 by (simp add: pool_turn_def conns1 new_conns_append)
  ultimately show ?thesis using 1 2 by (auto simp: pool_turn_def vconns_of_def)
qed

lemma try_accept_slots_pool:
  assumes laws: "listen_laws T" "set_laws Z" "mpsc_laws A queue cap"
  shows "distinct slots \<Longrightarrow> E \<inter> set slots = {} \<Longrightarrow> sockets_split Z (E \<union> set slots) self \<Longrightarrow>
    \<exists>hs self' new. try_accept_slots M A T Z slots self = Some (hs, self') \<and> pool_turn M T Z queue E slots self hs self' new"
proof (induction slots arbitrary: self E)
  case Nil
  then show ?case
    by (intro exI [of _ "[]"] exI [of _ self]) (simp add: pool_turn_def vconns_of_def new_conns_def map_add_def)
next
  case (Cons h slots)
  have "h \<notin> E \<union> set slots" "sockets_split Z (insert h (E \<union> set slots)) self" using Cons.prems by auto
  from try_accept_slot_pool [OF laws this, of M] obtain h' self1 new1 where
    1: "try_accept_slot M A T Z h self = Some (h', self1)" "pool_turn M T Z queue (E \<union> set slots) [h] self [h'] self1 new1"
    by blast
  then have "insert h' E \<inter> set slots = {}" "sockets_split Z (insert h' E \<union> set slots) self1"
    using Cons.prems(2) by (auto simp: pool_turn_def)
  from Cons.IH [OF _ this] Cons.prems(1) obtain hs self' new2 where
    2: "try_accept_slots M A T Z slots self1 = Some (hs, self')" "pool_turn M T Z queue (insert h' E) slots self1 hs self' new2"
    by auto
  from pool_turn_Cons [OF 1(2) 2(2)] 1(1) 2(1) show ?case by auto
qed

section \<open>Servicing the connections\<close>

lemma closed_laws_recv: "closed_laws M \<Longrightarrow> try_recv M c = (r, c') \<Longrightarrow> rx_closed M c' = rx_closed M c"
  unfolding closed_laws_def by (metis snd_conv)

lemma service_loop_closed:
  assumes L: "mpsc_laws M queue cap" and C: "closed_laws M"
  shows "service_loop M T is_closed x = Some x' \<Longrightarrow>
    rx_closed M (cmd_rx (fst x')) = rx_closed M (cmd_rx (fst x))"
proof (induction "queue (cmd_rx (fst x))" arbitrary: x)
  case Nil
  from try_recv_Nil [OF L Nil.hyps [symmetric]] obtain c where
    c: "try_recv M (cmd_rx (fst x)) = (None, c)" by blast
  with Nil.prems have "cmd_rx (fst x') = c" by (subst (asm) service_loop.simps) auto
  with closed_laws_recv [OF C c] show ?case by simp
next
  case (Cons cm cs)
  from try_recv_Cons [OF L Cons.hyps(2) [symmetric]] obtain c where
    c: "try_recv M (cmd_rx (fst x)) = (Some cm, c)" "queue c = cs" by blast
  have "service_loop M T is_closed
      (service_io T is_closed (handle_cmd T cm (apfst (cmd_rx_update (\<lambda>_. c)) x))) = Some x'"
    using Cons.prems c by (subst (asm) service_loop.simps) simp
  from Cons.hyps(1) [OF _ this] c closed_laws_recv [OF C c(1)] show ?case by simp
qed

lemma service_closed:
  assumes "mpsc_laws M queue cap" and "closed_laws M" and "service M T is_closed x = Some x'"
  shows "rx_closed M (cmd_rx (fst x')) = rx_closed M (cmd_rx (fst x))"
  using service_loop_closed [OF assms(1,2)] assms(3) by (fastforce simp: service_def)

text \<open>A connection's turn: it is serviced and stays, or is reaped with its socket.\<close>

lemma service_conn_cases:
  assumes M: "mpsc_laws M queue cap" and Z: "set_laws Z"
    and conn: "conns self h = Some conn" and get: "set_get Z h (sockets self) = Some k"
  obtains
    (kept) conn' k' log' z' where "service M T is_closed (conn, k, log) = Some (conn', k', log')"
      "queue (cmd_rx conn') = []" "\<not> rx_closed M (cmd_rx conn')"
      "service_conn M T Z is_closed h (self, log) =
         Some (self\<lparr>conns := (conns self)(h \<mapsto> conn'), sockets := z'\<rparr>, log')"
      "\<And>h'. set_get Z h' z' = (if h' = h then Some k' else set_get Z h' (sockets self))"
  | (reaped) conn' k' log' conn'' log'' z' where "service M T is_closed (conn, k, log) = Some (conn', k', log')"
      "queue (cmd_rx conn') = []" "rx_closed M (cmd_rx conn')"
      "fail_pending (conn', log') = (conn'', log'')"
      "service_conn M T Z is_closed h (self, log) =
         Some (self\<lparr>conns := (conns self)(h := None), sockets := z'\<rparr>, log'')"
      "\<And>h'. set_get Z h' z' = (if h' = h then None else set_get Z h' (sockets self))"
proof -
  obtain conn' k' log' where srv: "service M T is_closed (conn, k, log) = Some (conn', k', log')"
    and q: "queue (cmd_rx conn') = []" by (rule service_returns [OF M])
  have in_set: "set_get Z h (sockets self) \<noteq> None" by (simp add: get)
  show thesis
  proof (cases "rx_closed M (cmd_rx conn')")
    case False
    show thesis
      by (rule kept [OF srv q False, of "set_put Z h k' (sockets self)"])
        (use False srv conn get in \<open>simp_all add: service_conn_def set_put_laws [OF Z in_set]\<close>)
  next
    case True
    obtain conn'' log'' where f: "fail_pending (conn', log') = (conn'', log'')"
      by (cases "fail_pending (conn', log')")
    have in_put: "set_get Z h (set_put Z h (tcp_abort T k') (sockets self)) \<noteq> None"
      by (simp add: set_put_laws [OF Z in_set])
    obtain z' where z': "set_remove Z h (set_put Z h (tcp_abort T k') (sockets self)) = Some z'"
      "\<And>h'. set_get Z h' z' = (if h' = h then None else set_get Z h' (set_put Z h (tcp_abort T k') (sockets self)))"
      by (rule set_remove_laws [OF Z in_put]) blast
    have eq: "set_get Z h' z' = (if h' = h then None else set_get Z h' (sockets self))" for h'
      by (simp add: z'(2) set_put_laws [OF Z in_set])
    show thesis
      by (rule reaped [OF srv q True f _ eq])
        (use True srv conn get q f z'(1) in \<open>simp add: service_conn_def rx_empty_iff [OF M]\<close>)
  qed
qed

lemma try_accept_stop_rx:
  assumes "try_accept M A T Z self = Some self'"
  shows "stop_rx self' = stop_rx self"
proof -
  have rep: "replace_listener T Z h k self = Some (h', self') \<Longrightarrow> stop_rx self' = stop_rx self" for h k h' self self'
    by (auto simp: replace_listener_def split: bind_splits)
  have slot: "try_accept_slot M A T Z h self = Some (h', self') \<Longrightarrow> stop_rx self' = stop_rx self" for h h' self self'
    by (auto simp: try_accept_slot_def Let_def split: option.splits prod.splits if_splits dest!: rep)
  have "try_accept_slots M A T Z slots self = Some (hs, self') \<Longrightarrow> stop_rx self' = stop_rx self" for slots hs self self'
  proof (induction slots arbitrary: hs self)
    case (Cons h slots)
    from Cons.prems obtain h1 self1 hs1 where "try_accept_slot M A T Z h self = Some (h1, self1)"
      "try_accept_slots M A T Z slots self1 = Some (hs1, self')" by (auto split: bind_splits)
    with slot Cons.IH show ?case by metis
  qed simp
  with assms show ?thesis by (auto simp: try_accept_def)
qed

lemma service_conn_frame:
  assumes "service_conn M T Z is_closed h (self, log) = Some (self', log')"
  shows "listeners self' = listeners self \<and> accepted_tx self' = accepted_tx self \<and>
    stop_rx self' = stop_rx self \<and> iface self' = iface self \<and> phy_dev self' = phy_dev self"
  using assms by (auto simp: service_conn_def split: option.splits prod.splits if_splits)

lemma service_commands_stop_rx:
  "service_commands M T Z is_closed order (self, log) = Some (self', log') \<Longrightarrow> stop_rx self' = stop_rx self"
proof (induction order arbitrary: self log)
  case (Cons h order)
  from Cons.prems obtain self1 log1 where "service_conn M T Z is_closed h (self, log) = Some (self1, log1)"
    "service_commands M T Z is_closed order (self1, log1) = Some (self', log')" by (auto split: bind_splits)
  with Cons.IH service_conn_frame show ?case by metis
qed simp

text \<open>
  The whole sweep: what each connection and its socket become depends on that connection and
  that socket alone, and nothing else changes.
\<close>

definition serviced ::
  "('c, 'r conn_cmd) mpsc_ops \<Rightarrow> 'k tcp_ops \<Rightarrow> ('r \<Rightarrow> 'c \<Rightarrow> bool) \<Rightarrow>
   ('c, 'r) conn_state option \<Rightarrow> 'k option \<Rightarrow> ('c, 'r) conn_state option \<Rightarrow> 'k option \<Rightarrow> bool" where
  "serviced M T is_closed conn k conn' k' \<longleftrightarrow>
     (\<exists>c s log c' s' log'. conn = Some c \<and> k = Some s \<and>
        service M T is_closed (c, s, log) = Some (c', s', log') \<and> rx_empty M (cmd_rx c') \<and>
        (if rx_closed M (cmd_rx c') then conn' = None \<and> k' = None else conn' = Some c' \<and> k' = Some s'))"

lemma service_conn_serviced:
  assumes M: "mpsc_laws M queue cap" and Z: "set_laws Z"
    and dom: "h \<in> dom (conns self)" "h \<in> handles Z (sockets self)"
  shows "\<exists>self' log'. service_conn M T Z is_closed h (self, log) = Some (self', log') \<and>
    serviced M T is_closed (conns self h) (set_get Z h (sockets self)) (conns self' h) (set_get Z h (sockets self')) \<and>
    (\<forall>g. g \<noteq> h \<longrightarrow> conns self' g = conns self g \<and> set_get Z g (sockets self') = set_get Z g (sockets self))"
proof -
  from dom obtain conn k where conn: "conns self h = Some conn" and get: "set_get Z h (sockets self) = Some k"
    by (auto simp: handles_get)
  from M Z conn get show ?thesis
  proof (cases rule: service_conn_cases [where T = T and is_closed = is_closed and log = log])
    case (kept conn' k' log' z')
    then show ?thesis using conn get rx_empty_iff [OF M, of "cmd_rx conn'"]
      by (auto simp: serviced_def)
  next
    case (reaped conn' k' log' conn'' log'' z')
    then show ?thesis using conn get rx_empty_iff [OF M, of "cmd_rx conn'"]
      by (auto simp: serviced_def)
  qed
qed

lemma service_commands_each:
  assumes M: "mpsc_laws M queue cap" and Z: "set_laws Z"
  shows "distinct order \<Longrightarrow> set order \<subseteq> dom (conns self) \<Longrightarrow> dom (conns self) \<subseteq> handles Z (sockets self) \<Longrightarrow>
    \<exists>self' log'. service_commands M T Z is_closed order (self, log) = Some (self', log') \<and>
      listeners self' = listeners self \<and> accepted_tx self' = accepted_tx self \<and>
      (\<forall>h \<in> set order. serviced M T is_closed (conns self h) (set_get Z h (sockets self))
         (conns self' h) (set_get Z h (sockets self'))) \<and>
      (\<forall>g. g \<notin> set order \<longrightarrow> conns self' g = conns self g \<and> set_get Z g (sockets self') = set_get Z g (sockets self))"
proof (induction order arbitrary: self log)
  case Nil
  then show ?case by simp
next
  case (Cons h order)
  have h: "h \<in> dom (conns self)" "h \<in> handles Z (sockets self)" "h \<notin> set order" using Cons.prems by auto
  from service_conn_serviced [OF M Z h(1,2), of T is_closed log] obtain self1 log1 where
    1: "service_conn M T Z is_closed h (self, log) = Some (self1, log1)"
    "serviced M T is_closed (conns self h) (set_get Z h (sockets self)) (conns self1 h) (set_get Z h (sockets self1))"
    "\<forall>g. g \<noteq> h \<longrightarrow> conns self1 g = conns self g \<and> set_get Z g (sockets self1) = set_get Z g (sockets self)"
    by blast
  have sub: "set order \<subseteq> dom (conns self1)" 
  proof
    fix g assume "g \<in> set order"
    then have "g \<noteq> h" "g \<in> dom (conns self)" using Cons.prems(2) h(3) by auto
    with 1(3) show "g \<in> dom (conns self1)" by (simp add: dom_def)
  qed
  have dom: "dom (conns self1) \<subseteq> handles Z (sockets self1)"
  proof
    fix g assume g: "g \<in> dom (conns self1)"
    show "g \<in> handles Z (sockets self1)"
    proof (cases "g = h")
      case True
      with g 1(2) show ?thesis by (auto simp: serviced_def handles_get split: if_splits)
    next
      case False
      with g 1(3) have "g \<in> dom (conns self)" by (simp add: dom_def)
      with Cons.prems(3) False 1(3) show ?thesis by (auto simp: handles_get)
    qed
  qed
  from Cons.IH [OF _ sub dom, of log1] Cons.prems(1) obtain self' log' where
    2: "service_commands M T Z is_closed order (self1, log1) = Some (self', log')"
    "listeners self' = listeners self1" "accepted_tx self' = accepted_tx self1"
    "\<forall>h \<in> set order. serviced M T is_closed (conns self1 h) (set_get Z h (sockets self1))
         (conns self' h) (set_get Z h (sockets self'))"
    "\<forall>g. g \<notin> set order \<longrightarrow> conns self' g = conns self1 g \<and> set_get Z g (sockets self') = set_get Z g (sockets self1)"
    by auto
  have "serviced M T is_closed (conns self g) (set_get Z g (sockets self)) (conns self' g) (set_get Z g (sockets self'))"
    if "g \<in> set (h # order)" for g
    using that 1(2,3) 2(4,5) h(3) by (cases "g = h") auto
  moreover have "conns self' g = conns self g \<and> set_get Z g (sockets self') = set_get Z g (sockets self)"
    if "g \<notin> set (h # order)" for g
    using that 1(3) 2(5) by simp
  ultimately show ?case using 1(1) 2(1-3) service_conn_frame [OF 1(1)]
    by (intro exI [of _ self'] exI [of _ log']) simp
qed

section \<open>The invariant and the properties of the operations\<close>

lemma try_accept_outcome:
  assumes laws: "listen_laws T" "set_laws Z" "mpsc_laws A queue cap" and inv: "actor_inv Z self"
  shows "\<exists>self' new. try_accept M A T Z self = Some self' \<and> actor_inv Z self' \<and>
    (\<forall>h \<in> set (listeners self'). listening T Z self' h) \<and>
    queue (accepted_tx self') = queue (accepted_tx self) @ vconns_of new \<and>
    conns self' = conns self ++ new_conns M new \<and> subseq (map fst new) (listeners self) \<and>
    (\<forall>hm \<in> set new. accepted_as T Z (sockets self) hm) \<and>
    (\<forall>h \<in> dom (conns self'). set_get Z h (sockets self') = set_get Z h (sockets self))"
proof -
  have pre: "distinct (listeners self)" "{} \<inter> set (listeners self) = {}"
    "sockets_split Z ({} \<union> set (listeners self)) self" using inv by (simp_all add: actor_inv_def)
  obtain hs self' new where *: "try_accept_slots M A T Z (listeners self) self = Some (hs, self')"
    "length hs = length (listeners self)" "distinct hs" "sockets_split Z ({} \<union> set hs) self'"
    "\<forall>h \<in> set hs. listening T Z self' h"
    "\<forall>g \<in> {} \<union> dom (conns self). set_get Z g (sockets self') = set_get Z g (sockets self)"
    "queue (accepted_tx self') = queue (accepted_tx self) @ vconns_of new"
    "conns self' = conns self ++ new_conns M new" "subseq (map fst new) (listeners self)"
    "\<forall>hm \<in> set new. accepted_as T Z (sockets self) hm \<and>
       set_get Z (fst hm) (sockets self') = set_get Z (fst hm) (sockets self)"
    using try_accept_slots_pool [OF laws pre, of M] unfolding pool_turn_def by blast
  let ?self = "self'\<lparr>listeners := hs\<rparr>"
  have dom: "dom (conns self') = dom (conns self) \<union> fst ` set new" by (auto simp: *(8) dom_new_conns)
  have same: "\<forall>h \<in> dom (conns self'). set_get Z h (sockets self') = set_get Z h (sockets self)"
    using *(6,10) unfolding dom by auto
  have "actor_inv Z ?self"
    using inv *(2-4) dom by (simp add: actor_inv_def sockets_split_def)
  moreover have "\<forall>h \<in> set (listeners ?self). listening T Z ?self h"
    using *(5) by (simp add: listening_def)
  ultimately show ?thesis
    by (intro exI [of _ ?self] exI [of _ new])
      (use *(1,7-10) same in \<open>simp add: try_accept_def\<close>)
qed

lemma service_commands_inv:
  assumes M: "mpsc_laws M queue cap" and Z: "set_laws Z" and inv: "actor_inv Z self"
    and order: "distinct order" "set order = dom (conns self)"
  shows "\<exists>self' log'. service_commands M T Z is_closed order (self, log) = Some (self', log') \<and>
    actor_inv Z self' \<and> listeners self' = listeners self \<and> accepted_tx self' = accepted_tx self \<and>
    (\<forall>h \<in> dom (conns self). serviced M T is_closed (conns self h) (set_get Z h (sockets self))
       (conns self' h) (set_get Z h (sockets self'))) \<and>
    (\<forall>h \<in> set (listeners self). set_get Z h (sockets self') = set_get Z h (sockets self)) \<and>
    dom (conns self') \<subseteq> dom (conns self)"
proof -
  have sp: "set (listeners self) \<inter> dom (conns self) = {}"
    "handles Z (sockets self) = set (listeners self) \<union> dom (conns self)"
    using inv by (simp_all add: actor_inv_def sockets_split_def)
  obtain self' log' where *: "service_commands M T Z is_closed order (self, log) = Some (self', log')"
    "listeners self' = listeners self" "accepted_tx self' = accepted_tx self"
    "\<forall>h \<in> dom (conns self). serviced M T is_closed (conns self h) (set_get Z h (sockets self))
       (conns self' h) (set_get Z h (sockets self'))"
    "\<forall>g. g \<notin> dom (conns self) \<longrightarrow> conns self' g = conns self g \<and> set_get Z g (sockets self') = set_get Z g (sockets self)"
    using service_commands_each [OF M Z order(1), of self T is_closed log] order(2) sp(2) by auto
  have both: "h \<in> dom (conns self') \<longleftrightarrow> h \<in> handles Z (sockets self')" if "h \<in> dom (conns self)" for h
    using bspec [OF *(4) that] by (auto simp: serviced_def handles_get split: if_splits)
  have rest: "h \<notin> dom (conns self') \<and> (h \<in> handles Z (sockets self') \<longleftrightarrow> h \<in> set (listeners self))"
    if "h \<notin> dom (conns self)" for h
    using *(5) that sp by (auto simp: handles_def)
  have sub: "dom (conns self') \<subseteq> dom (conns self)" using rest by blast
  moreover have "handles Z (sockets self') = set (listeners self) \<union> dom (conns self')"
    using both rest sp(1) sub by blast
  ultimately have "actor_inv Z self'"
    using inv *(2) sp(1) by (auto simp: actor_inv_def sockets_split_def intro: finite_subset)
  moreover have "\<forall>h \<in> set (listeners self). set_get Z h (sockets self') = set_get Z h (sockets self)"
    using *(5) sp(1) by blast
  ultimately show ?thesis using *(1-4) sub by blast
qed

text \<open>
  C19. Accepting never panics and never leaves the pool short: whatever states the listener
  sockets are in, afterwards there are again \<open>LISTENER_POOL_SIZE\<close> different listeners,
  each of them waiting for a connection or in the middle of a handshake, and every socket of
  the set is a listener or a connection, never both.
\<close>
theorem try_accept_restores_pool:
  assumes "listen_laws T" and "set_laws Z" and "mpsc_laws A queue cap" and "actor_inv Z self"
  shows "\<exists>self'. try_accept M A T Z self = Some self' \<and> actor_inv Z self' \<and>
    (\<forall>h \<in> set (listeners self'). listening T Z self' h)"
  using try_accept_outcome [OF assms, of M] by blast

text \<open>
  C17. Accepting queues a connection for the relay dispatcher exactly when it registers it: the
  connections queued, in slot order, are those added to the table with a fresh command channel
  and nothing pending. Each belongs to a listener whose socket was established, its
  destination is the socket's local endpoint and its source the remote one, and neither its
  socket nor that of any earlier connection is touched.
\<close>
theorem try_accept_queues_connections:
  assumes "listen_laws T" and "set_laws Z" and "mpsc_laws A queue cap" and "actor_inv Z self"
    and "try_accept M A T Z self = Some self'"
  shows "\<exists>new. queue (accepted_tx self') = queue (accepted_tx self) @ map (\<lambda>(h, m). (vconn_new m h, m)) new \<and>
    conns self' = conns self ++ new_conns M new \<and> subseq (map fst new) (listeners self) \<and>
    (\<forall>(h, m) \<in> set new. \<exists>k. set_get Z h (sockets self) = Some k \<and>
       (tcp_state T k = Established \<or> tcp_state T k = CloseWait) \<and>
       local_endpoint T k = Some (dst m) \<and> remote_endpoint T k = Some (src m)) \<and>
    (\<forall>h \<in> dom (conns self'). set_get Z h (sockets self') = set_get Z h (sockets self))"
proof -
  have *: "\<exists>k. set_get Z h (sockets self) = Some k \<and> (tcp_state T k = Established \<or> tcp_state T k = CloseWait) \<and>
      local_endpoint T k = Some (dst m) \<and> remote_endpoint T k = Some (src m)"
    if "accepted_as T Z (sockets self) (h, m)" for h m
    using that by (auto simp: accepted_as_def split: option.splits)
  obtain new where new: "queue (accepted_tx self') = queue (accepted_tx self) @ vconns_of new"
    "conns self' = conns self ++ new_conns M new" "subseq (map fst new) (listeners self)"
    "\<forall>hm \<in> set new. accepted_as T Z (sockets self) hm"
    "\<forall>h \<in> dom (conns self'). set_get Z h (sockets self') = set_get Z h (sockets self)"
    using try_accept_outcome [OF assms(1-4), of M] assms(5) by auto
  then show ?thesis using * by (intro exI [of _ new] conjI) (auto simp: vconns_of_def)
qed

text \<open>
  C20. Servicing the commands reaps exactly the connections whose callers are all gone, takes
  every queued command of the others, and frees a socket with its connection: it returns, and
  afterwards the sockets are the untouched listeners and those of the remaining connections.
\<close>
theorem service_commands_reaps:
  assumes "mpsc_laws M queue cap" and "closed_laws M" and "set_laws Z" and "actor_inv Z self"
    and "distinct order" and "set order = dom (conns self)"
  shows "\<exists>self' log'. service_commands M T Z is_closed order (self, log) = Some (self', log') \<and>
    dom (conns self') = {h \<in> dom (conns self). \<not> rx_closed M (cmd_rx (the (conns self h)))} \<and>
    (\<forall>conn \<in> ran (conns self'). queue (cmd_rx conn) = []) \<and>
    handles Z (sockets self') = set (listeners self) \<union> dom (conns self') \<and>
    (\<forall>h \<in> set (listeners self). set_get Z h (sockets self') = set_get Z h (sockets self))"
proof -
  obtain self' log' where *: "service_commands M T Z is_closed order (self, log) = Some (self', log')"
    "actor_inv Z self'" "listeners self' = listeners self"
    "\<forall>h \<in> dom (conns self). serviced M T is_closed (conns self h) (set_get Z h (sockets self))
       (conns self' h) (set_get Z h (sockets self'))"
    "\<forall>h \<in> set (listeners self). set_get Z h (sockets self') = set_get Z h (sockets self)"
    and sub: "dom (conns self') \<subseteq> dom (conns self)"
    using service_commands_inv [OF assms(1,3-6), of T is_closed log] by blast
  have each: "(conns self' h = None) = rx_closed M (cmd_rx (the (conns self h))) \<and>
      (\<forall>conn. conns self' h = Some conn \<longrightarrow> queue (cmd_rx conn) = [])" if "h \<in> dom (conns self)" for h
  proof -
    from bspec [OF *(4) that] obtain c s log c' s' log' where c: "conns self h = Some c"
      "service M T is_closed (c, s, log) = Some (c', s', log')" "rx_empty M (cmd_rx c')"
      "if rx_closed M (cmd_rx c') then conns self' h = None else conns self' h = Some c'"
      unfolding serviced_def by (auto split: if_splits)
    from service_closed [OF assms(1,2) c(2)] c(1,3,4) show ?thesis
      by (auto simp: rx_empty_iff [OF assms(1)] split: if_splits)
  qed
  have "dom (conns self') = {h \<in> dom (conns self). \<not> rx_closed M (cmd_rx (the (conns self h)))}"
  proof (intro set_eqI iffI)
    fix h assume h: "h \<in> dom (conns self')"
    with sub have "h \<in> dom (conns self)" by blast
    with h each [of h] show "h \<in> {h \<in> dom (conns self). \<not> rx_closed M (cmd_rx (the (conns self h)))}" by auto
  next
    fix h assume "h \<in> {h \<in> dom (conns self). \<not> rx_closed M (cmd_rx (the (conns self h)))}"
    with each [of h] show "h \<in> dom (conns self')" by auto
  qed
  moreover have "queue (cmd_rx conn) = []" if "conn \<in> ran (conns self')" for conn
    using that each sub unfolding ran_def by blast
  moreover have "handles Z (sockets self') = set (listeners self) \<union> dom (conns self')"
    using *(2,3) by (simp add: actor_inv_def sockets_split_def)
  ultimately show ?thesis using *(1,5) by blast
qed

section \<open>Accounting for requests over all connections\<close>

lemma sum_dom_remove:
  assumes "finite (dom m)" and "m h = Some v"
  shows "(\<Sum>g \<in> dom m. f (the (m g))) = f v + (\<Sum>g \<in> dom m - {h}. f (the (m g)))"
  using sum.remove [OF assms(1), of h "\<lambda>g. f (the (m g))"] assms(2) by (simp add: domI)

lemma sum_dom_others:
  "(\<Sum>g \<in> dom m - {h}. f (the ((m(h := x)) g))) = (\<Sum>g \<in> dom m - {h}. f (the (m g)))"
  by (rule sum.cong) auto

lemma service_conn_ids:
  assumes M: "mpsc_laws M queue cap" and Z: "set_laws Z"
    and dom: "h \<in> dom (conns self)" "h \<in> handles Z (sockets self)" "finite (dom (conns self))"
    and run: "service_conn M T Z is_closed h (self, log) = Some (self', log')"
  shows "all_ids queue (self', log') \<subseteq># all_ids queue (self, log) \<and>
    ((\<forall>r c. \<not> is_closed r c) \<longrightarrow> all_ids queue (self', log') = all_ids queue (self, log))"
proof -
  from dom obtain conn k where conn: "conns self h = Some conn" and get: "set_get Z h (sockets self) = Some k"
    by (auto simp: handles_get)
  define rest where "rest = (\<Sum>g \<in> dom (conns self) - {h}. open_ids queue (the (conns self g)))"
  have before: "all_ids queue (self, log) = known_ids (conn, k, log) + queued_ids (queue (cmd_rx conn)) + rest"
    using sum_dom_remove [OF dom(3) conn, of "open_ids queue"]
    by (simp add: all_ids_def known_ids_def rest_def [symmetric]) (simp add: open_ids_def)
  have after: "all_ids queue (self', log') = known_ids (conn', k', log'') + rest"
    if "service M T is_closed (conn, k, log) = Some (conn', k', log'')" "queue (cmd_rx conn') = []"
      "(conns self' = (conns self)(h \<mapsto> conn') \<and> log' = log'') \<or>
       (conns self' = (conns self)(h := None) \<and> (\<exists>c. fail_pending (conn', log'') = (c, log')))"
    for conn' k' log''
    using that(3)
  proof
    assume *: "conns self' = (conns self)(h \<mapsto> conn') \<and> log' = log''"
    have fin: "finite (dom (conns self'))" and at: "conns self' h = Some conn'" using * dom(3) by simp_all
    from * have d: "dom (conns self') - {h} = dom (conns self) - {h}" by auto
    have "(\<Sum>g \<in> dom (conns self'). open_ids queue (the (conns self' g))) = open_ids queue conn' + rest"
      using sum_dom_remove [OF fin at, of "open_ids queue"] * unfolding d
      by (simp add: rest_def sum_dom_others del: fun_upd_apply)
    with * that(2) show ?thesis by (simp add: all_ids_def known_ids_def open_ids_def)
  next
    assume *: "conns self' = (conns self)(h := None) \<and> (\<exists>c. fail_pending (conn', log'') = (c, log'))"
    then have ids: "replied_ids log' = replied_ids log'' + pending_ids conn'"
      using fail_pending_ids by blast
    have "(\<Sum>g \<in> dom (conns self'). open_ids queue (the (conns self' g))) = rest"
      using * by (simp add: rest_def sum_dom_others del: fun_upd_apply)
    with ids show ?thesis by (simp add: all_ids_def known_ids_def)
  qed
  from M Z conn get obtain conn' k' log'' where srv:
    "service M T is_closed (conn, k, log) = Some (conn', k', log'')" "queue (cmd_rx conn') = []"
    "(conns self' = (conns self)(h \<mapsto> conn') \<and> log' = log'') \<or>
       (conns self' = (conns self)(h := None) \<and> (\<exists>c. fail_pending (conn', log'') = (c, log')))"
    by (cases rule: service_conn_cases [where T = T and is_closed = is_closed and log = log])
      (use run in auto)
  from service_known_ids [OF M srv(1)] after [OF srv] before show ?thesis by simp
qed

text \<open>
  C21. A sweep over the connections answers no request twice and invents no answer, over all
  connections together: the requests answered, pending or queued afterwards are among those
  answered, pending or queued before, counted with multiplicity. When no caller has given up
  the two are equal: also the connections that are reaped leave no request unanswered.
\<close>
theorem service_commands_replies_once:
  assumes M: "mpsc_laws M queue cap" and Z: "set_laws Z" and inv: "actor_inv Z self"
    and order: "distinct order" "set order \<subseteq> dom (conns self)"
    and run: "service_commands M T Z is_closed order (self, log) = Some (self', log')"
  shows "all_ids queue (self', log') \<subseteq># all_ids queue (self, log) \<and>
    ((\<forall>r c. \<not> is_closed r c) \<longrightarrow> all_ids queue (self', log') = all_ids queue (self, log))"
proof -
  have "all_ids queue (self', log') \<subseteq># all_ids queue (self, log) \<and>
      ((\<forall>r c. \<not> is_closed r c) \<longrightarrow> all_ids queue (self', log') = all_ids queue (self, log))"
    if "finite (dom (conns self))" "set order \<subseteq> handles Z (sockets self)"
    using that order run
  proof (induction order arbitrary: self log)
    case (Cons h order)
    have h: "h \<in> dom (conns self)" "h \<in> handles Z (sockets self)" "h \<notin> set order" using Cons.prems by auto
    from service_conn_serviced [OF M Z h(1,2), of T is_closed log] obtain self1 log1 where
      1: "service_conn M T Z is_closed h (self, log) = Some (self1, log1)"
      "\<forall>g. g \<noteq> h \<longrightarrow> conns self1 g = conns self g \<and> set_get Z g (sockets self1) = set_get Z g (sockets self)"
      by blast
    have same: "conns self1 g = conns self g" "set_get Z g (sockets self1) = set_get Z g (sockets self)"
      if "g \<noteq> h" for g using 1(2) that by blast+
    have "dom (conns self1) \<subseteq> insert h (dom (conns self))" using same(1) by (auto simp: dom_def)
    then have fin: "finite (dom (conns self1))" using Cons.prems(1) finite_subset by blast
    have sub: "set order \<subseteq> handles Z (sockets self1)" "set order \<subseteq> dom (conns self1)"
    proof -
      have "g \<in> handles Z (sockets self1) \<and> g \<in> dom (conns self1)" if g: "g \<in> set order" for g
      proof -
        from g h(3) have "g \<noteq> h" by blast
        moreover from g Cons.prems(2,4) have "g \<in> handles Z (sockets self)" "g \<in> dom (conns self)" by auto
        ultimately show ?thesis using same [of g] by (simp add: handles_def dom_def)
      qed
      then show "set order \<subseteq> handles Z (sockets self1)" "set order \<subseteq> dom (conns self1)" by auto
    qed
    have rest: "service_commands M T Z is_closed order (self1, log1) = Some (self', log')"
      using Cons.prems(5) 1(1) by simp
    from Cons.IH [OF fin sub(1) _ sub(2) rest] Cons.prems(3)
      service_conn_ids [OF M Z h(1,2) Cons.prems(1) 1(1)]
    show ?case by (auto intro: subset_mset.order_trans)
  qed simp
  then show ?thesis using inv order(2) by (auto simp: actor_inv_def sockets_split_def)
qed

section \<open>Reachable states\<close>

fun next_phase :: "phase \<Rightarrow> phase" where
  "next_phase Polling = Accepting"
| "next_phase Accepting = Servicing"
| "next_phase Servicing = Egress"
| "next_phase Egress = Waiting"
| "next_phase Waiting = Polling"
| "next_phase Stopped = Stopped"

definition stack_laws ::
  "('c, 'r conn_cmd) mpsc_ops \<Rightarrow> ('a, 'h accepted) mpsc_ops \<Rightarrow> 'k tcp_ops \<Rightarrow> ('z, 'h, 'k) set_ops \<Rightarrow>
   ('i, 'd, 'z) iface_ops \<Rightarrow> ('c \<Rightarrow> 'r conn_cmd list) \<Rightarrow> ('c \<Rightarrow> nat) \<Rightarrow>
   ('a \<Rightarrow> 'h accepted list) \<Rightarrow> ('a \<Rightarrow> nat) \<Rightarrow> bool" where
  "stack_laws M A T Z I qm cm qa ca \<longleftrightarrow>
     mpsc_laws M qm cm \<and> mpsc_laws A qa ca \<and> listen_laws T \<and> set_laws Z \<and> iface_laws I Z"

text \<open>The connections accepted so far, oldest first: those relayed and those waiting for a relay.\<close>

definition accepted_conns ::
  "('a \<Rightarrow> 'h accepted list) \<Rightarrow> ('i, 'd, 'z, 'h, 'c, 'r, 'a, 's) system \<Rightarrow> 'h accepted list" where
  "accepted_conns qa s = relays s @ qa (accepted_tx (actor s))"

definition system_inv ::
  "('z, 'h, 'k) set_ops \<Rightarrow> ('a \<Rightarrow> 'h accepted list) \<Rightarrow> 'h accepted list \<Rightarrow>
   ('i, 'd, 'z, 'h, 'c, 'r, 'a, 's) system \<Rightarrow> bool" where
  "system_inv Z qa past s \<longleftrightarrow> actor_inv Z (actor s) \<and> prefix past (accepted_conns qa s)"

lemma actor_inv_frame:
  "actor_inv Z self \<Longrightarrow> handles Z (sockets self') = handles Z (sockets self) \<Longrightarrow>
   dom (conns self') = dom (conns self) \<Longrightarrow> listeners self' = listeners self \<Longrightarrow> actor_inv Z self'"
  by (simp add: actor_inv_def sockets_split_def)

lemma dom_map_option: "dom (\<lambda>h. map_option (f h) (m h)) = dom m"
  by (auto simp: dom_def)

lemma system_step_inv:
  assumes laws: "stack_laws M A T Z I qm cm qa ca" and inv: "system_inv Z qa past s"
    and step: "system_step M A S T Z I is_closed s s'"
  shows "system_inv Z qa past s'"
proof -
  have L: "mpsc_laws M qm cm" "mpsc_laws A qa ca" "listen_laws T" "set_laws Z" "iface_laws I Z"
    using laws by (simp_all add: stack_laws_def)
  from inv have a: "actor_inv Z (actor s)" and p: "prefix past (accepted_conns qa s)"
    by (simp_all add: system_inv_def)
  have frame: ?thesis
    if "handles Z (sockets (actor s')) = handles Z (sockets (actor s))" "dom (conns (actor s')) = dom (conns (actor s))"
      "listeners (actor s') = listeners (actor s)" "accepted_conns qa s' = accepted_conns qa s"
    using actor_inv_frame [OF a that(1-3)] p that(4) by (simp add: system_inv_def)
  from step show ?thesis
  proof cases
    case (step_poll t i p z)
    then show ?thesis using poll_handles [OF L(5) step_poll(3)]
      by (intro frame) (simp_all add: accepted_conns_def)
  next
    case (step_egress i p z)
    then show ?thesis using poll_egress_handles [OF L(5) step_egress(3)]
      by (intro frame) (simp_all add: accepted_conns_def)
  next
    case (step_accept self)
    from try_accept_outcome [OF L(3,4,2) a, of M] step_accept(3) obtain new where
      "actor_inv Z self" "qa (accepted_tx self) = qa (accepted_tx (actor s)) @ vconns_of new" by auto
    with p step_accept(1) show ?thesis
      by (simp add: system_inv_def accepted_conns_def flip: append_assoc)
  next
    case (step_service order self log)
    from service_commands_inv [OF L(1,4) a step_service(3,4), of T is_closed "replies s"] step_service(5)
    have "actor_inv Z self" "accepted_tx self = accepted_tx (actor s)" by auto
    with p step_service(1) show ?thesis by (simp add: system_inv_def accepted_conns_def)
  next
    case (step_dispatch vm acc)
    then show ?thesis using try_recv_Some [OF L(2) step_dispatch(2)]
      by (intro frame) (simp_all add: accepted_conns_def)
  next
    case (step_relays f)
    then show ?thesis by (intro frame) (simp_all add: accepted_conns_def dom_map_option)
  qed (rule frame; simp add: accepted_conns_def)+
qed

lemma system_progress:
  assumes laws: "stack_laws M A T Z I qm cm qa ca" and inv: "actor_inv Z (actor s)" and run: "phase s \<noteq> Stopped"
  shows "\<exists>s'. system_step M A S T Z I is_closed s s' \<and> phase s' = next_phase (phase s) \<and>
    stop_rx (actor s') = stop_rx (actor s)"
proof -
  have L: "mpsc_laws M qm cm" "mpsc_laws A qa ca" "listen_laws T" "set_laws Z"
    using laws by (simp_all add: stack_laws_def)
  show ?thesis
  proof (cases "phase s")
    case Polling
    obtain i p z where "poll I 0 (iface (actor s)) (phy_dev (actor s)) (sockets (actor s)) = (i, p, z)"
      by (cases "poll I 0 (iface (actor s)) (phy_dev (actor s)) (sockets (actor s))")
    from step_poll [OF Polling this] Polling show ?thesis by fastforce
  next
    case Accepting
    from try_accept_outcome [OF L(3,4,2) inv] obtain self where "try_accept M A T Z (actor s) = Some self"
      by blast
    from step_accept [OF Accepting this] Accepting try_accept_stop_rx [OF this] show ?thesis by fastforce
  next
    case Servicing
    obtain order where order: "set order = dom (conns (actor s))" "distinct order"
      using finite_distinct_list [of "dom (conns (actor s))"] inv unfolding actor_inv_def by blast
    from service_commands_inv [OF L(1,4) inv order(2,1)] obtain self log where
      "service_commands M T Z is_closed order (actor s, replies s) = Some (self, log)" by blast
    from step_service [OF Servicing order(2,1) this] Servicing service_commands_stop_rx [OF this] show ?thesis by fastforce
  next
    case Egress
    obtain i p z where "poll_egress I (now s) (iface (actor s)) (phy_dev (actor s)) (sockets (actor s)) = (i, p, z)"
      by (cases "poll_egress I (now s) (iface (actor s)) (phy_dev (actor s)) (sockets (actor s))")
    from step_egress [OF Egress this] Egress show ?thesis by fastforce
  next
    case Waiting
    from step_sleep [OF Waiting] Waiting show ?thesis by fastforce
  qed (use run in simp)
qed

interpretation system: live_system "system_step M A S T Z I is_closed"
    "\<lambda>s. stack_laws M A T Z I qm cm qa ca \<and> system_inv Z qa past s"
    "\<lambda>s. phase s \<noteq> Stopped" "\<lambda>s s'. phase s' = next_phase (phase s)"
  for M A S T Z I is_closed qm cm qa ca past
proof unfold_locales
  show "stack_laws M A T Z I qm cm qa ca \<and> system_inv Z qa past s \<Longrightarrow> system_step M A S T Z I is_closed s s' \<Longrightarrow>
      stack_laws M A T Z I qm cm qa ca \<and> system_inv Z qa past s'" for s s'
    using system_step_inv by blast
  show "stack_laws M A T Z I qm cm qa ca \<and> system_inv Z qa past s \<Longrightarrow> phase s \<noteq> Stopped \<Longrightarrow>
      \<exists>s'. system_step M A S T Z I is_closed s s' \<and> phase s' = next_phase (phase s)" for s
    using system_progress by (metis system_inv_def)
qed

lemma spawn_start:
  fixes self :: "('i, 'd, 'z, 'h, 'c, 'r, 'a, 's) netstack_actor"
  assumes "stack_laws M A T Z I qm cm qa ca" and spawned: "spawn A S T Z i p = Some (self, hdl)"
  shows "system_inv Z qa [] (system_start self)"
proof -
  have "listen_laws T" "set_laws Z" using assms(1) by (simp_all add: stack_laws_def)
  from with_channels_inv [OF this, of i p "chan_new A 64" "chan_new S 1"]
  obtain self' :: "('i, 'd, 'z, 'h, 'c, 'r, 'a, 's) netstack_actor" where
    "with_channels T Z i p (chan_new A 64) (chan_new S 1) = Some self'" "actor_inv Z self'" by blast
  with spawned have "actor_inv Z self" by (simp add: spawn_def Let_def)
  then show ?thesis by (simp add: system_inv_def system_start_def)
qed

text \<open>
  C15. From the start of the actor on, in every state the tasks can reach in any interleaving,
  every socket is one of the four distinct listeners or belongs to exactly one connection: no
  socket leaks and none is used twice.
\<close>
theorem no_socket_leaks:
  assumes "stack_laws M A T Z I qm cm qa ca" and "spawn A S T Z i p = Some (self, hdl)"
    and "(system_step M A S T Z I is_closed)\<^sup>*\<^sup>* (system_start self) s"
  shows "length (listeners (actor s)) = 4 \<and> distinct (listeners (actor s)) \<and>
    set (listeners (actor s)) \<inter> dom (conns (actor s)) = {} \<and>
    handles Z (sockets (actor s)) = set (listeners (actor s)) \<union> dom (conns (actor s))"
proof -
  have "system_inv Z qa [] (system_start self)" by (rule spawn_start [OF assms(1,2)])
  with system.steps_inv [OF assms(3)] assms(1) have "actor_inv Z (actor s)"
    unfolding system_inv_def by blast
  then show ?thesis by (simp add: actor_inv_def sockets_split_def LISTENER_POOL_SIZE_def)
qed

text \<open>
  C18. Until it is stopped the actor never panics, hangs or deadlocks: in every reachable state
  the next phase of its loop, whichever it is in, can be carried out.
\<close>
theorem actor_never_stuck:
  assumes "stack_laws M A T Z I qm cm qa ca" and "spawn A S T Z i p = Some (self, hdl)"
    and "(system_step M A S T Z I is_closed)\<^sup>*\<^sup>* (system_start self) s" and "phase s \<noteq> Stopped"
  shows "\<exists>s'. system_step M A S T Z I is_closed s s' \<and> phase s' = next_phase (phase s)"
proof -
  have "system_inv Z qa [] (system_start self)" by (rule spawn_start [OF assms(1,2)])
  with system.steps_progress [OF assms(3) _ assms(4)] assms(1) show ?thesis by blast
qed

text \<open>
  C22. The dispatcher starts a relay for every accepted connection once, in the order of
  acceptance: the sequence of connections relayed or waiting for a relay only ever grows at
  its end, from any state with the invariant on.
\<close>
theorem relays_in_accept_order:
  assumes "stack_laws M A T Z I qm cm qa ca" and "actor_inv Z (actor s)"
    and "(system_step M A S T Z I is_closed)\<^sup>*\<^sup>* s s'"
  shows "prefix (relays s @ qa (accepted_tx (actor s))) (relays s' @ qa (accepted_tx (actor s')))"
proof -
  have "system_inv Z qa (accepted_conns qa s) s" using assms(2) by (simp add: system_inv_def)
  with system.steps_inv [OF assms(3)] assms(1) have "system_inv Z qa (accepted_conns qa s) s'" by blast
  then show ?thesis by (simp add: system_inv_def accepted_conns_def)
qed

text \<open>
  The actor never sleeps for more than 100 ms, nor past the delay smoltcp asks for, and it
  sleeps exactly that delay when it is shorter.
\<close>
theorem sleep_delay_bounded:
  "sleep_delay I t self \<le> 100 \<and>
   (case poll_delay I t (iface self) (sockets self) of
      None \<Rightarrow> sleep_delay I t self = 100
    | Some delay \<Rightarrow> sleep_delay I t self = min delay 100)"
  by (auto simp: sleep_delay_def IDLE_POLL_INTERVAL_def split: option.splits)

section \<open>Witnesses\<close>

text \<open>
  An actor with one connection, whose four commands are queued, and four listeners, the second
  of which has just been connected to.
\<close>

definition sim_iface :: "(unit, packet buf_chan, 'z) iface_ops" where
  "sim_iface = \<lparr>iface_new = (\<lambda>_ _ _. ()), set_any_ip = (\<lambda>_ i. i),
     add_default_ipv4_route = (\<lambda>_ i. (True, i)), add_default_ipv6_route = (\<lambda>_ i. (True, i)),
     poll = (\<lambda>_ i p z. (i, p, z)), poll_egress = (\<lambda>_ i p z. (i, p, z)), poll_delay = (\<lambda>_ _ _. None)\<rparr>"

type_synonym demo_actor_type =
  "(unit, packet buf_chan, sim_socket sim_set, nat, nat conn_cmd buf_chan, nat, nat accepted buf_chan,
    unit buf_chan) netstack_actor"

definition demo_listen :: sim_socket where
  "demo_listen = \<lparr>sim_state = Listen, sim_rx = [], sim_tx = [], sim_room = 65536, sim_local = None,
     sim_remote = None\<rparr>"

definition demo_meta :: conn_meta where
  "demo_meta = \<lparr>src = \<lparr>sa_ip = V4 0x0A000002, sa_port = 40000\<rparr>, dst = \<lparr>sa_ip = V4 0x5DB8D822, sa_port = 443\<rparr>\<rparr>"

definition demo_ready :: sim_socket where
  "demo_ready = demo_listen\<lparr>sim_state := Established, sim_local := Some (dst demo_meta),
     sim_remote := Some (src demo_meta)\<rparr>"

definition demo_actor :: demo_actor_type where
  "demo_actor = \<lparr>iface = (), phy_dev = demo_phy,
     sockets = \<lparr>sim_next = 5, sim_socks = [0 \<mapsto> demo_listen, 1 \<mapsto> demo_ready, 2 \<mapsto> demo_listen,
       3 \<mapsto> demo_listen, 4 \<mapsto> demo_sock]\<rparr>,
     conns = [4 \<mapsto> demo_conn demo_cmds], listeners = [0, 1, 2, 3],
     accepted_tx = chan_new buf_mpsc 64, stop_rx = chan_new buf_mpsc 1\<rparr>"

definition demo_accepted :: demo_actor_type where
  "demo_accepted = demo_actor\<lparr>
     sockets := \<lparr>sim_next = 6, sim_socks = (\<lambda>h. if h < 5 then sim_socks (sockets demo_actor) h else None)(5 \<mapsto> demo_listen)\<rparr>,
     conns := [4 \<mapsto> demo_conn demo_cmds, 1 \<mapsto> demo_conn []], listeners := [0, 5, 2, 3],
     accepted_tx := \<lparr>bc_queue = [(vconn_new demo_meta 1, demo_meta)], bc_cap = 64, bc_closed = False\<rparr>\<rparr>"

lemma sim_iface_laws: "iface_laws sim_iface Z"
  by (simp add: iface_laws_def sim_iface_def)

lemma buf_closed_laws: "closed_laws buf_mpsc"
  by (simp add: closed_laws_def buf_mpsc_def split: list.splits)

lemma sim_stack_laws: "stack_laws buf_mpsc buf_mpsc sim_tcp sim_sets sim_iface bc_queue bc_cap bc_queue bc_cap"
  by (simp add: stack_laws_def buf_mpsc_laws sim_listen_laws sim_sets_laws sim_iface_laws)

lemma demo_actor_inv: "actor_inv sim_sets demo_actor"
  by (auto simp: actor_inv_def sockets_split_def demo_actor_def handles_def sim_sets_def LISTENER_POOL_SIZE_def
      split: if_splits)

lemma demo_accept_run:
  "try_accept buf_mpsc buf_mpsc sim_tcp sim_sets demo_actor = Some demo_accepted"
  by (simp add: try_accept_def try_accept_slot_def demo_actor_def demo_accepted_def demo_listen_def demo_ready_def
      demo_meta_def demo_conn_def conn_state_new_def sim_sets_def sim_tcp_def buf_mpsc_def Let_def
      add_wildcard_listener_def new_tcp_socket_def TCP_TX_BUF_def cong: if_cong)

theorem try_accept_restores_pool_witness:
  "actor_inv sim_sets demo_accepted \<and>
   listening sim_tcp sim_sets demo_accepted 0 \<and> listening sim_tcp sim_sets demo_accepted 5 \<and>
   listening sim_tcp sim_sets demo_accepted 2 \<and> listening sim_tcp sim_sets demo_accepted 3"
  using try_accept_restores_pool [OF sim_listen_laws sim_sets_laws buf_mpsc_laws demo_actor_inv, of buf_mpsc]
  by (simp add: demo_accept_run) (simp add: demo_accepted_def)

theorem try_accept_queues_connections_witness:
  "\<exists>k. set_get sim_sets 1 (sockets demo_actor) = Some k \<and>
     local_endpoint sim_tcp k = Some (dst demo_meta) \<and> remote_endpoint sim_tcp k = Some (src demo_meta) \<and>
     conns demo_accepted 1 = Some (conn_state_new (chan_new buf_mpsc 32))"
proof -
  have q: "bc_queue (accepted_tx demo_accepted) = [(vconn_new demo_meta 1, demo_meta)]"
    "bc_queue (accepted_tx demo_actor) = []" "listeners demo_actor = [0, 1, 2, 3]"
    by (simp_all add: demo_accepted_def demo_actor_def buf_mpsc_def)
  obtain new where new: "[(vconn_new demo_meta 1, demo_meta)] = map (\<lambda>(h, m). (vconn_new m h, m)) new"
    "conns demo_accepted = conns demo_actor ++ new_conns buf_mpsc new"
    "\<forall>(h, m) \<in> set new. \<exists>k. set_get sim_sets h (sockets demo_actor) = Some k \<and>
        local_endpoint sim_tcp k = Some (dst m) \<and> remote_endpoint sim_tcp k = Some (src m)"
    using try_accept_queues_connections [OF sim_listen_laws sim_sets_laws buf_mpsc_laws demo_actor_inv demo_accept_run]
    unfolding q by fastforce
  from new(1) have "new = [(1, demo_meta)]" by (auto simp: vconn_new_def)
  with new(2,3) show ?thesis by (simp add: new_conns_def map_add_def)
qed

lemma demo_order: "distinct [4 :: nat]" "set [4] = dom (conns demo_actor)"
  by (simp_all add: demo_actor_def)

theorem service_commands_reaps_witness:
  "\<exists>self' log'. service_commands buf_mpsc sim_tcp sim_sets nobody_gone [4] (demo_actor, []) = Some (self', log') \<and>
     dom (conns self') = {4} \<and> handles sim_sets (sockets self') = {0, 1, 2, 3, 4}"
proof -
  have c: "{h \<in> dom (conns demo_actor). \<not> rx_closed buf_mpsc (cmd_rx (the (conns demo_actor h)))} = {4}"
    "listeners demo_actor = [0, 1, 2, 3]"
    by (auto simp: demo_actor_def demo_conn_def conn_state_new_def buf_mpsc_def split: if_splits)
  show ?thesis
    using service_commands_reaps [OF buf_mpsc_laws buf_closed_laws sim_sets_laws demo_actor_inv demo_order,
        of sim_tcp nobody_gone "[]"]
    unfolding c by (auto simp: insert_commute)
qed

theorem service_commands_replies_once_witness:
  "\<exists>self' log'. service_commands buf_mpsc sim_tcp sim_sets nobody_gone [4] (demo_actor, []) = Some (self', log') \<and>
     all_ids bc_queue (self', log') = {#0, 1, 2, 3#}"
proof -
  obtain self' log' where run:
    "service_commands buf_mpsc sim_tcp sim_sets nobody_gone [4] (demo_actor, []) = Some (self', log')"
    using service_commands_inv [OF buf_mpsc_laws sim_sets_laws demo_actor_inv demo_order, of sim_tcp nobody_gone "[]"]
    by blast
  have "all_ids bc_queue (demo_actor, []) = {#0, 1, 2, 3#}"
    by (simp add: all_ids_def open_ids_def demo_actor_def demo_conn_def demo_cmds_def conn_state_new_def ids_defs)
  with service_commands_replies_once [OF buf_mpsc_laws sim_sets_laws demo_actor_inv demo_order(1) _ run] demo_order(2) run
  show ?thesis by (auto simp: nobody_gone_def)
qed

text \<open>The actor as it is spawned, and its first two steps.\<close>

definition demo_spawned :: demo_actor_type where
  "demo_spawned = fst (the (spawn buf_mpsc buf_mpsc sim_tcp sim_sets () demo_phy))"

lemma demo_spawn:
  "spawn buf_mpsc buf_mpsc sim_tcp sim_sets () demo_phy = Some (demo_spawned, \<lparr>stop_tx = chan_new buf_mpsc 1\<rparr>)"
proof -
  obtain self :: demo_actor_type where
    "with_channels sim_tcp sim_sets () demo_phy (chan_new buf_mpsc 64) (chan_new buf_mpsc 1) = Some self"
    using with_channels_inv [OF sim_listen_laws sim_sets_laws, of "()" demo_phy "chan_new buf_mpsc 64" "chan_new buf_mpsc 1"]
    by blast
  then show ?thesis by (simp add: demo_spawned_def spawn_def Let_def)
qed

definition demo_polled :: "(unit, packet buf_chan, sim_socket sim_set, nat, nat conn_cmd buf_chan, nat,
    nat accepted buf_chan, unit buf_chan) system" where
  "demo_polled = (system_start demo_spawned)\<lparr>now := 7, phase := Accepting\<rparr>"

lemma demo_steps:
  "(system_step buf_mpsc buf_mpsc buf_mpsc sim_tcp sim_sets sim_iface nobody_gone)\<^sup>*\<^sup>*
     (system_start demo_spawned) demo_polled"
proof -
  have "system_step buf_mpsc buf_mpsc buf_mpsc sim_tcp sim_sets sim_iface nobody_gone (system_start demo_spawned)
      ((system_start demo_spawned)\<lparr>actor := (actor (system_start demo_spawned))\<lparr>iface := (),
        phy_dev := phy_dev demo_spawned, sockets := sockets demo_spawned\<rparr>, now := 7, phase := Accepting\<rparr>)"
    by (rule step_poll) (simp_all add: system_start_def sim_iface_def)
  moreover have "demo_spawned\<lparr>iface := ()\<rparr> = demo_spawned" by (cases demo_spawned) simp
  ultimately show ?thesis by (intro r_into_rtranclp) (simp add: demo_polled_def system_start_def)
qed

theorem no_socket_leaks_witness:
  "length (listeners (actor demo_polled)) = 4 \<and> distinct (listeners (actor demo_polled)) \<and>
   handles sim_sets (sockets (actor demo_polled)) =
     set (listeners (actor demo_polled)) \<union> dom (conns (actor demo_polled))"
  using no_socket_leaks [OF sim_stack_laws demo_spawn demo_steps] by simp

theorem actor_never_stuck_witness:
  "\<exists>s'. system_step buf_mpsc buf_mpsc buf_mpsc sim_tcp sim_sets sim_iface nobody_gone demo_polled s' \<and>
     phase s' = Servicing"
  using actor_never_stuck [OF sim_stack_laws demo_spawn demo_steps]
  by (simp add: demo_polled_def)

definition demo_dispatched :: "(unit, packet buf_chan, sim_socket sim_set, nat, nat conn_cmd buf_chan, nat,
    nat accepted buf_chan, unit buf_chan) system" where
  "demo_dispatched = (system_start demo_accepted)\<lparr>actor := demo_accepted\<lparr>accepted_tx := chan_new buf_mpsc 64\<rparr>,
     relays := [(vconn_new demo_meta 1, demo_meta)]\<rparr>"

lemma demo_dispatch_step:
  "(system_step buf_mpsc buf_mpsc buf_mpsc sim_tcp sim_sets sim_iface nobody_gone)\<^sup>*\<^sup>*
     (system_start demo_accepted) demo_dispatched"
proof -
  let ?s = "system_start demo_accepted"
  have "try_recv buf_mpsc (accepted_tx (actor ?s)) =
      (Some (vconn_new demo_meta 1, demo_meta), chan_new buf_mpsc 64)"
    by (simp add: demo_accepted_def system_start_def buf_mpsc_def)
  from step_dispatch [OF this] have "system_step buf_mpsc buf_mpsc buf_mpsc sim_tcp sim_sets sim_iface nobody_gone
      ?s demo_dispatched" by (simp add: demo_dispatched_def system_start_def)
  then show ?thesis by (rule r_into_rtranclp)
qed

theorem relays_in_accept_order_witness:
  "prefix [(vconn_new demo_meta 1, demo_meta)]
     (relays demo_dispatched @ bc_queue (accepted_tx (actor demo_dispatched)))"
proof -
  have inv: "actor_inv sim_sets (actor (system_start demo_accepted))"
    using try_accept_outcome [OF sim_listen_laws sim_sets_laws buf_mpsc_laws demo_actor_inv, of buf_mpsc]
    by (auto simp: demo_accept_run system_start_def)
  from relays_in_accept_order [OF sim_stack_laws inv demo_dispatch_step] show ?thesis
    by (simp add: demo_accepted_def system_start_def)
qed

end
