(* ===== verification/Actor_Links.thy ===== *)
theory Actor_Links
  imports Relay_Tasks Netstack_Actor
begin

text \<open>
  The actor as a relay sees it. \<open>Relay_Tasks\<close> verifies a relay against the steps its
  connection can take: the network, a turn of the actor, the last turn, a stop. Here the loop
  of the whole actor, with all its connections and listeners, is shown to take only such
  steps of each connection: the relay's model is an abstraction of the actor's.
\<close>

section \<open>A service call depends on the log only by appending to it\<close>

definition add_log :: "'r reply list \<Rightarrow> ('c, 'r, 'k) conn_io \<Rightarrow> ('c, 'r, 'k) conn_io" where
  "add_log pre x = (case x of (self, k, log) \<Rightarrow> (self, k, pre @ log))"

lemma add_log_simps [simp]:
  "add_log pre (self, k, log) = (self, k, pre @ log)" "fst (add_log pre x) = fst x"
  "add_log pre (apfst f x) = apfst f (add_log pre x)"
  by (cases x; simp add: add_log_def)+

lemma service_io_log: "service_io T is_closed (add_log pre x) = add_log pre (service_io T is_closed x)"
proof -
  have r: "service_read T is_closed (add_log pre x) = add_log pre (service_read T is_closed x)" for x
    by (cases x) (auto simp: service_read_def Let_def split: option.splits prod.splits)
  have w: "service_write T is_closed (add_log pre x) = add_log pre (service_write T is_closed x)" for x
    by (cases x) (auto simp: service_write_def Let_def split: option.splits prod.splits)
  show ?thesis by (simp add: service_io_def r w)
qed

lemma handle_cmd_log: "handle_cmd T cm (add_log pre x) = add_log pre (handle_cmd T cm x)"
  by (cases x; cases cm) (simp_all add: handle_cmd_def)

lemma service_loop_log:
  assumes M: "mpsc_laws M queue cap"
  shows "service_loop M T is_closed (add_log pre x) = map_option (add_log pre) (service_loop M T is_closed x)"
proof (induction "queue (cmd_rx (fst x))" arbitrary: x)
  case Nil
  from try_recv_Nil [OF M Nil.hyps [symmetric]] obtain c where "try_recv M (cmd_rx (fst x)) = (None, c)" by blast
  then show ?case
    by (simp add: service_loop.simps [of M T is_closed x] service_loop.simps [of M T is_closed "add_log pre x"])
next
  case (Cons cm cs)
  from try_recv_Cons [OF M Cons.hyps(2) [symmetric]] obtain c where
    c: "try_recv M (cmd_rx (fst x)) = (Some cm, c)" "queue c = cs" by blast
  let ?y = "service_io T is_closed (handle_cmd T cm (apfst (cmd_rx_update (\<lambda>_. c)) x))"
  have "service_loop M T is_closed (add_log pre ?y) = map_option (add_log pre) (service_loop M T is_closed ?y)"
    by (rule Cons.hyps(1)) (simp add: c(2))
  then show ?case using c(1)
    by (simp add: service_loop.simps [of M T is_closed x] service_loop.simps [of M T is_closed "add_log pre x"]
        flip: add_log_simps(3) handle_cmd_log service_io_log)
qed

lemma service_logs:
  assumes "mpsc_laws M queue cap"
  obtains self' k' new where "\<And>log. service M T is_closed (self, k, log) = Some (self', k', log @ new)"
    and "queue (cmd_rx self') = []"
proof -
  note loop = service_loop_log [OF assms]
  obtain s1 k1 new where s1: "service M T is_closed (self, k, []) = Some (s1, k1, new)" "queue (cmd_rx s1) = []"
    by (rule service_returns [OF assms])
  have "service M T is_closed (self, k, pre) = Some (s1, k1, pre @ new)" for pre
    using loop [of T is_closed pre "service_io T is_closed (self, k, [])"] s1(1) service_io_log [of T is_closed pre "(self, k, [])"]
    by (simp add: service_def)
  then show thesis using that s1(2) by blast
qed

lemma service_log:
  assumes "mpsc_laws M queue cap" and "service M T is_closed (self, k, log) = Some (self', k', log')"
  shows "\<exists>new. service M T is_closed (self, k, other) = Some (self', k', other @ new)"
  using service_logs [OF assms(1), of T is_closed self k] assms(2) by (metis option.inject prod.inject)

lemma fail_pending_log:
  "fail_pending (self, log) = (self', log') \<Longrightarrow> fail_pending (self, pre @ log) = (self', pre @ log')"
  by (auto simp: fail_pending_def Let_def split: option.splits)

text \<open>
  What a sweep answers the callers of a connection: what \<open>service\<close> answers, and when it
  finds every caller gone, the failure of what is still pending.
\<close>

definition swept_replies ::
  "('c, nat conn_cmd) mpsc_ops \<Rightarrow> 'k tcp_ops \<Rightarrow> ('c, nat) conn_state \<Rightarrow> 'k \<Rightarrow> nat reply list" where
  "swept_replies M T conn k =
     (case service M T (\<lambda>_ _. False) (conn, k, []) of
        None \<Rightarrow> []
      | Some (conn, _, log) \<Rightarrow> if rx_closed M (cmd_rx conn) then snd (fail_pending (conn, log)) else log)"

lemma service_conn_replies:
  assumes M: "mpsc_laws M queue cap" and run: "service_conn M T Z (\<lambda>_ _. False) h (self, log) = Some (self', log')"
  shows "log' = log @ (case (conns self h, set_get Z h (sockets self)) of
    (Some conn, Some k) \<Rightarrow> swept_replies M T conn k | _ \<Rightarrow> [])"
proof (cases "conns self h")
  case (Some conn)
  then obtain k where k: "set_get Z h (sockets self) = Some k" using run by (auto simp: service_conn_def split: option.splits)
  obtain conn' k' new where sv: "\<And>log. service M T (\<lambda>_ _. False) (conn, k, log) = Some (conn', k', log @ new)"
    and q: "queue (cmd_rx conn') = []" by (rule service_logs [OF M, of T "\<lambda>_ _. False" conn k]) blast
  obtain gone failed where f: "fail_pending (conn', new) = (gone, failed)" by (cases "fail_pending (conn', new)")
  show ?thesis using run Some k sv q sv [of "[]"] f fail_pending_log [OF f, of log]
    by (auto simp: service_conn_def swept_replies_def rx_empty_iff [OF M] split: if_splits prod.splits)
qed (use run in \<open>simp add: service_conn_def\<close>)

lemma sweep_appends:
  fixes M :: "('c, nat conn_cmd) mpsc_ops"
  assumes "mpsc_laws M queue cap"
  shows "service_commands M T Z (\<lambda>_ _. False) order (self, log) = Some (self', log') \<Longrightarrow> \<exists>post. log' = log @ post"
proof (induction order arbitrary: self log)
  case (Cons g order)
  from Cons.prems obtain self1 log1 where "service_conn M T Z (\<lambda>_ _. False) g (self, log) = Some (self1, log1)"
    "service_commands M T Z (\<lambda>_ _. False) order (self1, log1) = Some (self', log')" by (auto split: bind_splits)
  with Cons.IH service_conn_replies [OF assms] show ?case by (metis append.assoc)
qed simp

lemma sweep_replies:
  assumes M: "mpsc_laws M queue cap" and Z: "set_laws Z"
  shows "service_commands M T Z (\<lambda>_ _. False) order (self, log) = Some (self', log') \<Longrightarrow> distinct order \<Longrightarrow>
    h \<in> set order \<Longrightarrow> set order \<subseteq> dom (conns self) \<Longrightarrow> set order \<subseteq> handles Z (sockets self) \<Longrightarrow>
    conns self h = Some conn \<Longrightarrow> set_get Z h (sockets self) = Some k \<Longrightarrow>
    \<exists>pre post. log' = log @ pre @ swept_replies M T conn k @ post"
proof (induction order arbitrary: self log)
  case (Cons g order)
  from Cons.prems obtain self1 log1 where 1: "service_conn M T Z (\<lambda>_ _. False) g (self, log) = Some (self1, log1)"
    "service_commands M T Z (\<lambda>_ _. False) order (self1, log1) = Some (self', log')" by (auto split: bind_splits)
  note log1 = service_conn_replies [OF M 1(1)]
  show ?case
  proof (cases "g = h")
    case True
    with log1 Cons.prems(6,7) sweep_appends [OF M 1(2)] show ?thesis by (auto intro: exI [of _ "[]"])
  next
    case False
    have "g \<in> dom (conns self)" "g \<in> handles Z (sockets self)" using Cons.prems(4,5) by auto
    from service_conn_serviced [OF M Z this, of T "\<lambda>_ _. False" log] 1(1)
    have same: "\<forall>g'. g' \<noteq> g \<longrightarrow> conns self1 g' = conns self g' \<and> set_get Z g' (sockets self1) = set_get Z g' (sockets self)" by auto
    have kept: "set order \<subseteq> dom (conns self1) \<and> set order \<subseteq> handles Z (sockets self1)"
    proof -
      have "g' \<in> dom (conns self1) \<and> g' \<in> handles Z (sockets self1)" if "g' \<in> set order" for g'
      proof -
        have "g' \<noteq> g" "g' \<in> dom (conns self)" "g' \<in> handles Z (sockets self)" using that Cons.prems(2,4,5) by auto
        with same show ?thesis by (simp add: handles_def dom_def)
      qed
      then show ?thesis by auto
    qed
    have "conns self1 h = Some conn" "set_get Z h (sockets self1) = Some k" using same False Cons.prems(6,7) by simp_all
    from Cons.IH [OF 1(2) _ _ conjunct1 [OF kept] conjunct2 [OF kept] this] Cons.prems(2,3) False obtain pre post where
      "log' = log1 @ pre @ swept_replies M T conn k @ post" by auto
    with log1 show ?thesis by (metis append.assoc)
  qed
qed simp

lemma link_swept:
  assumes M: "mpsc_laws M queue cap" and C: "closed_laws M" and lk: "lk_conn lk = Some conn"
    and run: "(if rx_closed M (cmd_rx conn) then link_reap M T lk else link_turn M T lk) = Some lk'"
  shows "lk_replies lk' = lk_replies lk @ swept_replies M T conn (lk_sock lk)"
proof -
  obtain conn' k' new where sv: "\<And>log. service M T (\<lambda>_ _. False) (conn, lk_sock lk, log) = Some (conn', k', log @ new)"
    by (rule service_logs [OF M, of T "\<lambda>_ _. False" conn "lk_sock lk"]) blast
  have closed: "rx_closed M (cmd_rx conn') = rx_closed M (cmd_rx conn)" using service_closed [OF M C sv [of "[]"]] by simp
  obtain gone failed where f: "fail_pending (conn', new) = (gone, failed)" by (cases "fail_pending (conn', new)")
  from run lk sv sv [of "[]"] f fail_pending_log [OF f, of "lk_replies lk"] closed show ?thesis
    by (auto simp: link_reap_def link_turn_def swept_replies_def split: if_splits prod.splits)
qed

section \<open>The actor's steps, seen from one connection\<close>

text \<open>\<open>N\<close> is what a poll of the interface may do to a socket.\<close>

definition poll_laws :: "('i, 'd, 'z) iface_ops \<Rightarrow> ('z, 'h, 'k) set_ops \<Rightarrow> ('k \<Rightarrow> 'k \<Rightarrow> bool) \<Rightarrow> bool" where
  "poll_laws I Z N \<longleftrightarrow>
     (\<forall>t i p z i' p' z' h k. poll I t i p z = (i', p', z') \<longrightarrow> set_get Z h z = Some k \<longrightarrow>
        (\<exists>k'. set_get Z h z' = Some k' \<and> N k k')) \<and>
     (\<forall>t i p z i' p' z' h k. poll_egress I t i p z = (i', p', z') \<longrightarrow> set_get Z h z = Some k \<longrightarrow>
        (\<exists>k'. set_get Z h z' = Some k' \<and> N k k'))"

text \<open>The link of connection \<open>h\<close> in a state of the actor; a stopped actor has dropped it.\<close>

definition sees ::
  "('z, 'h, 'k) set_ops \<Rightarrow> ('i, 'd, 'z, 'h, 'c, nat, 'a, 's) system \<Rightarrow> 'h \<Rightarrow> ('c, 'k) link \<Rightarrow> bool" where
  "sees Z s h lk \<longleftrightarrow>
     (if phase s = Stopped then lk_conn lk = None
      else lk_conn lk = conns (actor s) h \<and>
        (conns (actor s) h \<noteq> None \<longrightarrow> set_get Z h (sockets (actor s)) = Some (lk_sock lk)))"

text \<open>
  What a phase of the actor, from \<open>s\<close> to \<open>s'\<close>, does to the link of connection
  \<open>h\<close>: a sweep is a turn, or the last turn when every caller is gone; a stop drops the
  connection; the other phases may change the socket.
\<close>

definition link_follow ::
  "('c, nat conn_cmd) mpsc_ops \<Rightarrow> 'k tcp_ops \<Rightarrow> ('z, 'h, 'k) set_ops \<Rightarrow> 'h \<Rightarrow>
   ('i, 'd, 'z, 'h, 'c, nat, 'a, 's) system \<Rightarrow> ('i, 'd, 'z, 'h, 'c, nat, 'a, 's) system \<Rightarrow>
   ('c, 'k) link \<Rightarrow> ('c, 'k) link option" where
  "link_follow M T Z h s s' lk =
     (case lk_conn lk of
        None \<Rightarrow> Some lk
      | Some conn \<Rightarrow>
          if phase s = Servicing then (if rx_closed M (cmd_rx conn) then link_reap M T lk else link_turn M T lk)
          else if phase s' = Stopped then Some (lk\<lparr>lk_conn := None\<rparr>)
          else map_option (\<lambda>k. lk\<lparr>lk_sock := k\<rparr>) (set_get Z h (sockets (actor s'))))"

lemma poll_sees:
  assumes "sees Z s h lk" and "phase s \<noteq> Stopped" and "conns (actor s) h \<noteq> None"
    and "conns (actor s') h = conns (actor s) h" and "phase s' \<noteq> Stopped"
    and "\<And>k. set_get Z h (sockets (actor s)) = Some k \<Longrightarrow> \<exists>k'. set_get Z h (sockets (actor s')) = Some k' \<and> N k k'"
  shows "\<exists>k'. N (lk_sock lk) k' \<and> sees Z s' h (lk\<lparr>lk_sock := k'\<rparr>)"
  using assms by (fastforce simp: sees_def)

lemma serviced_turn:
  assumes M: "mpsc_laws M queue cap" and C: "closed_laws M" and lk: "lk_conn lk = Some conn"
    and srv: "serviced M T (\<lambda>_ _. False) (Some conn) (Some (lk_sock lk)) conn' k'"
  shows "rx_closed M (cmd_rx conn) \<and> conn' = None \<and> k' = None \<and> (\<exists>lk'. link_reap M T lk = Some lk' \<and> lk_conn lk' = None) \<or>
    \<not> rx_closed M (cmd_rx conn) \<and>
      (\<exists>lk' c. link_turn M T lk = Some lk' \<and> lk_conn lk' = Some c \<and> conn' = Some c \<and>
         rx_closed M (cmd_rx c) = rx_closed M (cmd_rx conn) \<and> k' = Some (lk_sock lk'))"
proof -
  from srv obtain log c' s' log' where run: "service M T (\<lambda>_ _. False) (conn, lk_sock lk, log) = Some (c', s', log')"
    and out: "if rx_closed M (cmd_rx c') then conn' = None \<and> k' = None else conn' = Some c' \<and> k' = Some s'"
    by (auto simp: serviced_def)
  from service_log [OF M run, of "lk_replies lk"] obtain new where
    own: "service M T (\<lambda>_ _. False) (conn, lk_sock lk, lk_replies lk) = Some (c', s', lk_replies lk @ new)" by blast
  have closed: "rx_closed M (cmd_rx c') = rx_closed M (cmd_rx conn)" using service_closed [OF M C run] by simp
  have "\<exists>lk'. link_reap M T lk = Some lk' \<and> lk_conn lk' = None"
    using own lk by (auto simp: link_reap_def split: prod.split)
  with own lk out closed show ?thesis by (auto simp: link_turn_def)
qed

lemma accept_sees:
  assumes laws: "mpsc_laws A qa ca" "listen_laws T" "set_laws Z" and inv: "actor_inv Z (actor s)"
    and conn: "conns (actor s) h = Some conn" and run: "try_accept M A T Z (actor s) = Some self"
    and at: "sees Z s h lk" "phase s \<noteq> Stopped" and s': "s' = s\<lparr>actor := self, phase := Servicing\<rparr>"
  shows "sees Z s' h lk"
proof -
  from try_accept_outcome [OF laws(2,3,1) inv, of M] run obtain new where
    new: "conns self = conns (actor s) ++ new_conns M new" "subseq (map fst new) (listeners (actor s))"
    "\<forall>h \<in> dom (conns self). set_get Z h (sockets self) = set_get Z h (sockets (actor s))" by auto
  have "h \<notin> fst ` set new" using set_mono_subseq [OF new(2)] inv conn by (auto simp: actor_inv_def sockets_split_def)
  then have "conns self h = Some conn" using conn by (simp add: new(1) map_add_dom_app_simps dom_new_conns)
  moreover from this have "set_get Z h (sockets self) = set_get Z h (sockets (actor s))" using new(3) by (simp add: domI)
  ultimately show ?thesis using at conn by (simp add: sees_def s')
qed

lemma service_sees:
  fixes p :: "('c, 'k, 't, 'e) relay_tasks"
  assumes laws: "mpsc_laws M qm cm" "set_laws Z" "closed_laws M" and inv: "actor_inv Z (actor s)"
    and conn: "conns (actor s) h = Some conn" and at: "sees Z s h (tk_link p)" "phase s \<noteq> Stopped"
    and ended: "rx_closed M (cmd_rx conn) \<Longrightarrow> \<exists>r. tk_pc p = PipeDone r"
    and order: "distinct order" "set order = dom (conns (actor s))"
    and run: "service_commands M T Z (\<lambda>_ _. False) order (actor s, replies s) = Some (self, log)"
    and s': "s' = s\<lparr>actor := self, replies := log, phase := Egress\<rparr>"
  shows "\<exists>lk. (if rx_closed M (cmd_rx conn) then link_reap M T (tk_link p) else link_turn M T (tk_link p)) = Some lk \<and>
    actor_step M T N p (p\<lparr>tk_link := lk\<rparr>) \<and> sees Z s' h lk \<and>
    (if rx_closed M (cmd_rx conn) then lk_conn lk = None \<and> set_get Z h (sockets (actor s')) = None
     else \<exists>c. lk_conn lk = Some c \<and> \<not> rx_closed M (cmd_rx c))"
proof -
  have lk: "lk_conn (tk_link p) = Some conn" "set_get Z h (sockets (actor s)) = Some (lk_sock (tk_link p))"
    using at conn by (simp_all add: sees_def)
  have "dom (conns (actor s)) \<subseteq> handles Z (sockets (actor s))" using inv by (auto simp: actor_inv_def sockets_split_def)
  from service_commands_each [OF laws(1,2) order(1), of "actor s" T "\<lambda>_ _. False" "replies s"] this order(2) run
  have "serviced M T (\<lambda>_ _. False) (conns (actor s) h) (set_get Z h (sockets (actor s))) (conns self h) (set_get Z h (sockets self))"
    by (metis (no_types, lifting) conn domI order_refl option.inject prod.inject)
  note turn = serviced_turn [OF laws(1,3) lk(1) this [unfolded conn lk(2)]]
  show ?thesis
  proof (cases "rx_closed M (cmd_rx conn)")
    case True
    with turn ended obtain lk' r where "link_reap M T (tk_link p) = Some lk'" "lk_conn lk' = None" "conns self h = None"
      "set_get Z h (sockets self) = None" "tk_pc p = PipeDone r" by auto
    with True show ?thesis by (intro exI [of _ lk']) (simp add: sees_def s' reaps)
  next
    case False
    with turn obtain lk' c where "link_turn M T (tk_link p) = Some lk'" "lk_conn lk' = Some c" "conns self h = Some c"
      "\<not> rx_closed M (cmd_rx c)" "set_get Z h (sockets self) = Some (lk_sock lk')" by auto
    with False show ?thesis by (intro exI [of _ lk']) (simp add: sees_def s' turns)
  qed
qed

text \<open>Every phase of the actor, for a connection it has and the relay on it.\<close>

lemma link_follows:
  fixes p :: "('c, 'k, 't, 'e) relay_tasks"
  assumes laws: "stack_laws M A T Z I qm cm qa ca" "closed_laws M" "poll_laws I Z N"
    and inv: "actor_inv Z (actor s)" and conn: "conns (actor s) h = Some conn"
    and at: "sees Z s h (tk_link p)" "phase s \<noteq> Stopped"
    and ended: "rx_closed M (cmd_rx conn) \<Longrightarrow> \<exists>r. tk_pc p = PipeDone r"
    and step: "system_step M A S T Z I (\<lambda>_ _. False) s s'" "phase s' \<noteq> phase s"
  shows "\<exists>lk. link_follow M T Z h s s' (tk_link p) = Some lk \<and> (actor_step M T N)\<^sup>=\<^sup>= p (p\<lparr>tk_link := lk\<rparr>) \<and> sees Z s' h lk \<and>
    (case lk_conn lk of
       None \<Rightarrow> phase s' = Stopped \<or> rx_closed M (cmd_rx conn)
     | Some c \<Rightarrow> phase s' \<noteq> Stopped \<and> rx_closed M (cmd_rx c) = rx_closed M (cmd_rx conn))"
proof -
  have L: "mpsc_laws M qm cm" "mpsc_laws A qa ca" "listen_laws T" "set_laws Z"
    using laws(1) by (simp_all add: stack_laws_def)
  have lk: "lk_conn (tk_link p) = Some conn" "set_get Z h (sockets (actor s)) = Some (lk_sock (tk_link p))"
    using at conn by (simp_all add: sees_def)
  have moved: ?thesis
    if k: "(actor_step M T N)\<^sup>=\<^sup>= p (p\<lparr>tk_link := (tk_link p)\<lparr>lk_sock := k\<rparr>\<rparr>)" "sees Z s' h ((tk_link p)\<lparr>lk_sock := k\<rparr>)"
      and ph: "phase s \<noteq> Servicing" "phase s' \<noteq> Stopped" for k
  proof -
    have "set_get Z h (sockets (actor s')) = Some k" using k(2) ph lk(1) by (auto simp: sees_def)
    then have "link_follow M T Z h s s' (tk_link p) = Some ((tk_link p)\<lparr>lk_sock := k\<rparr>)"
      using lk(1) ph by (simp add: link_follow_def)
    with k ph lk(1) show ?thesis by (intro exI [of _ "(tk_link p)\<lparr>lk_sock := k\<rparr>"]) simp
  qed
  have same: ?thesis if "sees Z s' h (tk_link p)" "phase s \<noteq> Servicing" "phase s' \<noteq> Stopped"
    using moved [of "lk_sock (tk_link p)"] that by simp
  from step(1) show ?thesis
  proof cases
    case (step_poll t i d z)
    obtain k' where "N (lk_sock (tk_link p)) k'" "sees Z s' h ((tk_link p)\<lparr>lk_sock := k'\<rparr>)"
      using poll_sees [OF at, of s' N] laws(3) step_poll conn by (auto simp: poll_laws_def)
    then show ?thesis using step_poll(1,2) by (intro moved) (auto intro: network)
  next
    case (step_egress i d z)
    obtain k' where "N (lk_sock (tk_link p)) k'" "sees Z s' h ((tk_link p)\<lparr>lk_sock := k'\<rparr>)"
      using poll_sees [OF at, of s' N] laws(3) step_egress conn by (auto simp: poll_laws_def)
    then show ?thesis using step_egress(1,2) by (intro moved) (auto intro: network)
  next
    case (step_accept self)
    from accept_sees [OF L(2-4) inv conn step_accept(3) at step_accept(1)] step_accept(1,2) show ?thesis
      by (intro same) simp_all
  next
    case (step_service order self log)
    from service_sees [OF L(1,4) laws(2) inv conn at ended step_service(3-5,1), of N] obtain lk' where
      "(if rx_closed M (cmd_rx conn) then link_reap M T (tk_link p) else link_turn M T (tk_link p)) = Some lk'"
      "actor_step M T N p (p\<lparr>tk_link := lk'\<rparr>)" "sees Z s' h lk'"
      "if rx_closed M (cmd_rx conn) then lk_conn lk' = None \<and> set_get Z h (sockets (actor s')) = None
       else \<exists>c. lk_conn lk' = Some c \<and> \<not> rx_closed M (cmd_rx c)" by blast
    with step_service(1,2) lk(1) show ?thesis
      by (intro exI [of _ lk']) (auto simp: link_follow_def split: if_splits)
  next
    case step_sleep
    with lk conn show ?thesis by (intro same) (simp_all add: sees_def)
  next
    case step_stop
    with lk show ?thesis
      by (intro exI [of _ "(tk_link p)\<lparr>lk_conn := None\<rparr>"]) (simp add: link_follow_def sees_def stops)
  qed (use step(2) in simp_all)
qed

text \<open>
  C8. The loop of the whole actor refines the model the relays are verified against, phase by
  phase, whatever other connections and listeners it has. Of a connection and the relay on it:
  the polling and sending phases move its socket as the network may and nothing else; accepting
  leaves it alone; a sweep is exactly one turn of its own \<open>service\<close>, or when every caller is
  gone the last turn, which frees its socket, and of the replies sent those to its callers are
  that turn's, unbroken and in order; waiting leaves it alone unless the actor stops. After
  each phase the relay's link is again the actor's state of the connection.
\<close>
theorem actor_steps_simulated:
  fixes p :: "('c, 'k, 't, 'e) relay_tasks"
  assumes laws: "stack_laws M A T Z I qm cm qa ca" "closed_laws M" "poll_laws I Z N"
    and inv: "actor_inv Z (actor s)" and conn: "conns (actor s) h = Some conn"
    and at: "sees Z s h (tk_link p)" "phase s \<noteq> Stopped"
    and ended: "rx_closed M (cmd_rx conn) \<Longrightarrow> \<exists>r. tk_pc p = PipeDone r"
    and step: "system_step M A S T Z I (\<lambda>_ _. False) s s'" "phase s' \<noteq> phase s"
  shows "\<exists>lk. sees Z s' h lk \<and>
    (case phase s of
       Servicing \<Rightarrow> actor_step M T N p (p\<lparr>tk_link := lk\<rparr>) \<and>
         (if rx_closed M (cmd_rx conn)
          then link_reap M T (tk_link p) = Some lk \<and> conns (actor s') h = None \<and> set_get Z h (sockets (actor s')) = None
          else link_turn M T (tk_link p) = Some lk \<and> conns (actor s') h \<noteq> None) \<and>
         (\<exists>pre new post. lk_replies lk = lk_replies (tk_link p) @ new \<and> replies s' = replies s @ pre @ new @ post)
     | Accepting \<Rightarrow> lk = tk_link p \<and> conns (actor s') h = Some conn \<and> replies s' = replies s
     | Waiting \<Rightarrow> lk = (if phase s' = Stopped then (tk_link p)\<lparr>lk_conn := None\<rparr> else tk_link p) \<and> replies s' = replies s
     | _ \<Rightarrow> (\<exists>k. N (lk_sock (tk_link p)) k \<and> lk = (tk_link p)\<lparr>lk_sock := k\<rparr>) \<and>
         conns (actor s') h = Some conn \<and> replies s' = replies s)"
proof -
  have L: "mpsc_laws M qm cm" "mpsc_laws A qa ca" "listen_laws T" "set_laws Z"
    using laws(1) by (simp_all add: stack_laws_def)
  have lk: "lk_conn (tk_link p) = Some conn" "set_get Z h (sockets (actor s)) = Some (lk_sock (tk_link p))"
    using at conn by (simp_all add: sees_def)
  from step(1) show ?thesis
  proof cases
    case (step_poll t i d z)
    obtain k' where "N (lk_sock (tk_link p)) k'" "sees Z s' h ((tk_link p)\<lparr>lk_sock := k'\<rparr>)"
      using poll_sees [OF at, of s' N] laws(3) step_poll conn by (auto simp: poll_laws_def)
    then show ?thesis using step_poll(1,2) conn by (intro exI [of _ "(tk_link p)\<lparr>lk_sock := k'\<rparr>"]) auto
  next
    case (step_egress i d z)
    obtain k' where "N (lk_sock (tk_link p)) k'" "sees Z s' h ((tk_link p)\<lparr>lk_sock := k'\<rparr>)"
      using poll_sees [OF at, of s' N] laws(3) step_egress conn by (auto simp: poll_laws_def)
    then show ?thesis using step_egress(1,2) conn by (intro exI [of _ "(tk_link p)\<lparr>lk_sock := k'\<rparr>"]) auto
  next
    case (step_accept self)
    note same = accept_sees [OF L(2-4) inv conn step_accept(3) at step_accept(1)]
    with step_accept(1,2) lk(1) show ?thesis by (intro exI [of _ "tk_link p"]) (simp add: sees_def)
  next
    case (step_service order self log)
    from service_sees [OF L(1,4) laws(2) inv conn at ended step_service(3-5,1), of N] obtain lk' where
      lk': "(if rx_closed M (cmd_rx conn) then link_reap M T (tk_link p) else link_turn M T (tk_link p)) = Some lk'"
      "actor_step M T N p (p\<lparr>tk_link := lk'\<rparr>)" "sees Z s' h lk'"
      "if rx_closed M (cmd_rx conn) then lk_conn lk' = None \<and> set_get Z h (sockets (actor s')) = None
       else \<exists>c. lk_conn lk' = Some c \<and> \<not> rx_closed M (cmd_rx c)" by blast
    have "dom (conns (actor s)) \<subseteq> handles Z (sockets (actor s))" using inv by (auto simp: actor_inv_def sockets_split_def)
    with sweep_replies [OF L(1,4) step_service(5,3) _ _ _ conn lk(2)] step_service(4) conn obtain pre post where
      "log = replies s @ pre @ swept_replies M T conn (lk_sock (tk_link p)) @ post" by (auto simp: domI)
    with link_swept [OF L(1) laws(2) lk(1) lk'(1)] have
      "\<exists>pre new post. lk_replies lk' = lk_replies (tk_link p) @ new \<and> replies s' = replies s @ pre @ new @ post"
      using step_service(1) by auto
    with lk' step_service(1,2) show ?thesis by (intro exI [of _ lk']) (auto simp: sees_def split: if_splits)
  next
    case step_sleep
    with lk conn show ?thesis by (intro exI [of _ "tk_link p"]) (simp add: sees_def)
  next
    case step_stop
    with lk show ?thesis by (intro exI [of _ "(tk_link p)\<lparr>lk_conn := None\<rparr>"]) (simp add: sees_def)
  qed (use step(2) in simp_all)
qed

text \<open>
  Every connection enters that model in its start state: when the accepting phase registers
  a connection, its \<open>VConn\<close> is in the queue of the dispatcher with the local endpoint of
  an established socket as its destination, and its link is a new one on that socket.
\<close>
lemma accept_starts_link:
  assumes laws: "stack_laws M A T Z I qm cm qa ca" and inv: "actor_inv Z (actor s)"
    and step: "system_step M A S T Z I is_closed s s'" "phase s = Accepting" "phase s' \<noteq> phase s"
    and new: "conns (actor s) h = None" "conns (actor s') h \<noteq> None"
  shows "\<exists>k m. (tcp_state T k = Established \<or> tcp_state T k = CloseWait) \<and>
    (vconn_new m h, m) \<in> set (qa (accepted_tx (actor s'))) \<and>
    local_endpoint T k = Some (destination (vconn_new m h)) \<and> sees Z s' h (link_new M k)"
proof -
  have L: "mpsc_laws A qa ca" "listen_laws T" "set_laws Z" using laws by (simp_all add: stack_laws_def)
  from step obtain self where self: "try_accept M A T Z (actor s) = Some self" "s' = s\<lparr>actor := self, phase := Servicing\<rparr>"
    by cases simp_all
  with try_accept_outcome [OF L(2,3,1) inv, of M] obtain acc where
    acc: "qa (accepted_tx self) = qa (accepted_tx (actor s)) @ vconns_of acc"
    "conns self = conns (actor s) ++ new_conns M acc" "\<forall>hm \<in> set acc. accepted_as T Z (sockets (actor s)) hm"
    "\<forall>h \<in> dom (conns self). set_get Z h (sockets self) = set_get Z h (sockets (actor s))" by auto
  have conn: "new_conns M acc h \<noteq> None" using new self(2) by (auto simp: acc(2) map_add_def split: option.splits)
  then obtain m where m: "(h, m) \<in> set acc" by (auto simp: new_conns_def split: if_splits)
  with acc(3) obtain k where k: "set_get Z h (sockets (actor s)) = Some k" "local_endpoint T k = Some (dst m)"
    "tcp_state T k = Established \<or> tcp_state T k = CloseWait"
    by (fastforce simp: accepted_as_def split: option.splits)
  have fresh: "conns self h = Some (conn_state_new (chan_new M 32))"
    using conn by (auto simp: acc(2) map_add_def new_conns_def split: if_splits)
  with acc(4) k(1) have "set_get Z h (sockets self) = Some k" by (simp add: domI)
  with fresh have "sees Z s' h (link_new M k)" by (simp add: sees_def self(2) link_new_def)
  moreover have "(vconn_new m h, m) \<in> set (qa (accepted_tx (actor s')))"
    using m by (force simp: self(2) acc(1) vconns_of_def)
  ultimately show ?thesis using k by (intro exI [of _ k] exI [of _ m]) (simp add: destination_def vconn_new_def)
qed

section \<open>Witness\<close>

text \<open>The actor's service phase, for the connection with four commands in its channel.\<close>

definition demo_servicing :: "(unit, packet buf_chan, sim_socket sim_set, nat, nat conn_cmd buf_chan, nat,
    nat accepted buf_chan, unit buf_chan) system" where
  "demo_servicing = (system_start demo_actor)\<lparr>phase := Servicing\<rparr>"

definition demo_served :: "(nat conn_cmd buf_chan, sim_socket, script, script_error) relay_tasks" where
  "demo_served = tasks_start \<lparr>lk_conn = Some (demo_conn demo_cmds), lk_sock = demo_sock, lk_replies = [], lk_next = 4\<rparr>"

lemma demo_poll_laws: "poll_laws sim_iface sim_sets demo_net"
  by (simp add: poll_laws_def sim_iface_def demo_net_def)

theorem actor_steps_simulated_witness:
  "\<exists>s' lk. system_step buf_mpsc buf_mpsc buf_mpsc sim_tcp sim_sets sim_iface (\<lambda>_ _. False) demo_servicing s' \<and>
     phase s' = Egress \<and> link_turn buf_mpsc sim_tcp (tk_link demo_served) = Some lk \<and> sees sim_sets s' 4 lk \<and>
     (\<exists>pre post. replies s' = pre @ lk_replies lk @ post)"
proof -
  have inv: "actor_inv sim_sets (actor demo_servicing)" "phase demo_servicing \<noteq> Stopped"
    by (simp_all add: demo_servicing_def system_start_def demo_actor_inv)
  from system_progress [OF sim_stack_laws inv, of buf_mpsc "\<lambda>_ _. False"] obtain s' where
    s': "system_step buf_mpsc buf_mpsc buf_mpsc sim_tcp sim_sets sim_iface (\<lambda>_ _. False) demo_servicing s'" "phase s' = Egress"
    by (auto simp: demo_servicing_def)
  have conn: "conns (actor demo_servicing) 4 = Some (demo_conn demo_cmds)"
    by (simp add: demo_servicing_def system_start_def demo_actor_def)
  have at: "sees sim_sets demo_servicing 4 (tk_link demo_served)"
    by (simp add: sees_def demo_servicing_def system_start_def demo_actor_def demo_served_def tasks_start_def sim_sets_def)
  have alive: "\<not> rx_closed buf_mpsc (cmd_rx (demo_conn demo_cmds))" by (simp add: demo_conn_def conn_state_new_def buf_mpsc_def)
  from actor_steps_simulated [OF sim_stack_laws buf_closed_laws demo_poll_laws inv(1) conn at inv(2) _ s'(1)] alive s'(2)
  obtain lk pre new post where "link_turn buf_mpsc sim_tcp (tk_link demo_served) = Some lk" "sees sim_sets s' 4 lk"
    "lk_replies lk = lk_replies (tk_link demo_served) @ new" "replies s' = replies demo_servicing @ pre @ new @ post"
    by (auto simp: demo_servicing_def)
  moreover from this have "replies s' = pre @ lk_replies lk @ post"
    by (simp add: demo_served_def tasks_start_def demo_servicing_def system_start_def)
  ultimately show ?thesis using s' by blast
qed

end
