(* ===== verification/Joint_Run.thy ===== *)
theory Joint_Run
  imports Actor_Links
begin

text \<open>
  The actor and a relay running together, from the moment the connection is accepted: the loop
  of \<open>src/netstack/actor.rs\<close> with all its connections, the task of \<open>src/relay.rs\<close> on
  one of them, and every other task. The relay's end of the connection is dropped when it is
  over, which is how the actor learns that it may reap the connection.
\<close>

section \<open>The joint system\<close>

text \<open>
  What the relay does to the channel is what the actor finds there. A connection the actor has
  dropped is not touched any more, even if its handle is in use again.
\<close>

definition with_conn ::
  "'h \<Rightarrow> ('c, 'k) link \<Rightarrow> ('i, 'd, 'z, 'h, 'c, nat, 'a, 's) system \<Rightarrow> ('i, 'd, 'z, 'h, 'c, nat, 'a, 's) system" where
  "with_conn h lk s =
     (case lk_conn lk of
        None \<Rightarrow> s
      | Some conn \<Rightarrow> s\<lparr>actor := (actor s)\<lparr>conns := (conns (actor s))(h \<mapsto> conn)\<rparr>\<rparr>)"

text \<open>
  A relay moves once the dispatcher has started it, and hangs up when it is over:
  \<open>drop_tx\<close> is the channel without senders. Other tasks do not have this connection's
  \<open>VConn\<close>. The upstream's other end moves on its own. A phase of the actor takes the
  relay's link along.
\<close>

inductive joint_step ::
  "('c, nat conn_cmd) mpsc_ops \<Rightarrow> ('a, 'h accepted) mpsc_ops \<Rightarrow> ('q, unit) mpsc_ops \<Rightarrow> 'k tcp_ops \<Rightarrow>
   ('z, 'h, 'k) set_ops \<Rightarrow> ('i, 'd, 'z) iface_ops \<Rightarrow> ('c \<Rightarrow> 'c) \<Rightarrow> ('s, 'e) stream_ops \<Rightarrow>
   (socket_addr \<Rightarrow> 'e connect_error + 's upstream) \<Rightarrow> 'h vconn \<Rightarrow>
   ('i, 'd, 'z, 'h, 'c, nat, 'a, 'q) system \<times> ('c, 'k, 's, 'e) relay_tasks \<Rightarrow>
   ('i, 'd, 'z, 'h, 'c, nat, 'a, 'q) system \<times> ('c, 'k, 's, 'e) relay_tasks \<Rightarrow> bool"
  for M A Q T Z I drop_tx S dial vc where
  relay_moves: "vc \<in> fst ` set (relays s) \<Longrightarrow> relay_step M S dial vc p p' \<Longrightarrow>
     joint_step M A Q T Z I drop_tx S dial vc (s, p) (with_conn (cmd vc) (tk_link p') s, p')"
| hangs_up: "tk_pc p = PipeDone r \<Longrightarrow> lk_conn (tk_link p) = Some conn \<Longrightarrow>
     lk = (tk_link p)\<lparr>lk_conn := Some (conn\<lparr>cmd_rx := drop_tx (cmd_rx conn)\<rparr>)\<rparr> \<Longrightarrow>
     joint_step M A Q T Z I drop_tx S dial vc (s, p) (with_conn (cmd vc) lk s, p\<lparr>tk_link := lk\<rparr>)"
| upstream_moves: "tk_stream p = Some st \<Longrightarrow> peer_moves S st st' \<Longrightarrow>
     joint_step M A Q T Z I drop_tx S dial vc (s, p) (s, p\<lparr>tk_stream := Some st'\<rparr>)"
| others_move: "system_step M A Q T Z I (\<lambda>_ _. False) s s' \<Longrightarrow> phase s' = phase s \<Longrightarrow>
     lk_conn (tk_link p) = None \<or> conns (actor s') (cmd vc) = conns (actor s) (cmd vc) \<Longrightarrow>
     joint_step M A Q T Z I drop_tx S dial vc (s, p) (s', p)"
| actor_moves: "system_step M A Q T Z I (\<lambda>_ _. False) s s' \<Longrightarrow> phase s' \<noteq> phase s \<Longrightarrow>
     link_follow M T Z (cmd vc) s s' (tk_link p) = Some lk \<Longrightarrow>
     joint_step M A Q T Z I drop_tx S dial vc (s, p) (s', p\<lparr>tk_link := lk\<rparr>)"

inductive_cases joint_step_cases: "joint_step M A Q T Z I drop_tx S dial vc sp sp'"

section \<open>The invariant\<close>

definition joint_laws ::
  "('c, nat conn_cmd) mpsc_ops \<Rightarrow> ('a, 'h accepted) mpsc_ops \<Rightarrow> 'k tcp_ops \<Rightarrow> ('z, 'h, 'k) set_ops \<Rightarrow>
   ('i, 'd, 'z) iface_ops \<Rightarrow> ('c \<Rightarrow> 'c) \<Rightarrow> ('s, 'e) stream_ops \<Rightarrow> ('k \<Rightarrow> 'k \<Rightarrow> bool) \<Rightarrow>
   ('c \<Rightarrow> nat conn_cmd list) \<Rightarrow> ('c \<Rightarrow> nat) \<Rightarrow> ('a \<Rightarrow> 'h accepted list) \<Rightarrow> ('a \<Rightarrow> nat) \<Rightarrow>
   ('k \<Rightarrow> bytes) \<Rightarrow> ('k \<Rightarrow> bytes) \<Rightarrow> ('s \<Rightarrow> bytes) \<Rightarrow> ('s \<Rightarrow> bytes) \<Rightarrow> bool" where
  "joint_laws M A T Z I drop_tx S N qm cm qa ca rxq txq sent rcvd \<longleftrightarrow>
     stack_laws M A T Z I qm cm qa ca \<and> closed_laws M \<and> sender_laws M drop_tx qm \<and> poll_laws I Z N \<and>
     task_laws M T N S qm cm rxq txq sent rcvd"

text \<open>
  While the actor has the connection, the relay's link is the actor's state of it, and its
  senders are gone only when the relay is over; it lets go of it only when it stops or the
  relay is over.
\<close>

definition attached ::
  "('c, nat conn_cmd) mpsc_ops \<Rightarrow> ('z, 'h, 'k) set_ops \<Rightarrow> 'h \<Rightarrow>
   ('i, 'd, 'z, 'h, 'c, nat, 'a, 'q) system \<Rightarrow> ('c, 'k, 's, 'e) relay_tasks \<Rightarrow> bool" where
  "attached M Z h s p \<longleftrightarrow>
     (case lk_conn (tk_link p) of
        None \<Rightarrow> phase s = Stopped \<or> (\<exists>r. tk_pc p = PipeDone r)
      | Some conn \<Rightarrow> phase s \<noteq> Stopped \<and> sees Z s h (tk_link p) \<and>
          (rx_closed M (cmd_rx conn) \<longrightarrow> (\<exists>r. tk_pc p = PipeDone r)))"

definition joint_inv ::
  "('c, nat conn_cmd) mpsc_ops \<Rightarrow> ('z, 'h, 'k) set_ops \<Rightarrow> ('c \<Rightarrow> nat conn_cmd list) \<Rightarrow> ('k \<Rightarrow> bytes) \<Rightarrow>
   ('s \<Rightarrow> bytes) \<Rightarrow> ('s \<Rightarrow> bytes) \<Rightarrow> (socket_addr \<Rightarrow> 'e connect_error + 's upstream) \<Rightarrow> 'h vconn \<Rightarrow> bytes \<Rightarrow>
   ('i, 'd, 'z, 'h, 'c, nat, 'a, 'q) system \<times> ('c, 'k, 's, 'e) relay_tasks \<Rightarrow> bool" where
  "joint_inv M Z queue txq sent rcvd dial vc tx0 sp \<longleftrightarrow> (case sp of (s, p) \<Rightarrow>
     actor_inv Z (actor s) \<and> tasks_inv queue txq sent rcvd dial vc [] tx0 p \<and> attached M Z (cmd vc) s p)"

lemma joint_lawsD:
  assumes "joint_laws M A T Z I drop_tx S N qm cm qa ca rxq txq sent rcvd"
  shows "stack_laws M A T Z I qm cm qa ca" "closed_laws M" "sender_laws M drop_tx qm" "poll_laws I Z N"
    "task_laws M T N S qm cm rxq txq sent rcvd" "mpsc_laws M qm cm" "tcp_laws T rxq txq" "net_laws N txq"
    "stream_laws S sent rcvd"
  using assms by (simp_all add: joint_laws_def task_laws_def)

section \<open>What a step of the relay does to its link\<close>

lemma begin_call_link:
  assumes "begin_call M mk lk = Some (res, lk')"
  shows "lk' = lk \<or> (\<exists>conn x c. lk_conn lk = Some conn \<and> try_send M x (cmd_rx conn) = (True, c) \<and>
    lk_conn lk' = Some (conn\<lparr>cmd_rx := c\<rparr>) \<and> lk_sock lk' = lk_sock lk)"
  using assms by (fastforce simp: begin_call_def split: option.splits prod.splits bool.splits)

lemma relay_step_link:
  assumes "relay_step M S dial vc p p'"
  shows "(\<nexists>r. tk_pc p = PipeDone r) \<and> (tk_link p' = tk_link p \<or>
    (\<exists>conn x c. lk_conn (tk_link p) = Some conn \<and> try_send M x (cmd_rx conn) = (True, c) \<and>
      lk_conn (tk_link p') = Some (conn\<lparr>cmd_rx := c\<rparr>) \<and> lk_sock (tk_link p') = lk_sock (tk_link p)))"
  using assms by cases (use begin_call_link in \<open>force+\<close>)

section \<open>Every step keeps the invariant\<close>

lemma with_conn_frame [simp]:
  "phase (with_conn h lk s) = phase s" "sockets (actor (with_conn h lk s)) = sockets (actor s)"
  "lk_conn lk = None \<Longrightarrow> with_conn h lk s = s"
  "conns (actor s) h = lk_conn lk \<Longrightarrow> with_conn h lk s = s"
  "lk_conn lk = Some conn \<Longrightarrow> conns (actor (with_conn h lk s)) h = Some conn"
  by (simp_all add: with_conn_def fun_upd_idem split: option.split)

lemma with_conn_inv:
  assumes "actor_inv Z (actor s)" and "lk_conn lk \<noteq> None \<Longrightarrow> conns (actor s) h \<noteq> None"
  shows "actor_inv Z (actor (with_conn h lk s))"
proof (rule actor_inv_frame [OF assms(1)])
  show "dom (conns (actor (with_conn h lk s))) = dom (conns (actor s))"
    using assms(2) by (auto simp: with_conn_def split: option.split)
qed (simp_all add: with_conn_def split: option.split)

lemma relay_moves_attached:
  assumes L: "sender_laws M drop_tx queue" and at: "attached M Z h s p" and step: "relay_step M S dial vc p p'"
  shows "attached M Z h (with_conn h (tk_link p') s) p'" and "lk_conn (tk_link p') \<noteq> None \<Longrightarrow> conns (actor s) h \<noteq> None"
proof -
  have running: "\<nexists>r. tk_pc p = PipeDone r" and
    link: "tk_link p' = tk_link p \<or> (\<exists>conn x c. lk_conn (tk_link p) = Some conn \<and> try_send M x (cmd_rx conn) = (True, c) \<and>
      lk_conn (tk_link p') = Some (conn\<lparr>cmd_rx := c\<rparr>) \<and> lk_sock (tk_link p') = lk_sock (tk_link p))"
    using relay_step_link [OF step] by blast+
  have closed: "rx_closed M c' = rx_closed M c" if "try_send M x c = (b, c')" for x c b c'
    using L that by (metis sender_laws_def snd_conv)
  show "attached M Z h (with_conn h (tk_link p') s) p'"
    using link at running closed by (auto simp: attached_def sees_def split: option.splits)
  show "lk_conn (tk_link p') \<noteq> None \<Longrightarrow> conns (actor s) h \<noteq> None"
    using link at by (auto simp: attached_def sees_def split: option.splits)
qed

lemma hang_up_tasks_inv:
  assumes L: "sender_laws M drop_tx queue" and inv: "tasks_inv queue txq sent rcvd dial vc rd0 tx0 p"
    and conn: "lk_conn (tk_link p) = Some conn"
  shows "tasks_inv queue txq sent rcvd dial vc rd0 tx0
    (p\<lparr>tk_link := (tk_link p)\<lparr>lk_conn := Some (conn\<lparr>cmd_rx := drop_tx (cmd_rx conn)\<rparr>)\<rparr>\<rparr>)"
proof (rule frame_inv [OF inv])
  let ?lk = "(tk_link p)\<lparr>lk_conn := Some (conn\<lparr>cmd_rx := drop_tx (cmd_rx conn)\<rparr>)\<rparr>"
  have "queue (drop_tx (cmd_rx conn)) = queue (cmd_rx conn)" using L by (simp add: sender_laws_def)
  then have "open_cmds queue (conn\<lparr>cmd_rx := drop_tx (cmd_rx conn)\<rparr>) = open_cmds queue conn" by (simp add: open_cmds_def)
  moreover have "replied ?lk = replied (tk_link p)" by (simp add: replied_def)
  ultimately show "link_inv queue (awaited p) ?lk" using inv conn by (simp add: tasks_inv_def link_inv_def)
qed simp_all

lemma stopped_stays: "system_step M A Q T Z I is_closed s s' \<Longrightarrow> phase s = Stopped \<Longrightarrow> phase s' = Stopped"
  by (auto elim: system_step.cases)

lemma others_keep_sockets: "system_step M A Q T Z I is_closed s s' \<Longrightarrow> phase s' = phase s \<Longrightarrow>
    sockets (actor s') = sockets (actor s)"
  by (auto elim!: system_step.cases)

lemma actor_moves_joint:
  assumes laws: "joint_laws M A T Z I drop_tx S N qm cm qa ca rxq txq sent rcvd"
    and inv: "joint_inv M Z qm txq sent rcvd dial vc tx0 (s, p)"
    and step: "system_step M A Q T Z I (\<lambda>_ _. False) s s'" "phase s' \<noteq> phase s"
  shows "\<exists>lk. link_follow M T Z (cmd vc) s s' (tk_link p) = Some lk \<and>
    tasks_inv qm txq sent rcvd dial vc [] tx0 (p\<lparr>tk_link := lk\<rparr>) \<and> attached M Z (cmd vc) s' (p\<lparr>tk_link := lk\<rparr>)"
proof (cases "lk_conn (tk_link p)")
  case None
  then have "link_follow M T Z (cmd vc) s s' (tk_link p) = Some (tk_link p)" by (simp add: link_follow_def)
  with None inv stopped_stays [OF step(1)] show ?thesis by (auto simp: joint_inv_def attached_def)
next
  case (Some conn)
  note L = joint_lawsD [OF laws]
  have at: "sees Z s (cmd vc) (tk_link p)" "phase s \<noteq> Stopped" "actor_inv Z (actor s)" "conns (actor s) (cmd vc) = Some conn"
    and ended: "rx_closed M (cmd_rx conn) \<Longrightarrow> \<exists>r. tk_pc p = PipeDone r"
    using inv Some by (auto simp: joint_inv_def attached_def sees_def)
  from link_follows [OF L(1,2,4) at(3,4,1,2) ended step] obtain lk where
    lk: "link_follow M T Z (cmd vc) s s' (tk_link p) = Some lk" "(actor_step M T N)\<^sup>=\<^sup>= p (p\<lparr>tk_link := lk\<rparr>)"
    "sees Z s' (cmd vc) lk"
    "case lk_conn lk of None \<Rightarrow> phase s' = Stopped \<or> rx_closed M (cmd_rx conn)
       | Some c \<Rightarrow> phase s' \<noteq> Stopped \<and> rx_closed M (cmd_rx c) = rx_closed M (cmd_rx conn)" by blast
  have "tasks_inv qm txq sent rcvd dial vc [] tx0 (p\<lparr>tk_link := lk\<rparr>)"
    using lk(2) inv actor_step_inv [OF L(6,7,8), of sent rcvd dial vc "[]" tx0 p] by (auto simp: joint_inv_def)
  moreover have "attached M Z (cmd vc) s' (p\<lparr>tk_link := lk\<rparr>)"
    using lk(3,4) ended by (auto simp: attached_def split: option.splits)
  ultimately show ?thesis using lk(1) by blast
qed

lemma joint_step_inv:
  assumes laws: "joint_laws M A T Z I drop_tx S N qm cm qa ca rxq txq sent rcvd"
    and inv: "joint_inv M Z qm txq sent rcvd dial vc tx0 sp"
    and step: "joint_step M A Q T Z I drop_tx S dial vc sp sp'"
  shows "joint_inv M Z qm txq sent rcvd dial vc tx0 sp'"
proof -
  note L = joint_lawsD [OF laws]
  have actor: "actor_inv Z (actor s')" if "actor_inv Z (actor s)" "system_step M A Q T Z I (\<lambda>_ _. False) s s'" for s s'
    using system_step_inv [OF L(1) _ that(2), of "[]"] that(1) by (simp add: system_inv_def)
  from step show ?thesis
  proof cases
    case (relay_moves s p p')
    with inv have "actor_inv Z (actor s)" "tasks_inv qm txq sent rcvd dial vc [] tx0 p" "attached M Z (cmd vc) s p"
      by (simp_all add: joint_inv_def)
    with relay_moves_attached [OF L(3) this(3) relay_moves(4)] relay_step_inv [OF L(6,9) this(2) relay_moves(4)] show ?thesis
      unfolding relay_moves(2) joint_inv_def by (auto intro: with_conn_inv)
  next
    case (hangs_up p r conn lk s)
    with inv have at: "actor_inv Z (actor s)" "tasks_inv qm txq sent rcvd dial vc [] tx0 p" "attached M Z (cmd vc) s p"
      by (simp_all add: joint_inv_def)
    have "attached M Z (cmd vc) (with_conn (cmd vc) lk s) (p\<lparr>tk_link := lk\<rparr>)" "conns (actor s) (cmd vc) \<noteq> None"
      using at(3) hangs_up(3-5) by (auto simp: attached_def sees_def)
    with at(1) hang_up_tasks_inv [OF L(3) at(2) hangs_up(4)] show ?thesis
      unfolding hangs_up(2) joint_inv_def by (auto intro: with_conn_inv simp: hangs_up(5))
  next
    case (upstream_moves p st st' s)
    with inv peer_inv [OF L(9) _ upstream_moves(3,4)] show ?thesis
      by (auto simp: joint_inv_def attached_def split: option.splits)
  next
    case (others_move s s' p)
    with inv actor show ?thesis
      by (auto simp: joint_inv_def attached_def sees_def others_keep_sockets [OF others_move(3,4)] split: option.splits)
  next
    case (actor_moves s s' p lk)
    with inv actor actor_moves_joint [OF laws _ actor_moves(3,4)] show ?thesis by (fastforce simp: joint_inv_def)
  qed
qed

lemma joint_progress:
  fixes s :: "('i, 'd, 'z, 'h, 'c, nat, 'a, 'q) system" and A :: "('a, 'h accepted) mpsc_ops" and Q :: "('q, unit) mpsc_ops"
    and I :: "('i, 'd, 'z) iface_ops"
  assumes laws: "joint_laws M A T Z I drop_tx S N qm cm qa ca rxq txq sent rcvd"
    and inv: "joint_inv M Z qm txq sent rcvd dial vc tx0 (s, p)" and run: "phase s \<noteq> Stopped"
  shows "\<exists>s' p'. joint_step M A Q T Z I drop_tx S dial vc (s, p) (s', p') \<and> phase s' = next_phase (phase s)"
proof -
  have "actor_inv Z (actor s)" using inv by (simp add: joint_inv_def)
  from system_progress [OF joint_lawsD(1) [OF laws] this run, of Q "\<lambda>_ _. False"] obtain s' where
    s': "system_step M A Q T Z I (\<lambda>_ _. False) s s'" "phase s' = next_phase (phase s)" by blast
  have "phase s' \<noteq> phase s" using run s'(2) by (cases "phase s") simp_all
  with actor_moves_joint [OF laws inv s'(1)] actor_moves [OF s'(1)] s'(2) show ?thesis by blast
qed

interpretation joint: live_system "joint_step M A Q T Z I drop_tx S dial vc"
    "\<lambda>sp. joint_laws M A T Z I drop_tx S N qm cm qa ca rxq txq sent rcvd \<and> joint_inv M Z qm txq sent rcvd dial vc tx0 sp"
    "\<lambda>sp. phase (fst sp) \<noteq> Stopped" "\<lambda>sp sp'. phase (fst sp') = next_phase (phase (fst sp))"
  for M A Q T Z I drop_tx S dial vc N qm cm qa ca rxq txq sent rcvd tx0
  by unfold_locales (elim conjE, intro conjI, assumption, erule (2) joint_step_inv, elim conjE,
    metis fst_conv joint_progress prod.exhaust)

section \<open>From accepting on\<close>

text \<open>
  The start of a joint run: an accepting phase of the actor has queued \<open>vc\<close> for the
  dispatcher, and \<open>k\<close> is the socket of its connection.
\<close>

definition accepts ::
  "('c, nat conn_cmd) mpsc_ops \<Rightarrow> ('a, 'h accepted) mpsc_ops \<Rightarrow> ('q, unit) mpsc_ops \<Rightarrow> 'k tcp_ops \<Rightarrow>
   ('z, 'h, 'k) set_ops \<Rightarrow> ('i, 'd, 'z) iface_ops \<Rightarrow> ('a \<Rightarrow> 'h accepted list) \<Rightarrow>
   ('i, 'd, 'z, 'h, 'c, nat, 'a, 'q) system \<Rightarrow> ('i, 'd, 'z, 'h, 'c, nat, 'a, 'q) system \<Rightarrow> 'h vconn \<Rightarrow> 'k \<Rightarrow> bool" where
  "accepts M A Q T Z I qa s0 s1 vc k \<longleftrightarrow>
     actor_inv Z (actor s0) \<and> phase s0 = Accepting \<and> phase s1 \<noteq> Accepting \<and>
     system_step M A Q T Z I (\<lambda>_ _. False) s0 s1 \<and>
     vc \<in> fst ` set (drop (length (qa (accepted_tx (actor s0)))) (qa (accepted_tx (actor s1)))) \<and>
     set_get Z (cmd vc) (sockets (actor s1)) = Some k"

lemma accepts_start:
  assumes laws: "joint_laws M A T Z I drop_tx S N qm cm qa ca rxq txq sent rcvd" and acc: "accepts M A Q T Z I qa s0 s1 vc k"
  shows "joint_inv M Z qm txq sent rcvd dial vc (txq k) (s1, tasks_start (link_new M k))"
    and "local_endpoint T k = Some (destination vc)" and "tcp_state T k = Established \<or> tcp_state T k = CloseWait"
proof -
  note L = joint_lawsD [OF laws]
  have Ls: "mpsc_laws A qa ca" "listen_laws T" "set_laws Z" using L(1) by (simp_all add: stack_laws_def)
  have inv: "actor_inv Z (actor s0)" and get: "set_get Z (cmd vc) (sockets (actor s1)) = Some k"
    and step: "system_step M A Q T Z I (\<lambda>_ _. False) s0 s1" "phase s0 = Accepting" "phase s1 \<noteq> Accepting"
    using acc by (simp_all add: accepts_def)
  from step obtain self where self: "try_accept M A T Z (actor s0) = Some self" "s1 = s0\<lparr>actor := self, phase := Servicing\<rparr>"
    by cases simp_all
  with try_accept_outcome [OF Ls(2,3,1) inv, of M] obtain new where
    inv1: "actor_inv Z self" and new: "qa (accepted_tx self) = qa (accepted_tx (actor s0)) @ vconns_of new"
    "conns self = conns (actor s0) ++ new_conns M new" "\<forall>hm \<in> set new. accepted_as T Z (sockets (actor s0)) hm"
    "\<forall>h \<in> dom (conns self). set_get Z h (sockets self) = set_get Z h (sockets (actor s0))" by auto
  from acc obtain h m where hm: "(h, m) \<in> set new" "vc = vconn_new m h" by (auto simp: accepts_def self(2) new(1) vconns_of_def)
  have vc: "cmd vc = h" "destination vc = dst m" using hm(2) by (simp_all add: vconn_new_def destination_def)
  have fresh: "conns self h = Some (conn_state_new (chan_new M 32))"
    using hm(1) by (force simp: new(2) map_add_def new_conns_def)
  then have "set_get Z h (sockets (actor s0)) = Some k" using new(4) get by (simp add: self(2) vc domI)
  with new(3) hm(1) show "local_endpoint T k = Some (destination vc)" "tcp_state T k = Established \<or> tcp_state T k = CloseWait"
    by (fastforce simp: accepted_as_def vc)+
  have "\<not> rx_closed M (chan_new M 32)" using L(3) by (simp add: sender_laws_def)
  with fresh get have "attached M Z (cmd vc) s1 (tasks_start (link_new M k))"
    by (simp add: attached_def sees_def tasks_start_def link_new_def self(2) vc conn_state_new_def)
  moreover have "tasks_inv qm txq sent rcvd dial vc [] (txq k) (tasks_start (link_new M k))"
    using link_new_inv [OF L(6), of k] by (simp add: tasks_inv_def tasks_start_def awaited_def) (simp add: link_new_def)
  ultimately show "joint_inv M Z qm txq sent rcvd dial vc (txq k) (s1, tasks_start (link_new M k))"
    using inv1 by (simp add: joint_inv_def self(2))
qed

lemma joint_reachable:
  assumes laws: "joint_laws M A T Z I drop_tx S N qm cm qa ca rxq txq sent rcvd" and acc: "accepts M A Q T Z I qa s0 s1 vc k"
    and run: "(joint_step M A Q T Z I drop_tx S dial vc)\<^sup>*\<^sup>* (s1, tasks_start (link_new M k)) (s, p)"
  shows "joint_inv M Z qm txq sent rcvd dial vc (txq k) (s, p)"
proof -
  have "joint_laws M A T Z I drop_tx S N qm cm qa ca rxq txq sent rcvd \<and>
      joint_inv M Z qm txq sent rcvd dial vc (txq k) (s1, tasks_start (link_new M k))"
    using laws accepts_start(1) [OF laws acc] by blast
  from joint.steps_inv [OF run this] show ?thesis by blast
qed

lemma held_while_running:
  assumes inv: "joint_inv M Z queue txq sent rcvd dial vc tx0 (s, p)" and run: "phase s \<noteq> Stopped" "\<nexists>r. tk_pc p = PipeDone r"
  shows "\<exists>conn. lk_conn (tk_link p) = Some conn \<and> conns (actor s) (cmd vc) = Some conn \<and> \<not> rx_closed M (cmd_rx conn) \<and>
    set_get Z (cmd vc) (sockets (actor s)) = Some (lk_sock (tk_link p))"
  using assms by (auto simp: joint_inv_def attached_def sees_def split: option.splits)

section \<open>Properties\<close>

text \<open>
  C2. From the moment a connection is accepted, in every run of the actor with all its other
  connections, the dispatcher, the network and the relay of that connection: the relay talks to
  a proxy about the address the client asked for, the bytes the actor has delivered are those
  written upstream, and the bytes received from upstream are those handed to the connection's
  socket in the actor's socket set, in order, each once, but for the chunk a direction holds, a
  reply it has not taken yet, or the tail lost to its error.
\<close>
theorem accepted_relay_copies:
  assumes "joint_laws M A T Z I drop_tx S N qm cm qa ca rxq txq sent rcvd" and "accepts M A Q T Z I qa s0 s1 vc k"
    and "(joint_step M A Q T Z I drop_tx S (connect D S px) vc)\<^sup>*\<^sup>* (s1, tasks_start (link_new M k)) (s, p)"
    and "tk_pc p = PipeCopy u d" and "phase s \<noteq> Stopped"
  shows "\<exists>up st ugot uput dgot dput k'. local_endpoint T k = Some (destination vc) \<and>
    connect D S px (destination vc) = Inr up \<and> tk_stream p = Some st \<and>
    up_copied u ugot uput \<and> sent st = sent (up_stream up) @ uput \<and>
      delivered (lk_replies (tk_link p)) = ugot @ unread (tk_up p) (tk_link p) \<and>
    down_copied d dgot dput \<and> rcvd st = rcvd (up_stream up) @ dgot \<and>
      set_get Z (cmd vc) (sockets (actor s)) = Some k' \<and> txq k' = txq k @ dput @ untold (write_call p) (tk_link p)"
proof -
  note inv = joint_reachable [OF assms(1-3)]
  have "set_get Z (cmd vc) (sockets (actor s)) = Some (lk_sock (tk_link p))"
    using held_while_running [OF inv assms(5)] assms(4) by auto
  with inv assms(4) accepts_start(2) [OF assms(1,2)] show ?thesis
    by (auto simp: joint_inv_def tasks_inv_def up_moved_def down_moved_def)
qed

text \<open>
  C3. When both directions of such a relay have ended without error, everything has been copied:
  the bytes the actor delivered are exactly those written upstream, and the bytes received from
  upstream exactly those handed to the connection's socket.
\<close>
theorem accepted_relay_complete:
  assumes "joint_laws M A T Z I drop_tx S N qm cm qa ca rxq txq sent rcvd" and "accepts M A Q T Z I qa s0 s1 vc k"
    and "(joint_step M A Q T Z I drop_tx S (connect D S px) vc)\<^sup>*\<^sup>* (s1, tasks_start (link_new M k)) (s, p)"
    and "tk_pc p = PipeClose (Inr ()) (Inr ())" and "phase s \<noteq> Stopped"
  shows "\<exists>up st out inp k'. connect D S px (destination vc) = Inr up \<and> tk_stream p = Some st \<and>
    delivered (lk_replies (tk_link p)) = out \<and> sent st = sent (up_stream up) @ out \<and>
    rcvd st = rcvd (up_stream up) @ inp \<and> set_get Z (cmd vc) (sockets (actor s)) = Some k' \<and> txq k' = txq k @ inp"
proof -
  note inv = joint_reachable [OF assms(1-3)]
  have "set_get Z (cmd vc) (sockets (actor s)) = Some (lk_sock (tk_link p))"
    using held_while_running [OF inv assms(5)] assms(4) by auto
  with inv assms(4) show ?thesis by (auto simp: joint_inv_def tasks_inv_def up_moved_def down_moved_def)
qed

text \<open>
  C5. The actor holds a connection as long as its relay needs it, and no longer: while the actor
  runs and the relay is not over, the connection is registered with its socket and not up for
  reaping; once the relay is over and has hung up, the next sweep removes both.
\<close>
theorem relay_holds_connection:
  assumes "joint_laws M A T Z I drop_tx S N qm cm qa ca rxq txq sent rcvd" and "accepts M A Q T Z I qa s0 s1 vc k"
    and "(joint_step M A Q T Z I drop_tx S dial vc)\<^sup>*\<^sup>* (s1, tasks_start (link_new M k)) (s, p)" and "phase s \<noteq> Stopped"
  shows "((\<nexists>r. tk_pc p = PipeDone r) \<longrightarrow> (\<exists>conn k'. conns (actor s) (cmd vc) = Some conn \<and>
      \<not> rx_closed M (cmd_rx conn) \<and> set_get Z (cmd vc) (sockets (actor s)) = Some k')) \<and>
    (\<forall>conn s'. lk_conn (tk_link p) = Some conn \<and> rx_closed M (cmd_rx conn) \<and> phase s = Servicing \<and>
      system_step M A Q T Z I (\<lambda>_ _. False) s s' \<and> phase s' \<noteq> phase s \<longrightarrow>
      conns (actor s') (cmd vc) = None \<and> set_get Z (cmd vc) (sockets (actor s')) = None)"
proof -
  note L = joint_lawsD [OF assms(1)]
  note inv = joint_reachable [OF assms(1-3)]
  have "set_laws Z" using L(1) by (simp add: stack_laws_def)
  have freed: "conns (actor s') (cmd vc) = None \<and> set_get Z (cmd vc) (sockets (actor s')) = None"
    if c: "lk_conn (tk_link p) = Some conn" "rx_closed M (cmd_rx conn)" "phase s = Servicing"
      and step: "system_step M A Q T Z I (\<lambda>_ _. False) s s'" "phase s' \<noteq> phase s" for conn s'
  proof -
    have at: "sees Z s (cmd vc) (tk_link p)" "actor_inv Z (actor s)" "conns (actor s) (cmd vc) = Some conn"
      and over: "\<exists>r. tk_pc p = PipeDone r"
      using inv c assms(4) by (auto simp: joint_inv_def attached_def sees_def)
    from step c(3) obtain order self log where sw: "distinct order" "set order = dom (conns (actor s))"
      "service_commands M T Z (\<lambda>_ _. False) order (actor s, replies s) = Some (self, log)"
      "s' = s\<lparr>actor := self, replies := log, phase := Egress\<rparr>" by cases auto
    from service_sees [OF L(6) \<open>set_laws Z\<close> L(2) at(2,3,1) assms(4) over sw, of N] c(2) show ?thesis
      by (auto simp: sees_def sw(4))
  qed
  then show ?thesis using held_while_running [OF inv assms(4)] by blast
qed

section \<open>Running the joint system\<close>

text \<open>
  While polls leave the sockets alone, a computed run of the tasks is a run of the joint system:
  a turn is one round of the actor's loop.
\<close>

lemma quiet_phase:
  assumes laws: "stack_laws M A T Z I qm cm qa ca" "poll_laws I Z (=)"
    and inv: "actor_inv Z (actor s)" and conn: "conns (actor s) h = Some conn"
    and at: "sees Z s h lk" "phase s \<noteq> Stopped" and ph: "phase s \<noteq> Servicing" "phase s' \<noteq> Stopped" "phase s' \<noteq> phase s"
    and step: "system_step M A Q T Z I (\<lambda>_ _. False) s s'"
  shows "link_follow M T Z h s s' lk = Some lk"
proof -
  have L: "mpsc_laws A qa ca" "listen_laws T" "set_laws Z" using laws(1) by (simp_all add: stack_laws_def)
  have lk: "lk_conn lk = Some conn" using at conn by (simp add: sees_def)
  from step have "sees Z s' h lk"
  proof cases
    case (step_poll t i d z)
    then show ?thesis using poll_sees [OF at, of s' "(=)"] laws(2) conn by (auto simp: poll_laws_def)
  next
    case (step_egress i d z)
    then show ?thesis using poll_sees [OF at, of s' "(=)"] laws(2) conn by (auto simp: poll_laws_def)
  next
    case (step_accept self)
    from accept_sees [OF L inv conn step_accept(3) at step_accept(1)] show ?thesis .
  qed (use ph at in \<open>simp_all add: sees_def\<close>)
  then have "set_get Z h (sockets (actor s')) = Some (lk_sock lk)" using lk ph(2) by (auto simp: sees_def)
  with lk ph show ?thesis by (simp add: link_follow_def)
qed

lemma phase_keeps_relays: "system_step M A Q T Z I is_closed s s' \<Longrightarrow> phase s' \<noteq> phase s \<Longrightarrow> relays s' = relays s"
  by (auto elim!: system_step.cases)

lemma idle_step:
  fixes s :: "('i, 'd, 'z, 'h, 'c, nat, 'a, 'q) system" and A :: "('a, 'h accepted) mpsc_ops" and Q :: "('q, unit) mpsc_ops"
    and I :: "('i, 'd, 'z) iface_ops"
  assumes laws: "joint_laws M A T Z I drop_tx S (=) qm cm qa ca rxq txq sent rcvd"
    and inv: "joint_inv M Z qm txq sent rcvd dial vc tx0 (s, p)" and conn: "lk_conn (tk_link p) = Some conn"
    and ph: "phase s \<noteq> Servicing"
  shows "\<exists>s'. joint_step M A Q T Z I drop_tx S dial vc (s, p) (s', p) \<and> phase s' = next_phase (phase s) \<and>
    relays s' = relays s \<and> joint_inv M Z qm txq sent rcvd dial vc tx0 (s', p)"
proof -
  note L = joint_lawsD [OF laws]
  have at: "sees Z s (cmd vc) (tk_link p)" "phase s \<noteq> Stopped" "actor_inv Z (actor s)" "conns (actor s) (cmd vc) = Some conn"
    using inv conn by (auto simp: joint_inv_def attached_def sees_def)
  from system_progress [OF L(1) at(3,2), of Q "\<lambda>_ _. False"] obtain s' where
    s': "system_step M A Q T Z I (\<lambda>_ _. False) s s'" "phase s' = next_phase (phase s)" by blast
  have "phase s' \<noteq> Stopped" "phase s' \<noteq> phase s" using at(2) s'(2) by (cases "phase s"; simp)+
  with quiet_phase [OF L(1,4) at(3,4,1,2) ph _ _ s'(1)] have "link_follow M T Z (cmd vc) s s' (tk_link p) = Some (tk_link p)" by blast
  from actor_moves [OF s'(1) \<open>phase s' \<noteq> phase s\<close> this] have "joint_step M A Q T Z I drop_tx S dial vc (s, p) (s', p)" by simp
  with joint_step_inv [OF laws inv this] s' phase_keeps_relays [OF s'(1) \<open>phase s' \<noteq> phase s\<close>] show ?thesis by blast
qed

lemma joint_turn:
  fixes s :: "('i, 'd, 'z, 'h, 'c, nat, 'a, 'q) system" and A :: "('a, 'h accepted) mpsc_ops" and Q :: "('q, unit) mpsc_ops"
    and I :: "('i, 'd, 'z) iface_ops"
  assumes laws: "joint_laws M A T Z I drop_tx S (=) qm cm qa ca rxq txq sent rcvd"
    and inv: "joint_inv M Z qm txq sent rcvd dial vc tx0 (s, p)" and ph: "phase s = Servicing"
    and conn: "lk_conn (tk_link p) = Some conn" "\<not> rx_closed M (cmd_rx conn)" and turn: "link_turn M T (tk_link p) = Some lk"
  shows "\<exists>s'. (joint_step M A Q T Z I drop_tx S dial vc)\<^sup>*\<^sup>* (s, p) (s', p\<lparr>tk_link := lk\<rparr>) \<and> phase s' = Servicing \<and> relays s' = relays s"
proof -
  let ?J = "joint_step M A Q T Z I drop_tx S dial vc"
  let ?inv = "\<lambda>s. joint_inv M Z qm txq sent rcvd dial vc tx0 (s, p\<lparr>tk_link := lk\<rparr>)"
  have "actor_inv Z (actor s)" using inv by (simp add: joint_inv_def)
  from system_progress [OF joint_lawsD(1) [OF laws] this, of Q "\<lambda>_ _. False"] ph obtain s1 where
    s1: "system_step M A Q T Z I (\<lambda>_ _. False) s s1" "phase s1 = Egress" by auto
  have "link_follow M T Z (cmd vc) s s1 (tk_link p) = Some lk" using ph conn turn by (simp add: link_follow_def)
  from actor_moves [OF s1(1) _ this] s1(2) ph have 1: "?J (s, p) (s1, p\<lparr>tk_link := lk\<rparr>)" by simp
  obtain c where "lk_conn lk = Some c" using turn conn(1) by (auto simp: link_turn_def)
  then have c: "lk_conn (tk_link (p\<lparr>tk_link := lk\<rparr>)) = Some c" by simp
  note idle = idle_step [OF laws _ c, of dial vc tx0 _ Q]
  from idle [OF joint_step_inv [OF laws inv 1]] s1(2) obtain s2 where
    2: "?J (s1, p\<lparr>tk_link := lk\<rparr>) (s2, p\<lparr>tk_link := lk\<rparr>)" "phase s2 = Waiting" "relays s2 = relays s1" "?inv s2" by auto
  from idle [OF 2(4)] 2(2) obtain s3 where
    3: "?J (s2, p\<lparr>tk_link := lk\<rparr>) (s3, p\<lparr>tk_link := lk\<rparr>)" "phase s3 = Polling" "relays s3 = relays s2" "?inv s3" by auto
  from idle [OF 3(4)] 3(2) obtain s4 where
    4: "?J (s3, p\<lparr>tk_link := lk\<rparr>) (s4, p\<lparr>tk_link := lk\<rparr>)" "phase s4 = Accepting" "relays s4 = relays s3" "?inv s4" by auto
  from idle [OF 4(4)] 4(2) obtain s5 where
    5: "?J (s4, p\<lparr>tk_link := lk\<rparr>) (s5, p\<lparr>tk_link := lk\<rparr>)" "phase s5 = Servicing" "relays s5 = relays s4" by auto
  have "relays s1 = relays s" using phase_keeps_relays [OF s1(1)] s1(2) ph by simp
  moreover have "?J\<^sup>*\<^sup>* (s, p) (s5, p\<lparr>tk_link := lk\<rparr>)"
    using 1 2(1) 3(1) 4(1) 5(1) by (meson converse_rtranclp_into_rtranclp r_into_rtranclp)
  ultimately show ?thesis using 2(3) 3(3) 4(3) 5(2,3) by auto
qed

definition in_service :: "('c, nat conn_cmd) mpsc_ops \<Rightarrow> 'h vconn \<Rightarrow>
   ('i, 'd, 'z, 'h, 'c, nat, 'a, 'q) system \<Rightarrow> ('c, 'k, 's, 'e) relay_tasks \<Rightarrow> bool" where
  "in_service M vc s p \<longleftrightarrow> phase s = Servicing \<and> vc \<in> fst ` set (relays s) \<and>
     (\<exists>conn. lk_conn (tk_link p) = Some conn \<and> \<not> rx_closed M (cmd_rx conn))"

lemma relay_step_in_service:
  assumes L: "sender_laws M drop_tx queue" and step: "relay_step M S dial vc p p'" and at: "in_service M vc s p"
  shows "joint_step M A Q T Z I drop_tx S dial vc (s, p) (with_conn (cmd vc) (tk_link p') s, p')"
    and "in_service M vc (with_conn (cmd vc) (tk_link p') s) p'"
proof -
  show "joint_step M A Q T Z I drop_tx S dial vc (s, p) (with_conn (cmd vc) (tk_link p') s, p')"
    using at by (intro relay_moves [OF _ step]) (simp add: in_service_def)
  have "rx_closed M c' = rx_closed M c" if "try_send M x c = (b, c')" for x c b c'
    using L that by (metis sender_laws_def snd_conv)
  with relay_step_link [OF step] at show "in_service M vc (with_conn (cmd vc) (tk_link p') s) p'"
    by (auto simp: in_service_def with_conn_def)
qed

lemma turn_in_service:
  assumes laws: "mpsc_laws M queue cap" "closed_laws M" and turn: "link_turn M T (tk_link p) = Some lk" and at: "in_service M vc s p"
    and s': "phase s' = Servicing" "relays s' = relays s"
  shows "in_service M vc s' (p\<lparr>tk_link := lk\<rparr>)"
proof -
  obtain conn c k log where conn: "lk_conn (tk_link p) = Some conn" "\<not> rx_closed M (cmd_rx conn)" "lk_conn lk = Some c"
    "service M T (\<lambda>_ _. False) (conn, lk_sock (tk_link p), lk_replies (tk_link p)) = Some (c, k, log)"
    using turn at by (auto simp: in_service_def link_turn_def)
  with service_closed [OF laws conn(4)] at s' show ?thesis by (simp add: in_service_def)
qed

lemma move_joint:
  fixes s :: "('i, 'd, 'z, 'h, 'c, nat, 'a, 'q) system" and A :: "('a, 'h accepted) mpsc_ops" and Q :: "('q, unit) mpsc_ops"
    and I :: "('i, 'd, 'z) iface_ops"
  assumes laws: "joint_laws M A T Z I drop_tx S (=) qm cm qa ca rxq txq sent rcvd"
    and inv: "joint_inv M Z qm txq sent rcvd dial vc tx0 (s, p)" and at: "in_service M vc s p"
    and m: "move M T S dial vc m p = Some p'" "m \<noteq> Stop"
  shows "\<exists>s'. (joint_step M A Q T Z I drop_tx S dial vc)\<^sup>*\<^sup>* (s, p) (s', p') \<and> in_service M vc s' p'"
proof (cases "m = Actor")
  case True
  with m(1) obtain lk where lk: "link_turn M T (tk_link p) = Some lk" "p' = p\<lparr>tk_link := lk\<rparr>" by (auto simp: move_def)
  obtain conn where conn: "lk_conn (tk_link p) = Some conn" "\<not> rx_closed M (cmd_rx conn)" "phase s = Servicing"
    using at by (auto simp: in_service_def)
  note L = joint_lawsD [OF laws]
  from joint_turn [OF laws inv conn(3,1,2) lk(1), of Q] lk(2) turn_in_service [OF L(6,2) lk(1) at] show ?thesis by blast
next
  case False
  with m have "relay_step M S dial vc p p'"
    by (cases m) (auto simp: move_def split: pipe_pc.splits intro: move_main_step move_up_step move_down_step)
  from relay_step_in_service [OF joint_lawsD(3) [OF laws] this at] show ?thesis by (blast intro: r_into_rtranclp)
qed

lemma moves_joint:
  fixes s :: "('i, 'd, 'z, 'h, 'c, nat, 'a, 'q) system" and A :: "('a, 'h accepted) mpsc_ops" and Q :: "('q, unit) mpsc_ops"
    and I :: "('i, 'd, 'z) iface_ops"
  assumes laws: "joint_laws M A T Z I drop_tx S (=) qm cm qa ca rxq txq sent rcvd"
  shows "moves M T S dial vc ms p = Some p' \<Longrightarrow> Stop \<notin> set ms \<Longrightarrow> joint_inv M Z qm txq sent rcvd dial vc tx0 (s, p) \<Longrightarrow>
    in_service M vc s p \<Longrightarrow> \<exists>s'. (joint_step M A Q T Z I drop_tx S dial vc)\<^sup>*\<^sup>* (s, p) (s', p') \<and> in_service M vc s' p'"
proof (induction ms arbitrary: s p)
  case (Cons m ms)
  then obtain p1 where p1: "move M T S dial vc m p = Some p1" "moves M T S dial vc ms p1 = Some p'"
    by (auto simp: bind_eq_Some_conv)
  from move_joint [OF laws Cons.prems(3,4) p1(1), of Q] Cons.prems(2) obtain s1 where
    s1: "(joint_step M A Q T Z I drop_tx S dial vc)\<^sup>*\<^sup>* (s, p) (s1, p1)" "in_service M vc s1 p1" by auto
  have "joint_laws M A T Z I drop_tx S (=) qm cm qa ca rxq txq sent rcvd \<and> joint_inv M Z qm txq sent rcvd dial vc tx0 (s, p)"
    using laws Cons.prems(3) ..
  from conjunct2 [OF joint.steps_inv [OF s1(1) this]] Cons.IH [OF p1(2) _ _ s1(2)] Cons.prems(2) s1(1) show ?case
    by (meson list.set_intros(2) rtranclp_trans)
qed auto

section \<open>Witnesses\<close>

text \<open>
  An actor with four listeners, the second of which a client has connected to; the client has
  sent four bytes and finished, the server has two bytes for it.
\<close>

definition demo_conn_meta :: conn_meta where
  "demo_conn_meta = \<lparr>src = src demo_meta, dst = demo_target\<rparr>"

definition demo_ends :: "sim_socket \<Rightarrow> sim_socket" where
  "demo_ends k = k\<lparr>sim_local := Some (dst demo_conn_meta), sim_remote := Some (src demo_conn_meta)\<rparr>"

definition demo_client :: sim_socket where
  "demo_client = demo_ends (demo_sock\<lparr>sim_state := CloseWait\<rparr>)"

definition demo_host :: demo_actor_type where
  "demo_host = \<lparr>iface = (), phy_dev = demo_phy,
     sockets = \<lparr>sim_next = 4, sim_socks = [0 \<mapsto> demo_listen, 1 \<mapsto> demo_client, 2 \<mapsto> demo_listen, 3 \<mapsto> demo_listen]\<rparr>,
     conns = Map.empty, listeners = [0, 1, 2, 3], accepted_tx = chan_new buf_mpsc 64, stop_rx = chan_new buf_mpsc 1\<rparr>"

definition demo_relay :: "nat vconn" where
  "demo_relay = vconn_new demo_conn_meta 1"

definition demo_hosted :: demo_actor_type where
  "demo_hosted = demo_host\<lparr>
     sockets := \<lparr>sim_next = 5, sim_socks = (\<lambda>h. if h < 4 then sim_socks (sockets demo_host) h else None)(4 \<mapsto> demo_listen)\<rparr>,
     conns := [1 \<mapsto> demo_conn []], listeners := [0, 4, 2, 3],
     accepted_tx := \<lparr>bc_queue = [(demo_relay, demo_conn_meta)], bc_cap = 64, bc_closed = False\<rparr>\<rparr>"

type_synonym demo_system =
  "(unit, packet buf_chan, sim_socket sim_set, nat, nat conn_cmd buf_chan, nat, nat accepted buf_chan, unit buf_chan) system"

definition demo_before :: demo_system where
  "demo_before = (system_start demo_host)\<lparr>phase := Accepting\<rparr>"

definition demo_after :: demo_system where
  "demo_after = demo_before\<lparr>actor := demo_hosted, phase := Servicing\<rparr>"

definition demo_started :: demo_system where
  "demo_started = demo_after\<lparr>actor := demo_hosted\<lparr>accepted_tx := chan_new buf_mpsc 64\<rparr>, relays := [(demo_relay, demo_conn_meta)]\<rparr>"

lemma demo_joint_laws: "joint_laws buf_mpsc buf_mpsc sim_tcp sim_sets sim_iface demo_drop_tx script_stream (=)
    bc_queue bc_cap bc_queue bc_cap sim_rx sim_tx written was_read"
  by (simp add: joint_laws_def sim_stack_laws buf_closed_laws task_laws_def buf_mpsc_laws sim_tcp_laws script_stream_laws
      net_laws_def buf_sender_laws) (simp add: poll_laws_def sim_iface_def)

lemma demo_host_inv: "actor_inv sim_sets demo_host"
  by (auto simp: actor_inv_def sockets_split_def demo_host_def handles_def sim_sets_def LISTENER_POOL_SIZE_def
      split: if_splits)

lemma demo_host_accepts: "try_accept buf_mpsc buf_mpsc sim_tcp sim_sets demo_host = Some demo_hosted"
  by (simp add: try_accept_def try_accept_slot_def demo_host_def demo_hosted_def demo_listen_def demo_client_def demo_ends_def
      demo_sock_def demo_conn_meta_def demo_relay_def demo_conn_def conn_state_new_def sim_sets_def sim_tcp_def buf_mpsc_def Let_def
      add_wildcard_listener_def new_tcp_socket_def TCP_TX_BUF_def cong: if_cong)

lemma demo_accepts: "accepts buf_mpsc buf_mpsc buf_mpsc sim_tcp sim_sets sim_iface bc_queue demo_before demo_after demo_relay demo_client"
proof -
  have "system_step buf_mpsc buf_mpsc buf_mpsc sim_tcp sim_sets sim_iface (\<lambda>_ _. False) demo_before demo_after"
    unfolding demo_after_def by (rule step_accept) (simp_all add: demo_before_def system_start_def demo_host_accepts)
  moreover have "actor_inv sim_sets (actor demo_before)" by (simp add: demo_before_def system_start_def demo_host_inv)
  ultimately show ?thesis
    by (simp add: accepts_def)
      (simp add: demo_after_def demo_before_def system_start_def demo_hosted_def demo_host_def demo_relay_def buf_mpsc_def vconn_new_def sim_sets_def)
qed

abbreviation demo_joint where
  "demo_joint \<equiv> joint_step buf_mpsc buf_mpsc buf_mpsc sim_tcp sim_sets sim_iface demo_drop_tx script_stream demo_dialer demo_relay"

lemma demo_dispatched_step: "demo_joint (demo_after, tasks_start (link_new buf_mpsc demo_client)) (demo_started, tasks_start (link_new buf_mpsc demo_client))"
proof (rule others_move)
  have "try_recv buf_mpsc (accepted_tx (actor demo_after)) = (Some (demo_relay, demo_conn_meta), chan_new buf_mpsc 64)"
    by (simp add: demo_after_def demo_hosted_def buf_mpsc_def)
  from step_dispatch [OF this] show "system_step buf_mpsc buf_mpsc buf_mpsc sim_tcp sim_sets sim_iface (\<lambda>_ _. False) demo_after demo_started"
    by (simp add: demo_started_def demo_after_def demo_before_def system_start_def)
qed (simp_all add: demo_started_def demo_after_def)

lemma demo_in_service: "in_service buf_mpsc demo_relay demo_started (tasks_start (link_new buf_mpsc demo_client))"
  by (simp add: in_service_def demo_started_def demo_after_def tasks_start_def link_new_def conn_state_new_def buf_mpsc_def)

lemma demo_joint_run:
  assumes "moves buf_mpsc sim_tcp script_stream demo_dialer demo_relay ms (tasks_start (link_new buf_mpsc demo_client)) = Some p"
    and "Stop \<notin> set ms"
  obtains s where "demo_joint\<^sup>*\<^sup>* (demo_after, tasks_start (link_new buf_mpsc demo_client)) (s, p)" "in_service buf_mpsc demo_relay s p"
proof -
  note start = r_into_rtranclp [of demo_joint, OF demo_dispatched_step]
  from moves_joint [OF demo_joint_laws assms joint_reachable [OF demo_joint_laws demo_accepts start] demo_in_service, of buf_mpsc]
    start show thesis using that by (meson rtranclp_trans)
qed

lemma demo_relay_dialled: "demo_dialer (destination demo_relay) = Inr \<lparr>up_stream = demo_up,
      up_local_addr = \<lparr>sa_ip = V4 0xCB007107, sa_port = 0\<rparr>\<rparr>"
  using demo_connect_run by (simp add: destination_def demo_relay_def vconn_new_def demo_conn_meta_def demo_up_def)

definition demo_ended :: "('c, sim_socket, 's, 'e) relay_tasks \<Rightarrow> ('c, sim_socket, 's, 'e) relay_tasks" where
  "demo_ended p = p\<lparr>tk_link := (tk_link p)\<lparr>lk_sock := demo_ends (lk_sock (tk_link p))\<rparr>\<rparr>"

lemma demo_joint_both:
  "moves buf_mpsc sim_tcp script_stream demo_dialer demo_relay [Main, Up, Down, Down, Actor]
     (tasks_start (link_new buf_mpsc demo_client)) = Some (demo_ended demo_both)"
  by (simp add: task_eval demo_relay_dialled tasks_start_def link_new_def demo_both_def demo_up_def demo_ended_def demo_client_def demo_ends_def)

lemma moves_append: "moves M T S dial vc (ms @ ms') p = Option.bind (moves M T S dial vc ms p) (moves M T S dial vc ms')"
proof (induction ms arbitrary: p)
  case (Cons m ms)
  then show ?case by (cases "move M T S dial vc m p") simp_all
qed simp

lemma demo_joint_joined:
  "moves buf_mpsc sim_tcp script_stream demo_dialer demo_relay [Up, Down, Up, Up, Down, Down, Down, Actor, Up, Down, Up, Main]
     (demo_ended demo_both) = Some (demo_ended demo_joined)"
  by (simp add: task_eval demo_both_def demo_joined_def demo_up_end_def demo_up_def demo_ended_def demo_ends_def)

lemma demo_joint_over:
  "\<exists>p. moves buf_mpsc sim_tcp script_stream demo_dialer demo_relay [Main, Actor, Main] (demo_ended demo_joined) = Some p \<and>
     tk_pc p = PipeDone (Inr ())"
  by (simp add: task_eval demo_joined_def demo_ended_def demo_ends_def)

lemma moves_then:
  "moves M T S dial vc ms p = Some p1 \<Longrightarrow> moves M T S dial vc ms' p1 = Some p' \<Longrightarrow> moves M T S dial vc (ms @ ms') p = Some p'"
  by (simp add: moves_append)

lemmas demo_joint_joined_run = moves_then [OF demo_joint_both demo_joint_joined]

theorem accepted_relay_copies_witness:
  "\<exists>s k' uput dput. demo_joint\<^sup>*\<^sup>* (demo_after, tasks_start (link_new buf_mpsc demo_client)) (s, demo_ended demo_both) \<and>
     [112, 105, 110, 103] = uput @ unread (tk_up demo_both) (tk_link (demo_ended demo_both)) \<and>
     set_get sim_sets 1 (sockets (actor s)) = Some k' \<and>
     sim_tx k' = dput @ untold (write_call (demo_ended demo_both)) (tk_link (demo_ended demo_both))"
proof -
  obtain s where s: "demo_joint\<^sup>*\<^sup>* (demo_after, tasks_start (link_new buf_mpsc demo_client)) (s, demo_ended demo_both)"
    "in_service buf_mpsc demo_relay s (demo_ended demo_both)" by (rule demo_joint_run [OF demo_joint_both]) simp
  then have "phase s \<noteq> Stopped" "tk_pc (demo_ended demo_both) = PipeCopy UpRead (DownWrite [104, 105] 0)" "cmd demo_relay = 1"
    "sim_tx demo_client = []" "tk_up (demo_ended demo_both) = tk_up demo_both" "delivered (lk_replies (tk_link (demo_ended demo_both))) = [112, 105, 110, 103]"
    by (simp_all add: in_service_def demo_ended_def demo_both_def demo_relay_def vconn_new_def demo_client_def demo_ends_def demo_sock_def)
  with accepted_relay_copies [OF demo_joint_laws demo_accepts s(1) this(2,1)] s(1) show ?thesis by auto
qed

theorem accepted_relay_complete_witness:
  "\<exists>s k' up inp. demo_joint\<^sup>*\<^sup>* (demo_after, tasks_start (link_new buf_mpsc demo_client)) (s, demo_ended demo_joined) \<and>
     demo_dialer (destination demo_relay) = Inr up \<and> written demo_up_end = written (up_stream up) @ [112, 105, 110, 103] \<and>
     was_read demo_up_end = was_read (up_stream up) @ inp \<and> set_get sim_sets 1 (sockets (actor s)) = Some k' \<and> sim_tx k' = inp"
proof -
  obtain s where s: "demo_joint\<^sup>*\<^sup>* (demo_after, tasks_start (link_new buf_mpsc demo_client)) (s, demo_ended demo_joined)"
    "in_service buf_mpsc demo_relay s (demo_ended demo_joined)" by (rule demo_joint_run [OF demo_joint_joined_run]) simp
  then have "phase s \<noteq> Stopped" "tk_pc (demo_ended demo_joined) = PipeClose (Inr ()) (Inr ())" "cmd demo_relay = 1"
    "sim_tx demo_client = []" "tk_stream (demo_ended demo_joined) = Some demo_up_end"
    "delivered (lk_replies (tk_link (demo_ended demo_joined))) = [112, 105, 110, 103]"
    by (simp_all add: in_service_def demo_ended_def demo_joined_def demo_relay_def vconn_new_def demo_client_def demo_ends_def demo_sock_def)
  with accepted_relay_complete [OF demo_joint_laws demo_accepts s(1) this(2,1)] s(1) show ?thesis by auto
qed

text \<open>The relay ends and hangs up, and the sweep that follows frees its socket.\<close>

theorem relay_holds_connection_witness:
  "\<exists>s p s'. demo_joint\<^sup>*\<^sup>* (demo_after, tasks_start (link_new buf_mpsc demo_client)) (s, p) \<and> tk_pc p = PipeDone (Inr ()) \<and>
     system_step buf_mpsc buf_mpsc buf_mpsc sim_tcp sim_sets sim_iface (\<lambda>_ _. False) s s' \<and>
     conns (actor s') 1 = None \<and> set_get sim_sets 1 (sockets (actor s')) = None"
proof -
  obtain p where p: "moves buf_mpsc sim_tcp script_stream demo_dialer demo_relay [Main, Actor, Main] (demo_ended demo_joined) = Some p"
    "tk_pc p = PipeDone (Inr ())" using demo_joint_over by blast
  obtain s where s: "demo_joint\<^sup>*\<^sup>* (demo_after, tasks_start (link_new buf_mpsc demo_client)) (s, p)" "in_service buf_mpsc demo_relay s p"
    by (rule demo_joint_run [OF moves_then [OF demo_joint_joined_run p(1)]]) simp
  then obtain conn where conn: "lk_conn (tk_link p) = Some conn" "phase s = Servicing" by (auto simp: in_service_def)
  let ?lk = "(tk_link p)\<lparr>lk_conn := Some (conn\<lparr>cmd_rx := demo_drop_tx (cmd_rx conn)\<rparr>)\<rparr>"
  let ?s = "with_conn (cmd demo_relay) ?lk s" and ?p = "p\<lparr>tk_link := ?lk\<rparr>"
  have run: "demo_joint\<^sup>*\<^sup>* (demo_after, tasks_start (link_new buf_mpsc demo_client)) (?s, ?p)"
    using s(1) hangs_up [OF p(2) conn(1) refl] by (rule rtranclp.rtrancl_into_rtrancl)
  have ph: "phase ?s \<noteq> Stopped" "phase ?s = Servicing" using conn(2) by simp_all
  have closed: "lk_conn (tk_link ?p) = Some (conn\<lparr>cmd_rx := demo_drop_tx (cmd_rx conn)\<rparr>)"
    "rx_closed buf_mpsc (cmd_rx (conn\<lparr>cmd_rx := demo_drop_tx (cmd_rx conn)\<rparr>))" by (simp_all add: buf_mpsc_def)
  have "actor_inv sim_sets (actor ?s)" using joint_reachable [OF demo_joint_laws demo_accepts run] by (simp add: joint_inv_def)
  from system_progress [OF sim_stack_laws this ph(1), of buf_mpsc "\<lambda>_ _. False"] ph(2) obtain s' where
    s': "system_step buf_mpsc buf_mpsc buf_mpsc sim_tcp sim_sets sim_iface (\<lambda>_ _. False) ?s s'" "phase s' \<noteq> phase ?s" by auto
  from relay_holds_connection [OF demo_joint_laws demo_accepts run ph(1)] closed ph(2) s'
  have "conns (actor s') (cmd demo_relay) = None \<and> set_get sim_sets (cmd demo_relay) (sockets (actor s')) = None" by blast
  moreover have "cmd demo_relay = 1" "tk_pc ?p = PipeDone (Inr ())" using p(2) by (simp_all add: demo_relay_def vconn_new_def)
  ultimately show ?thesis using run s'(1) by metis
qed

end
