(* ===== verification/Runtime.thy ===== *)
theory Runtime
  imports Proxy_Url Netstack_Actor
begin

text \<open>
  Orchestration, \<open>src/runtime.rs\<close>: \<open>Runtime::start\<close> and \<open>shutdown\<close>, the TUN pump,
  the device name and \<open>open_tun\<close>. The \<open>tun\<close> crate's device is a parameter: its
  constructor, and its asynchronous reads and writes as \<open>stream_ops\<close>. Starting a task is
  recorded in what \<open>start\<close> returns.
\<close>

section \<open>The TUN device\<close>

datatype 'e tun_error = InvalidUtunName string | CreateTun 'e

record tun_config =
  tun_up :: bool
  tun_mtu :: u16
  tun_name :: "string option"

text \<open>\<open>apple\<close> is \<open>cfg(target_vendor = "apple")\<close>.\<close>

definition parse_tun_name :: "bool \<Rightarrow> string \<Rightarrow> 'e tun_error + string option" where
  "parse_tun_name apple spec =
     (let name = (case strip_prefix ''tun://'' spec of
                    Some n \<Rightarrow> n
                  | None \<Rightarrow> (case strip_prefix ''utun://'' spec of Some n \<Rightarrow> n | None \<Rightarrow> spec))
      in if name = [] then Inr None
         else if apple \<and> (\<not> prefix ''utun'' name \<or> isl (parse_u32 (drop 4 name)))
         then Inl (InvalidUtunName name)
         else Inr (Some name))"

definition open_tun :: "bool \<Rightarrow> (tun_config \<Rightarrow> 'e + 'd) \<Rightarrow> string \<Rightarrow> nat \<Rightarrow> 'e tun_error + 'd" where
  "open_tun apple create_as_async spec m =
     rbind (parse_tun_name apple spec) (\<lambda>name.
       let cfg = \<lparr>tun_up = True, tun_mtu = word_of_nat m, tun_name = name\<rparr>
       in map_err CreateTun (create_as_async cfg))"

section \<open>The pump\<close>

record ('d, 'c) pump =
  dev :: 'd
  pump_inbound :: 'c
  pump_outbound :: 'c

text \<open>
  The branch \<open>select!\<close> takes: a read of the device, or a packet from the stack. A branch
  whose future is not ready is not taken, and then the pump is left as it is. The result says
  whether the loop goes on.
\<close>

datatype pump_event = DevRead | OutboundRecv

definition PUMP_BUF :: nat where "PUMP_BUF = 65535"

definition pump_turn ::
  "('d, 'e) stream_ops \<Rightarrow> ('c, packet) mpsc_ops \<Rightarrow> pump_event \<Rightarrow> ('d, 'c) pump \<Rightarrow> bool \<times> ('d, 'c) pump" where
  "pump_turn S M ev p =
     (case ev of
        DevRead \<Rightarrow> (case read_some S PUMP_BUF (dev p) of
            (Inr pkt, d) \<Rightarrow>
              (case try_send M pkt (pump_inbound p) of (_, c) \<Rightarrow> (True, p\<lparr>dev := d, pump_inbound := c\<rparr>))
          | (Inl e, d) \<Rightarrow> (False, p\<lparr>dev := d\<rparr>))
      | OutboundRecv \<Rightarrow> (case try_recv M (pump_outbound p) of
            (Some pkt, c) \<Rightarrow>
              (case write_all S pkt (dev p) of (_, d) \<Rightarrow> (True, p\<lparr>dev := d, pump_outbound := c\<rparr>))
          | (None, c) \<Rightarrow> (\<not> rx_closed M c, p\<lparr>pump_outbound := c\<rparr>)))"

fun pump_loop ::
  "('d, 'e) stream_ops \<Rightarrow> ('c, packet) mpsc_ops \<Rightarrow> pump_event list \<Rightarrow> ('d, 'c) pump \<Rightarrow> bool \<times> ('d, 'c) pump" where
  "pump_loop S M [] p = (True, p)"
| "pump_loop S M (ev # evs) p =
     (case pump_turn S M ev p of (go, p) \<Rightarrow> if go then pump_loop S M evs p else (False, p))"

definition tun_pump ::
  "bool \<Rightarrow> (tun_config \<Rightarrow> 'e + 'd) \<Rightarrow> ('d, 'e) stream_ops \<Rightarrow> ('c, packet) mpsc_ops \<Rightarrow>
   pump_event list \<Rightarrow> string \<Rightarrow> nat \<Rightarrow> 'c device_handles \<Rightarrow> (bool \<times> ('d, 'c) pump) option" where
  "tun_pump apple create_as_async S M evs spec m hs =
     (case open_tun apple create_as_async spec m of
        Inl _ \<Rightarrow> None
      | Inr d \<Rightarrow> Some (pump_loop S M evs \<lparr>dev = d, pump_inbound = inbound hs, pump_outbound = outbound hs\<rparr>))"

section \<open>Start and shutdown\<close>

datatype start_error = EmptyDevice | EmptyProxy | ParseProxyUrl proxy_url_error

record 's runtime =
  rt_handle :: "'s netstack_handle"

text \<open>
  What the program consists of once it is started: the actor's task, the dialer the
  dispatcher's relays use, and the pump's arguments.
\<close>

record ('i, 'd, 'z, 'h, 'c, 'r, 'a, 's) tasks =
  task_actor :: "('i, 'd, 'z, 'h, 'c, 'r, 'a, 's) netstack_actor"
  task_proxy :: socks5_proxy
  task_pump :: "string \<times> nat \<times> 'd device_handles"

definition start ::
  "('d, packet) mpsc_ops \<Rightarrow> ('a, 'h accepted) mpsc_ops \<Rightarrow> ('s, unit) mpsc_ops \<Rightarrow> 'k tcp_ops \<Rightarrow>
   ('z, 'h, 'k) set_ops \<Rightarrow> ('i, 'd, 'z) iface_ops \<Rightarrow> instant \<Rightarrow> config \<Rightarrow>
   (start_error + 's runtime \<times> ('i, 'd, 'z, 'h, 'c, 'r, 'a, 's) tasks) option" where
  "start P A S T Z I t cfg =
     (if device cfg = [] then Some (Inl EmptyDevice)
      else if proxy cfg = [] then Some (Inl EmptyProxy)
      else
        let m = resolve_mtu cfg in
        (case parse (proxy cfg) of
           Inl e \<Rightarrow> Some (Inl (ParseProxyUrl e))
         | Inr url \<Rightarrow>
             let s5 = into_proxy url;
                 (p, hs) = phy_new P m;
                 i = build_interface I t p
             in map_option (\<lambda>(actor, hdl).
                    Inr (\<lparr>rt_handle = hdl\<rparr>,
                      \<lparr>task_actor = actor, task_proxy = s5, task_pump = (device cfg, m, hs)\<rparr>))
                  (spawn A S T Z i p)))"

text \<open>
  \<open>NetstackHandle::stop\<close> on the actor's stop channel. The handle in the runtime is the
  channel's only sender and sends only here, so there is room and the send does not have to
  wait. Dropping the runtime drops that sender: \<open>drop_tx\<close> is the channel without it.
  \<open>shutdown\<close> consumes the runtime; it does not wait for the actor.
\<close>

definition stop ::
  "('s, unit) mpsc_ops \<Rightarrow> ('i, 'd, 'z, 'h, 'c, 'r, 'a, 's) system \<Rightarrow> ('i, 'd, 'z, 'h, 'c, 'r, 'a, 's) system" where
  "stop S s = (case try_send S () (stop_rx (actor s)) of (_, st) \<Rightarrow> s\<lparr>actor := (actor s)\<lparr>stop_rx := st\<rparr>\<rparr>)"

definition drop_runtime ::
  "('s \<Rightarrow> 's) \<Rightarrow> ('i, 'd, 'z, 'h, 'c, 'r, 'a, 's) system \<Rightarrow> ('i, 'd, 'z, 'h, 'c, 'r, 'a, 's) system" where
  "drop_runtime drop_tx s = s\<lparr>actor := (actor s)\<lparr>stop_rx := drop_tx (stop_rx (actor s))\<rparr>\<rparr>"

definition shutdown ::
  "('s, unit) mpsc_ops \<Rightarrow> ('s \<Rightarrow> 's) \<Rightarrow> ('i, 'd, 'z, 'h, 'c, 'r, 'a, 's) system \<Rightarrow>
   ('i, 'd, 'z, 'h, 'c, 'r, 'a, 's) system" where
  "shutdown S drop_tx s = drop_runtime drop_tx (stop S s)"

section \<open>Device names\<close>

text \<open>The name a device specification asks for.\<close>

definition spec_name :: "string \<Rightarrow> string" where
  "spec_name spec =
     (if prefix ''tun://'' spec then drop (length ''tun://'') spec
      else if prefix ''utun://'' spec then drop (length ''utun://'') spec else spec)"

lemma parse_tun_name_eq:
  "parse_tun_name apple spec =
     (if spec_name spec = [] then Inr None
      else if apple \<and> (\<not> prefix ''utun'' (spec_name spec) \<or> isl (parse_u32 (drop 4 (spec_name spec))))
      then Inl (InvalidUtunName (spec_name spec))
      else Inr (Some (spec_name spec)))"
proof -
  have "(case strip_prefix ''tun://'' spec of
        Some n \<Rightarrow> n
      | None \<Rightarrow> (case strip_prefix ''utun://'' spec of Some n \<Rightarrow> n | None \<Rightarrow> spec)) = spec_name spec"
    by (simp add: spec_name_def strip_prefix_def)
  then show ?thesis unfolding parse_tun_name_def Let_def by simp blast
qed

text \<open>
  C38. A device is opened with the name its specification asks for, or with none when that is
  empty, and with exactly the effective MTU, which the cast to 16 bits does not change; on
  Apple a name that is given is \<open>utun\<close> followed by a decimal number below \<open>2 ^ 32\<close>.
\<close>
theorem open_tun_config:
  assumes "open_tun apple create_as_async spec (resolve_mtu cfg) = Inr d"
  shows "\<exists>name. create_as_async \<lparr>tun_up = True, tun_mtu = word_of_nat (resolve_mtu cfg), tun_name = name\<rparr> = Inr d \<and>
    unat (word_of_nat (resolve_mtu cfg) :: u16) = resolve_mtu cfg \<and>
    name = (if spec_name spec = [] then None else Some (spec_name spec)) \<and>
    (apple \<longrightarrow> spec_name spec \<noteq> [] \<longrightarrow>
       (\<exists>num ds. spec_name spec = ''utun'' @ num \<and> (num = ds \<or> num = CHR ''+'' # ds) \<and>
          is_decimal ds \<and> dec_value 0 ds < 2 ^ 32))"
proof -
  from assms obtain name where name: "parse_tun_name apple spec = (Inr name :: 'a tun_error + string option)"
    and d: "create_as_async \<lparr>tun_up = True, tun_mtu = word_of_nat (resolve_mtu cfg), tun_name = name\<rparr> = Inr d"
    by (auto simp: open_tun_def Let_def)
  have eq: "name = (if spec_name spec = [] then None else Some (spec_name spec))"
    using name by (auto simp: parse_tun_name_eq split: if_splits)
  have "\<exists>num ds. spec_name spec = ''utun'' @ num \<and> (num = ds \<or> num = CHR ''+'' # ds) \<and>
      is_decimal ds \<and> dec_value 0 ds < 2 ^ 32" if apple "spec_name spec \<noteq> []"
  proof -
    from name that have p: "prefix ''utun'' (spec_name spec)" and ok: "\<not> isl (parse_u32 (drop 4 (spec_name spec)))"
      by (auto simp: parse_tun_name_eq split: if_splits)
    from p obtain num where num: "spec_name spec = ''utun'' @ num" by (auto simp: prefix_def)
    with ok obtain n where "parse_uint (2 ^ 32 - 1) num = Inr n"
      by (cases "parse_uint (2 ^ 32 - 1) num") (auto simp: parse_u32_def)
    with num show ?thesis by (auto simp: parse_uint_Ok)
  qed
  moreover have "unat (word_of_nat (resolve_mtu cfg) :: u16) = resolve_mtu cfg"
    using resolve_mtu_bounds [of cfg] by (simp add: unat_of_nat)
  ultimately show ?thesis using d eq by blast
qed

section \<open>The device\<close>

text \<open>
  The device moves whole packets: a read returns the next packet, cut to the buffer, and a
  write hands over one packet or fails without handing over any. \<open>taken\<close> and
  \<open>given\<close> observe the packets read from it and written to it, \<open>failed\<close> counts the
  writes that failed.
\<close>

definition tun_laws ::
  "('d, 'e) stream_ops \<Rightarrow> ('d \<Rightarrow> packet list) \<Rightarrow> ('d \<Rightarrow> packet list) \<Rightarrow> ('d \<Rightarrow> nat) \<Rightarrow> bool" where
  "tun_laws S taken given failed \<longleftrightarrow>
     (\<forall>n d pkt d'. read_some S n d = (Inr pkt, d') \<longrightarrow>
        length pkt \<le> n \<and> taken d' = taken d @ [pkt] \<and> given d' = given d \<and> failed d' = failed d) \<and>
     (\<forall>n d e d'. read_some S n d = (Inl e, d') \<longrightarrow> taken d' = taken d \<and> given d' = given d \<and> failed d' = failed d) \<and>
     (\<forall>pkt d u d'. write_all S pkt d = (Inr u, d') \<longrightarrow>
        given d' = given d @ [pkt] \<and> taken d' = taken d \<and> failed d' = failed d) \<and>
     (\<forall>pkt d e d'. write_all S pkt d = (Inl e, d') \<longrightarrow>
        given d' = given d \<and> taken d' = taken d \<and> failed d' = Suc (failed d))"

lemma tun_read:
  "tun_laws S taken given failed \<Longrightarrow> read_some S n d = (Inr pkt, d') \<Longrightarrow>
     length pkt \<le> n \<and> taken d' = taken d @ [pkt] \<and> given d' = given d \<and> failed d' = failed d"
  "tun_laws S taken given failed \<Longrightarrow> read_some S n d = (Inl e, d') \<Longrightarrow>
     taken d' = taken d \<and> given d' = given d \<and> failed d' = failed d"
  unfolding tun_laws_def by blast+

lemma tun_write:
  "tun_laws S taken given failed \<Longrightarrow> write_all S pkt d = (Inr u, d') \<Longrightarrow>
     given d' = given d @ [pkt] \<and> taken d' = taken d \<and> failed d' = failed d"
  "tun_laws S taken given failed \<Longrightarrow> write_all S pkt d = (Inl e, d') \<Longrightarrow>
     given d' = given d \<and> taken d' = taken d \<and> failed d' = Suc (failed d)"
  unfolding tun_laws_def by blast+

text \<open>A device with a script of packets, whose writes of an empty packet fail.\<close>

record tun_script =
  tun_in :: "packet list"
  tun_taken :: "packet list"
  tun_given :: "packet list"
  tun_failed :: nat

definition tun_device :: "(tun_script, script_error) stream_ops" where
  "tun_device = \<lparr>
     write_all = (\<lambda>pkt d. if pkt = [] then (Inl UnexpectedEof, d\<lparr>tun_failed := Suc (tun_failed d)\<rparr>)
        else (Inr (), d\<lparr>tun_given := tun_given d @ [pkt]\<rparr>)),
     read_exact = (\<lambda>n d. (Inl UnexpectedEof, d)),
     read_some = (\<lambda>n d. case tun_in d of
          [] \<Rightarrow> (Inl UnexpectedEof, d)
        | pkt # pkts \<Rightarrow> (Inr (take n pkt), d\<lparr>tun_in := pkts, tun_taken := tun_taken d @ [take n pkt]\<rparr>)),
     flush = (\<lambda>d. (Inr (), d)),
     readable = (\<lambda>d. tun_in d \<noteq> []), writable = (\<lambda>_. True), peer_moves = (\<lambda>d d'. d' = d)\<rparr>"

lemma tun_device_laws: "tun_laws tun_device tun_taken tun_given tun_failed"
  by (auto simp: tun_laws_def tun_device_def split: list.splits if_splits)

section \<open>Start and shutdown\<close>

lemma spawn_outcome:
  assumes "listen_laws T" and "set_laws Z"
  shows "\<exists>self st. spawn A S T Z i p = Some (self, \<lparr>stop_tx = st\<rparr>) \<and> stop_rx self = st \<and> phy_dev self = p \<and>
    iface self = i \<and> conns self = Map.empty \<and> actor_inv Z self"
proof -
  from add_listeners_Some [OF assms, of LISTENER_POOL_SIZE "set_empty Z"] assms(2) show ?thesis
    by (auto simp: spawn_def with_channels_def Let_def actor_inv_def sockets_split_def)
qed


text \<open>Starting either refuses the configuration or hands over a spawned actor.\<close>

lemma start_outcome:
  fixes A :: "('a, 'h accepted) mpsc_ops" and S :: "('s, unit) mpsc_ops"
  assumes "listen_laws T" and "set_laws Z"
  obtains (refused) e where "start P A S T Z I t cfg =
      Some (Inl e :: start_error + 's runtime \<times> ('i, 'd, 'z, 'h, 'c, 'r, 'a, 's) tasks)"
  | (spawned) rt and ts :: "('i, 'd, 'z, 'h, 'c, 'r, 'a, 's) tasks" and i p where
      "start P A S T Z I t cfg = Some (Inr (rt, ts))" "spawn A S T Z i p = Some (task_actor ts, rt_handle rt)"
proof -
  have "(\<exists>e. start P A S T Z I t cfg = Some (Inl e :: start_error + 's runtime \<times> ('i, 'd, 'z, 'h, 'c, 'r, 'a, 's) tasks)) \<or>
      (\<exists>rt (ts :: ('i, 'd, 'z, 'h, 'c, 'r, 'a, 's) tasks) i p.
         start P A S T Z I t cfg = Some (Inr (rt, ts)) \<and> spawn A S T Z i p = Some (task_actor ts, rt_handle rt))"
  proof (cases "device cfg = [] \<or> proxy cfg = [] \<or> isl (parse (proxy cfg))")
    case True
    then show ?thesis by (auto simp: start_def Let_def split: sum.splits)
  next
    case False
    then obtain url where url: "parse (proxy cfg) = Inr url" by (cases "parse (proxy cfg)") auto
    obtain p hs where p: "phy_new P (resolve_mtu cfg) = (p, hs)" by fastforce
    from spawn_outcome [OF assms, of A S "build_interface I t p" p]
    obtain self :: "('i, 'd, 'z, 'h, 'c, 'r, 'a, 's) netstack_actor" and hdl where
      sp: "spawn A S T Z (build_interface I t p) p = Some (self, hdl)" by blast
    have "start P A S T Z I t cfg = Some (Inr (\<lparr>rt_handle = hdl\<rparr>,
        \<lparr>task_actor = self, task_proxy = into_proxy url, task_pump = (device cfg, resolve_mtu cfg, hs)\<rparr>))"
      using False url p sp by (simp add: start_def Let_def)
    with sp show ?thesis by fastforce
  qed
  with refused spawned show thesis by blast
qed

text \<open>How many phases are left until the actor looks at its stop channel.\<close>

fun phases_left :: "phase \<Rightarrow> nat" where
  "phases_left Polling = 4"
| "phases_left Accepting = 3"
| "phases_left Servicing = 2"
| "phases_left Egress = 1"
| "phases_left Waiting = 0"
| "phases_left Stopped = 0"

lemma actor_reaches_wait:
  assumes laws: "stack_laws M A T Z I qm cm qa ca"
  shows "actor_inv Z (actor s) \<Longrightarrow> phase s \<noteq> Stopped \<Longrightarrow>
    \<exists>s'. (system_step M A S T Z I is_closed)\<^sup>*\<^sup>* s s' \<and> phase s' = Waiting \<and> stop_rx (actor s') = stop_rx (actor s)"
proof (induction "phases_left (phase s)" arbitrary: s)
  case 0
  then have "phase s = Waiting" by (cases "phase s") simp_all
  then show ?case by blast
next
  case (Suc n)
  from system_progress [OF laws Suc.prems] obtain s1 where 1: "system_step M A S T Z I is_closed s s1"
    "phase s1 = next_phase (phase s)" "stop_rx (actor s1) = stop_rx (actor s)" by blast
  have inv: "actor_inv Z (actor s1)"
    using system_step_inv [OF laws _ 1(1), of "[]"] Suc.prems(1) by (simp add: system_inv_def)
  have ph: "n = phases_left (phase s1)" "phase s1 \<noteq> Stopped"
    using Suc.hyps(2) 1(2) by (cases "phase s"; simp)+
  from Suc.hyps(1) [OF ph(1) inv ph(2)] 1 show ?case
    by (metis converse_rtranclp_into_rtranclp)
qed

text \<open>
  An actor whose stop channel has lost its sender can go on to the end of its turn and stop
  there, whatever it is doing.
\<close>
lemma closed_stops_actor:
  assumes "stack_laws M A T Z I qm cm qa ca" and "actor_inv Z (actor s)" and "rx_closed S (stop_rx (actor s))"
  shows "\<exists>s'. (system_step M A S T Z I is_closed)\<^sup>*\<^sup>* s s' \<and> phase s' = Stopped"
proof (cases "phase s = Stopped")
  case False
  from actor_reaches_wait [OF assms(1,2) False] obtain s1 where
    1: "(system_step M A S T Z I is_closed)\<^sup>*\<^sup>* s s1" "phase s1 = Waiting" "stop_rx (actor s1) = stop_rx (actor s)" by metis
  have "fst (try_recv S (stop_rx (actor s1))) \<noteq> None \<or> rx_closed S (stop_rx (actor s1))" using 1(3) assms(3) by simp
  from step_stop [OF 1(2) this] have "system_step M A S T Z I is_closed s1 (s1\<lparr>phase := Stopped\<rparr>)" .
  with 1(1) show ?thesis by (intro exI [of _ "s1\<lparr>phase := Stopped\<rparr>"]) simp
qed blast

section \<open>Witnesses\<close>

lemma demo_open_run:
  "open_tun True (\<lambda>c. Inr c :: nat + tun_config) ''utun://utun3'' (resolve_mtu config_default) =
     Inr \<lparr>tun_up = True, tun_mtu = 1500, tun_name = Some ''utun3''\<rparr>"
proof -
  have "parse_uint (2 ^ 32 - 1) ''3'' = Inr 3" by (simp add: to_digit_def)
  then have "parse_tun_name True ''utun://utun3'' = (Inr (Some ''utun3'') :: nat tun_error + string option)"
    by (simp add: parse_tun_name_eq spec_name_def parse_u32_def)
  then show ?thesis by (simp add: open_tun_def resolve_mtu_def config_default_def)
qed

theorem open_tun_config_witness:
  "\<exists>num ds. ''utun3'' = ''utun'' @ num \<and> (num = ds \<or> num = CHR ''+'' # ds) \<and> is_decimal ds \<and> dec_value 0 ds < 2 ^ 32"
  using open_tun_config [OF demo_open_run] by (simp add: spec_name_def)

definition demo_config :: config where
  "demo_config = config_default\<lparr>device := ''tun://tun0'', proxy := ''socks5://127.0.0.1:1080''\<rparr>"

lemma demo_config_url:
  "parse (proxy demo_config) = Inr \<lparr>url_scheme = ''socks5'', url_host = ''127.0.0.1'', url_port = 1080,
     url_username = None, url_password = None\<rparr>"
proof -
  have "to_ascii_lowercase ''socks5'' = ''socks5''" by code_simp
  then show ?thesis by (simp add: demo_config_def parse_def url_eval)
qed


end
