(* ===== verification/Tun_Path.thy ===== *)
theory Tun_Path
  imports Runtime
begin

text \<open>
  The way of a packet between the TUN device and the stack: the pump of \<open>src/runtime.rs\<close>
  and the bridge of \<open>src/device.rs\<close> share two channels, which the pump's task and the
  stack's polls use in any order. Shown: packets cross whole and in order, in both directions,
  and none is lost while the channels have room and the device works.
\<close>

section \<open>The pump and the bridge\<close>

record ('d, 'c) tun_path =
  path_dev :: 'd
  path_phy :: "'c phy"
  pumping :: bool

definition path_pump :: "('d, 'c) tun_path \<Rightarrow> ('d, 'c) pump" where
  "path_pump x = \<lparr>dev = path_dev x, pump_inbound = inbound_rx (path_phy x), pump_outbound = outbound_tx (path_phy x)\<rparr>"

definition with_pump :: "('d, 'c) tun_path \<Rightarrow> bool \<times> ('d, 'c) pump \<Rightarrow> ('d, 'c) tun_path" where
  "with_pump x gp = (case gp of (go, p) \<Rightarrow>
     \<lparr>path_dev = dev p, path_phy = (path_phy x)\<lparr>inbound_rx := pump_inbound p, outbound_tx := pump_outbound p\<rparr>, pumping = go\<rparr>)"

text \<open>
  Who moves: the pump takes a branch of its \<open>select!\<close>, unless its loop is over; a poll of
  the stack receives a packet, or transmits one of \<open>len\<close> bytes with \<open>f\<close> writing it.
\<close>

datatype path_event = Pumps pump_event | Receives | Transmits nat "bytes \<Rightarrow> bytes"

text \<open>A channel whose receiver was dropped refuses what is sent, as the pump's does when its loop is over.\<close>

definition receiver_gone :: "('c, 'x) mpsc_ops \<Rightarrow> ('c, 'x) mpsc_ops" where
  "receiver_gone M = M\<lparr>try_send := (\<lambda>_ c. (False, c))\<rparr>"

text \<open>A move, with the packets the stack got and those it wrote.\<close>

definition path_turn ::
  "('d, 'e) stream_ops \<Rightarrow> ('c, packet) mpsc_ops \<Rightarrow> path_event \<Rightarrow> ('d, 'c) tun_path \<Rightarrow>
   (packet list \<times> packet list \<times> ('d, 'c) tun_path) option" where
  "path_turn S M ev x =
     (case ev of
        Pumps pe \<Rightarrow> Some ([], [], if pumping x then with_pump x (pump_turn S M pe (path_pump x)) else x)
      | Receives \<Rightarrow> map_option (\<lambda>(tok, phy). (case tok of None \<Rightarrow> [] | Some t \<Rightarrow> [rx_consume t (\<lambda>pkt. pkt)], [], x\<lparr>path_phy := phy\<rparr>))
          (receive M (path_phy x))
      | Transmits len f \<Rightarrow> map_option (\<lambda>token. case token len (\<lambda>buf. (f buf, f buf)) of (pkt, phy) \<Rightarrow> ([], [pkt], x\<lparr>path_phy := phy\<rparr>))
          (transmit (if pumping x then M else receiver_gone M) (path_phy x)))"

fun path_run ::
  "('d, 'e) stream_ops \<Rightarrow> ('c, packet) mpsc_ops \<Rightarrow> path_event list \<Rightarrow> ('d, 'c) tun_path \<Rightarrow>
   (packet list \<times> packet list \<times> ('d, 'c) tun_path) option" where
  "path_run S M [] x = Some ([], [], x)"
| "path_run S M (ev # evs) x = Option.bind (path_turn S M ev x) (\<lambda>(got, put, x).
     map_option (\<lambda>(got', put', x). (got @ got', put @ put', x)) (path_run S M evs x))"

section \<open>What crosses\<close>

abbreviation in_chan :: "('d, 'c) tun_path \<Rightarrow> 'c" where
  "in_chan x \<equiv> inbound_rx (path_phy x)"

abbreviation out_chan :: "('d, 'c) tun_path \<Rightarrow> 'c" where
  "out_chan x \<equiv> outbound_tx (path_phy x)"

text \<open>Within \<open>n\<close> moves the channels keep their capacity, and fill by at most one packet a move.\<close>

definition path_frame ::
  "('c, packet) mpsc_ops \<Rightarrow> ('c \<Rightarrow> packet list) \<Rightarrow> ('c \<Rightarrow> nat) \<Rightarrow> nat \<Rightarrow> ('d, 'c) tun_path \<Rightarrow> ('d, 'c) tun_path \<Rightarrow> bool" where
  "path_frame M queue cap n x x' \<longleftrightarrow>
     cap (in_chan x') = cap (in_chan x) \<and> cap (out_chan x') = cap (out_chan x) \<and>
     rx_closed M (in_chan x') = rx_closed M (in_chan x) \<and> rx_closed M (out_chan x') = rx_closed M (out_chan x) \<and>
     length (queue (in_chan x')) \<le> length (queue (in_chan x)) + n \<and>
     length (queue (out_chan x')) \<le> length (queue (out_chan x)) + n \<and> (pumping x' \<longrightarrow> pumping x)"

text \<open>
  Inward, from \<open>x\<close> to \<open>x'\<close>: \<open>pkts\<close> were read from the device, \<open>acc\<close> of
  them entered the channel, all of them if there was room, and the stack got \<open>got\<close>.
\<close>

definition inward ::
  "('c, packet) mpsc_ops \<Rightarrow> ('d \<Rightarrow> packet list) \<Rightarrow> ('c \<Rightarrow> packet list) \<Rightarrow> ('c \<Rightarrow> nat) \<Rightarrow> nat \<Rightarrow>
   ('d, 'c) tun_path \<Rightarrow> packet list \<Rightarrow> ('d, 'c) tun_path \<Rightarrow> packet list \<Rightarrow> packet list \<Rightarrow> bool" where
  "inward M taken queue cap n x got x' pkts acc \<longleftrightarrow>
     taken (path_dev x') = taken (path_dev x) @ pkts \<and> (\<forall>pkt \<in> set pkts. length pkt \<le> PUMP_BUF) \<and> subseq acc pkts \<and>
     (\<not> rx_closed M (in_chan x) \<and> length (queue (in_chan x)) + n \<le> cap (in_chan x) \<longrightarrow> acc = pkts) \<and>
     pending queue (path_phy x) @ acc = got @ pending queue (path_phy x')"

text \<open>
  Outward: of the packets \<open>put\<close> the stack wrote \<open>tx\<close> entered the channel, all of them
  if there was room and the pump was there; \<open>outs\<close> left it, and \<open>ws\<close> of them reached
  the device, all but those whose write failed.
\<close>

definition outward ::
  "('c, packet) mpsc_ops \<Rightarrow> ('d \<Rightarrow> packet list) \<Rightarrow> ('d \<Rightarrow> nat) \<Rightarrow> ('c \<Rightarrow> packet list) \<Rightarrow> ('c \<Rightarrow> nat) \<Rightarrow> nat \<Rightarrow>
   ('d, 'c) tun_path \<Rightarrow> packet list \<Rightarrow> ('d, 'c) tun_path \<Rightarrow> packet list \<Rightarrow> packet list \<Rightarrow> packet list \<Rightarrow> bool" where
  "outward M given failed queue cap n x put x' tx outs ws \<longleftrightarrow>
     subseq tx put \<and>
     (\<not> rx_closed M (out_chan x) \<and> length (queue (out_chan x)) + n \<le> cap (out_chan x) \<and> pumping x' \<longrightarrow> tx = put) \<and>
     queue (out_chan x) @ tx = outs @ queue (out_chan x') \<and>
     given (path_dev x') = given (path_dev x) @ ws \<and> subseq ws outs \<and>
     length outs + failed (path_dev x) = length ws + failed (path_dev x')"

definition crossed ::
  "('c, packet) mpsc_ops \<Rightarrow> ('d \<Rightarrow> packet list) \<Rightarrow> ('d \<Rightarrow> packet list) \<Rightarrow> ('d \<Rightarrow> nat) \<Rightarrow> ('c \<Rightarrow> packet list) \<Rightarrow> ('c \<Rightarrow> nat) \<Rightarrow> nat \<Rightarrow>
   ('d, 'c) tun_path \<Rightarrow> packet list \<Rightarrow> packet list \<Rightarrow> ('d, 'c) tun_path \<Rightarrow> bool" where
  "crossed M taken given failed queue cap n x got put x' \<longleftrightarrow> path_frame M queue cap n x x' \<and>
     (\<exists>pkts acc. inward M taken queue cap n x got x' pkts acc) \<and>
     (\<exists>tx outs ws. outward M given failed queue cap n x put x' tx outs ws)"

lemma crossed_refl: "crossed M taken given failed queue cap n x [] [] x"
  unfolding crossed_def path_frame_def inward_def outward_def
  by (intro conjI exI [of _ "[] :: packet list"]) auto

lemma inward_trans:
  assumes fr: "path_frame M queue cap n x x1" and 1: "inward M taken queue cap n x got x1 pkts acc"
    and 2: "inward M taken queue cap m x1 got' x2 pkts' acc'"
  shows "inward M taken queue cap (n + m) x (got @ got') x2 (pkts @ pkts') (acc @ acc')"
proof -
  have "acc @ acc' = pkts @ pkts'"
    if room: "\<not> rx_closed M (in_chan x)" "length (queue (in_chan x)) + (n + m) \<le> cap (in_chan x)"
  proof -
    have "\<not> rx_closed M (in_chan x1)" "length (queue (in_chan x1)) + m \<le> cap (in_chan x1)"
      using fr room by (auto simp: path_frame_def)
    with 1 2 room show ?thesis by (simp add: inward_def)
  qed
  moreover have "pending queue (path_phy x) @ (acc @ acc') = (got @ got') @ pending queue (path_phy x2)"
    using 1 2 unfolding inward_def by (metis append.assoc)
  moreover have "subseq (acc @ acc') (pkts @ pkts')" using 1 2 by (auto simp: inward_def intro: list_emb_append_mono)
  ultimately show ?thesis using 1 2 unfolding inward_def by auto
qed

lemma outward_trans:
  assumes fr: "path_frame M queue cap n x x1" "path_frame M queue cap m x1 x2"
    and 1: "outward M given failed queue cap n x put x1 tx outs ws"
    and 2: "outward M given failed queue cap m x1 put' x2 tx' outs' ws'"
  shows "outward M given failed queue cap (n + m) x (put @ put') x2 (tx @ tx') (outs @ outs') (ws @ ws')"
proof -
  have "tx @ tx' = put @ put'"
    if room: "\<not> rx_closed M (out_chan x)" "length (queue (out_chan x)) + (n + m) \<le> cap (out_chan x)" "pumping x2"
  proof -
    have "\<not> rx_closed M (out_chan x1)" "length (queue (out_chan x1)) + m \<le> cap (out_chan x1)" "pumping x1"
      using fr room by (auto simp: path_frame_def)
    with 1 2 room show ?thesis by (simp add: outward_def)
  qed
  moreover have "queue (out_chan x) @ (tx @ tx') = (outs @ outs') @ queue (out_chan x2)"
    using 1 2 unfolding outward_def by (metis append.assoc)
  moreover have "subseq (tx @ tx') (put @ put')" "subseq (ws @ ws') (outs @ outs')"
    using 1 2 by (auto simp: outward_def intro: list_emb_append_mono)
  ultimately show ?thesis using 1 2 unfolding outward_def by auto
qed

lemma crossed_trans:
  assumes "crossed M taken given failed queue cap n x got put x1"
    and "crossed M taken given failed queue cap m x1 got' put' x2"
  shows "crossed M taken given failed queue cap (n + m) x (got @ got') (put @ put') x2"
proof -
  have fr: "path_frame M queue cap n x x1" "path_frame M queue cap m x1 x2" using assms by (simp_all add: crossed_def)
  then have "path_frame M queue cap (n + m) x x2" by (auto simp: path_frame_def)
  moreover from assms obtain pkts acc tx outs ws pkts' acc' tx' outs' ws' where
    "inward M taken queue cap n x got x1 pkts acc" "inward M taken queue cap m x1 got' x2 pkts' acc'"
    "outward M given failed queue cap n x put x1 tx outs ws" "outward M given failed queue cap m x1 put' x2 tx' outs' ws'"
    unfolding crossed_def by blast
  note inward_trans [OF fr(1) this(1,2)] and outward_trans [OF fr this(3,4)]
  ultimately show ?thesis unfolding crossed_def by blast
qed

section \<open>One move\<close>

lemma dev_read_crossed:
  assumes S: "tun_laws S taken given failed" and M: "mpsc_laws M queue cap" and O: "open_laws M queue cap" and on: "pumping x"
  shows "crossed M taken given failed queue cap 1 x [] [] (with_pump x (pump_turn S M DevRead (path_pump x)))"
proof -
  obtain r d where r: "read_some S PUMP_BUF (path_dev x) = (r, d)" by fastforce
  show ?thesis
  proof (cases r)
    case (Inl e)
    let ?x = "x\<lparr>path_dev := d, pumping := False\<rparr>"
    have x': "with_pump x (pump_turn S M DevRead (path_pump x)) = ?x"
      by (cases x; cases "path_phy x") (use r Inl in \<open>simp add: with_pump_def pump_turn_def path_pump_def\<close>)
    note same = tun_read(2) [OF S r [unfolded Inl]]
    have "inward M taken queue cap 1 x [] ?x [] []" "outward M given failed queue cap 1 x [] ?x [] [] []"
      using same by (simp_all add: inward_def outward_def)
    then show ?thesis unfolding x' crossed_def by (auto simp: path_frame_def)
  next
    case (Inr pkt)
    obtain ok c where c: "try_send M pkt (in_chan x) = (ok, c)" by fastforce
    let ?x = "x\<lparr>path_dev := d, path_phy := (path_phy x)\<lparr>inbound_rx := c\<rparr>\<rparr>"
    have x': "with_pump x (pump_turn S M DevRead (path_pump x)) = ?x"
      by (cases x; cases "path_phy x") (use r Inr c on in \<open>simp add: with_pump_def pump_turn_def path_pump_def\<close>)
    note same = tun_read(1) [OF S r [unfolded Inr]]
    have q: "queue c = queue (in_chan x) @ (if ok then [pkt] else [])" "cap c = cap (in_chan x)"
      "rx_closed M c = rx_closed M (in_chan x)"
      using try_send_True [OF M] try_send_False [OF M] open_laws_send [OF O c] c by (cases ok; auto)+
    have ok: "ok" if "\<not> rx_closed M (in_chan x)" "length (queue (in_chan x)) < cap (in_chan x)"
      using try_send_room [OF O that, of pkt] c by simp
    have "inward M taken queue cap 1 x [] ?x [pkt] (if ok then [pkt] else [])" "outward M given failed queue cap 1 x [] ?x [] [] []"
      using same q ok by (auto simp: inward_def outward_def pending_def)
    then show ?thesis unfolding x' crossed_def using q by (auto simp: path_frame_def)
  qed
qed

lemma outbound_crossed:
  assumes S: "tun_laws S taken given failed" and M: "mpsc_laws M queue cap" and O: "open_laws M queue cap" and on: "pumping x"
  shows "crossed M taken given failed queue cap 1 x [] [] (with_pump x (pump_turn S M OutboundRecv (path_pump x)))"
proof -
  obtain r c where r: "try_recv M (out_chan x) = (r, c)" by fastforce
  note closed = open_laws_recv [OF O r]
  show ?thesis
  proof (cases r)
    case None
    let ?x = "x\<lparr>path_phy := (path_phy x)\<lparr>outbound_tx := c\<rparr>, pumping := \<not> rx_closed M c\<rparr>"
    have x': "with_pump x (pump_turn S M OutboundRecv (path_pump x)) = ?x"
      by (cases x; cases "path_phy x") (use r None in \<open>simp add: with_pump_def pump_turn_def path_pump_def\<close>)
    have "inward M taken queue cap 1 x [] ?x [] []" "outward M given failed queue cap 1 x [] ?x [] [] []"
      using try_recv_None [OF M r [unfolded None]] by (simp_all add: inward_def outward_def pending_def)
    then show ?thesis
      unfolding x' crossed_def using try_recv_None [OF M r [unfolded None]] closed on by (auto simp: path_frame_def)
  next
    case (Some pkt)
    obtain e d where d: "write_all S pkt (path_dev x) = (e, d)" by fastforce
    let ?x = "x\<lparr>path_dev := d, path_phy := (path_phy x)\<lparr>outbound_tx := c\<rparr>\<rparr>"
    have x': "with_pump x (pump_turn S M OutboundRecv (path_pump x)) = ?x"
      by (cases x; cases "path_phy x") (use r Some d on in \<open>simp add: with_pump_def pump_turn_def path_pump_def\<close>)
    note q = try_recv_Some [OF M r [unfolded Some]]
    have dev: "taken d = taken (path_dev x) \<and> given d = given (path_dev x) @ (if isl e then [] else [pkt]) \<and>
        failed d = failed (path_dev x) + (if isl e then 1 else 0)"
      using tun_write [OF S] d by (cases e) auto
    have "inward M taken queue cap 1 x [] ?x [] []"
      "outward M given failed queue cap 1 x [] ?x [] [pkt] (if isl e then [] else [pkt])"
      using q dev by (auto simp: inward_def outward_def pending_def)
    then show ?thesis unfolding x' crossed_def using q closed on by (auto simp: path_frame_def)
  qed
qed

lemma refill_frame:
  assumes M: "mpsc_laws M queue cap" and O: "open_laws M queue cap"
  shows "refill M rx buf = Some (c, buf') \<Longrightarrow> cap c = cap rx \<and> rx_closed M c = rx_closed M rx"
proof (induction "queue rx" arbitrary: rx buf)
  case Nil
  from try_recv_Nil [OF M Nil.hyps [symmetric]] obtain c' where c': "try_recv M rx = (None, c')" by blast
  with Nil.prems have "c = c'" by (subst (asm) refill.simps) simp
  with try_recv_None [OF M c'] open_laws_recv [OF O c'] show ?case by simp
next
  case (Cons p ps)
  from try_recv_Cons [OF M Cons.hyps(2) [symmetric]] obtain c' where
    c': "try_recv M rx = (Some p, c')" "queue c' = ps" "cap c' = cap rx" by blast
  with Cons.prems have "refill M c' (buf @ [p]) = Some (c, buf')" by (subst (asm) refill.simps) simp
  from Cons.hyps(1) [OF c'(2) [symmetric] this] c'(3) open_laws_recv [OF O c'(1)] show ?case by simp
qed

lemma receive_crossed:
  assumes M: "mpsc_laws M queue cap" and O: "open_laws M queue cap"
  shows "\<exists>tok phy. receive M (path_phy x) = Some (tok, phy) \<and>
    crossed M taken given failed queue cap 1 x (case tok of None \<Rightarrow> [] | Some t \<Rightarrow> [rx_consume t (\<lambda>pkt. pkt)]) [] (x\<lparr>path_phy := phy\<rparr>)"
proof -
  obtain c where c: "refill M (in_chan x) (inbound_buf (path_phy x)) = Some (c, pending queue (path_phy x))" "queue c = []"
    using refill_all [OF M, of "in_chan x" "inbound_buf (path_phy x)"] by (auto simp: pending_def)
  note fr = refill_frame [OF M O c(1)]
  have "crossed M taken given failed queue cap 1 x got [] (x\<lparr>path_phy := (path_phy x)\<lparr>inbound_rx := c, inbound_buf := buf\<rparr>\<rparr>)"
    if "pending queue (path_phy x) = got @ buf" for got buf
  proof -
    let ?x = "x\<lparr>path_phy := (path_phy x)\<lparr>inbound_rx := c, inbound_buf := buf\<rparr>\<rparr>"
    have "pending queue (path_phy ?x) = buf" using c(2) by (simp add: pending_def)
    then have "inward M taken queue cap 1 x got ?x [] []" "outward M given failed queue cap 1 x [] ?x [] [] []"
      using that by (simp_all add: inward_def outward_def)
    then show ?thesis unfolding crossed_def using fr c(2) by (auto simp: path_frame_def)
  qed
  then show ?thesis using c(1) by (cases "pending queue (path_phy x)") (auto simp: receive_def Let_def rx_consume_def)
qed

lemma transmit_crossed:
  assumes M: "mpsc_laws M queue cap" and O: "open_laws M queue cap"
  shows "\<exists>token phy. transmit (if pumping x then M else receiver_gone M) (path_phy x) = Some token \<and>
    token len (\<lambda>buf. (f buf, f buf)) = (f (replicate len 0), phy) \<and>
    crossed M taken given failed queue cap 1 x [] [f (replicate len 0)] (x\<lparr>path_phy := phy\<rparr>)"
proof -
  let ?M = "if pumping x then M else receiver_gone M" and ?pkt = "f (replicate len 0)"
  obtain ok c where c: "try_send ?M ?pkt (out_chan x) = (ok, c)" by fastforce
  have q: "queue c = queue (out_chan x) @ (if ok then [?pkt] else [])" "cap c = cap (out_chan x)"
    "rx_closed M c = rx_closed M (out_chan x)"
    using try_send_True [OF M] try_send_False [OF M] open_laws_send [OF O] c
    by (cases ok; auto simp: receiver_gone_def split: if_splits)+
  have ok: "ok" if "\<not> rx_closed M (out_chan x)" "length (queue (out_chan x)) < cap (out_chan x)" "pumping x"
    using try_send_room [OF O that(1,2), of ?pkt] c that(3) by simp
  let ?x = "x\<lparr>path_phy := (path_phy x)\<lparr>outbound_tx := c\<rparr>\<rparr>"
  have "inward M taken queue cap 1 x [] ?x [] []" "outward M given failed queue cap 1 x [?pkt] ?x (if ok then [?pkt] else []) [] []"
    using q ok by (auto simp: inward_def outward_def pending_def)
  then have "crossed M taken given failed queue cap 1 x [] [?pkt] ?x" unfolding crossed_def using q by (auto simp: path_frame_def)
  then show ?thesis by (auto simp: transmit_def tx_consume_def c)
qed

section \<open>Runs\<close>

lemma turn_crossed:
  assumes "tun_laws S taken given failed" and "mpsc_laws M queue cap" and "open_laws M queue cap"
  shows "\<exists>got put x'. path_turn S M ev x = Some (got, put, x') \<and> crossed M taken given failed queue cap 1 x got put x'"
proof (cases ev)
  case (Pumps pe)
  then show ?thesis using dev_read_crossed [OF assms, of x] outbound_crossed [OF assms, of x] crossed_refl
    by (cases pe) (auto simp: path_turn_def)
next
  case Receives
  from receive_crossed [OF assms(2,3), of x taken given failed] Receives show ?thesis by (auto simp: path_turn_def)
next
  case (Transmits len f)
  from transmit_crossed [OF assms(2,3), of x len f taken given failed] Transmits show ?thesis by (auto simp: path_turn_def)
qed

lemma run_crossed:
  assumes "tun_laws S taken given failed" and "mpsc_laws M queue cap" and "open_laws M queue cap"
  shows "\<exists>got put x'. path_run S M evs x = Some (got, put, x') \<and> crossed M taken given failed queue cap (length evs) x got put x'"
proof (induction evs arbitrary: x)
  case (Cons ev evs)
  from turn_crossed [OF assms, of ev x] obtain got put x1 where
    1: "path_turn S M ev x = Some (got, put, x1)" "crossed M taken given failed queue cap 1 x got put x1" by blast
  from Cons.IH [of x1] obtain got' put' x2 where
    2: "path_run S M evs x1 = Some (got', put', x2)" "crossed M taken given failed queue cap (length evs) x1 got' put' x2" by blast
  from crossed_trans [OF 1(2) 2(2)] 1(1) 2(1) show ?case by auto
qed (simp add: crossed_refl)

text \<open>The loop of the pump alone is such a run.\<close>

lemma pump_loop_path:
  "pumping x \<Longrightarrow> path_run S M (map Pumps evs) x = Some ([], [], with_pump x (pump_loop S M evs (path_pump x)))"
proof (induction evs arbitrary: x)
  case Nil
  then show ?case by (cases x; cases "path_phy x") (simp add: with_pump_def path_pump_def)
next
  case (Cons pe evs)
  obtain go p where p: "pump_turn S M pe (path_pump x) = (go, p)" by fastforce
  have again: "path_pump (with_pump x (go, p)) = p" "with_pump (with_pump x (go, p)) = with_pump x" "pumping (with_pump x (go, p)) = go"
    by (cases p; simp add: path_pump_def with_pump_def fun_eq_iff split: prod.split)+
  have over: "\<not> pumping y \<Longrightarrow> path_run S M (map Pumps es) y = Some ([], [], y)" for y es
    by (induction es) (simp_all add: path_turn_def)
  have rest: "path_run S M (map Pumps evs) (with_pump x (go, p)) =
      Some ([], [], with_pump x (if go then pump_loop S M evs p else (False, p)))"
    using Cons.IH [of "with_pump x (go, p)"] over [of "with_pump x (go, p)" evs] again by (cases "go = True") simp_all
  show ?case using Cons.prems by (simp add: path_turn_def p rest)
qed

section \<open>Properties\<close>

text \<open>
  C34. However the pump and the stack interleave, also after the pump has ended, every move
  returns and packets cross whole and in order. Inward, the packets the stack gets, followed by
  those pending for it, are those pending at the start followed by packets read from the
  device, each at most 65535 bytes, none changed or repeated, and none left out if the channel
  had room for as many packets as there are moves. Outward, packets the stack writes, again
  none left out if there was room and the pump still runs, are taken from the channel after
  those waiting at the start, and those taken are written to the device, each whole, but for
  as many as the device failed to write.
\<close>
theorem packets_cross_in_order:
  assumes "tun_laws S taken given failed" and "mpsc_laws M queue cap" and "open_laws M queue cap"
  shows "\<exists>got put x' pkts acc tx outs ws. path_run S M evs x = Some (got, put, x') \<and>
     taken (path_dev x') = taken (path_dev x) @ pkts \<and> (\<forall>pkt \<in> set pkts. length pkt \<le> 65535) \<and> subseq acc pkts \<and>
     (\<not> rx_closed M (inbound_rx (path_phy x)) \<and>
        length (queue (inbound_rx (path_phy x))) + length evs \<le> cap (inbound_rx (path_phy x)) \<longrightarrow> acc = pkts) \<and>
     pending queue (path_phy x) @ acc = got @ pending queue (path_phy x') \<and>
     subseq tx put \<and>
     (\<not> rx_closed M (outbound_tx (path_phy x)) \<and>
        length (queue (outbound_tx (path_phy x))) + length evs \<le> cap (outbound_tx (path_phy x)) \<and> pumping x' \<longrightarrow> tx = put) \<and>
     queue (outbound_tx (path_phy x)) @ tx = outs @ queue (outbound_tx (path_phy x')) \<and>
     given (path_dev x') = given (path_dev x) @ ws \<and> subseq ws outs \<and>
     length outs + failed (path_dev x) = length ws + failed (path_dev x') \<and>
     (failed (path_dev x') = failed (path_dev x) \<longrightarrow> ws = outs)"
proof -
  obtain got put x' where run: "path_run S M evs x = Some (got, put, x')"
    "crossed M taken given failed queue cap (length evs) x got put x'" using run_crossed [OF assms] by blast
  then obtain pkts acc tx outs ws where i: "inward M taken queue cap (length evs) x got x' pkts acc"
    and o: "outward M given failed queue cap (length evs) x put x' tx outs ws" unfolding crossed_def by blast
  have "subseq ws outs" "length outs + failed (path_dev x) = length ws + failed (path_dev x')" using o by (simp_all add: outward_def)
  then have "failed (path_dev x') = failed (path_dev x) \<longrightarrow> ws = outs" using subseq_same_length [of ws outs] by simp
  with run(1) i o have "path_run S M evs x = Some (got, put, x') \<and> inward M taken queue cap (length evs) x got x' pkts acc \<and>
      outward M given failed queue cap (length evs) x put x' tx outs ws \<and>
      (failed (path_dev x') = failed (path_dev x) \<longrightarrow> ws = outs)" by (intro conjI)
  then show ?thesis unfolding inward_def outward_def PUMP_BUF_def conj_assoc by (intro exI)
qed

section \<open>Witness\<close>

text \<open>
  The device has two packets; the stack gets the first and answers with a packet of two bytes,
  and with an empty one, which the device refuses.
\<close>

definition demo_path :: "(tun_script, packet buf_chan) tun_path" where
  "demo_path = \<lparr>path_dev = \<lparr>tun_in = [[69, 0, 20], [69, 1]], tun_taken = [], tun_given = [], tun_failed = 0\<rparr>,
     path_phy = demo_phy, pumping = True\<rparr>"

definition demo_crossing :: "path_event list" where
  "demo_crossing = [Pumps DevRead, Receives, Transmits 2 (\<lambda>buf. [69, 1]), Pumps OutboundRecv, Pumps DevRead,
     Transmits 0 (\<lambda>buf. buf), Pumps OutboundRecv]"

lemma demo_path_run:
  "\<exists>x'. path_run tun_device buf_mpsc demo_crossing demo_path = Some ([[69, 0, 20]], [[69, 1], []], x') \<and>
     tun_taken (path_dev x') = [[69, 0, 20], [69, 1]] \<and> tun_failed (path_dev x') = 1 \<and>
     bc_queue (outbound_tx (path_phy x')) = [] \<and> pumping x'"
  by (simp add: demo_crossing_def demo_path_def path_turn_def path_pump_def with_pump_def pump_turn_def phy_eval
      tun_device_def PUMP_BUF_def receive_def refill.simps rx_consume_def transmit_def tx_consume_def)

theorem packets_cross_in_order_witness:
  "\<exists>x' ws. path_run tun_device buf_mpsc demo_crossing demo_path = Some ([[69, 0, 20]], [[69, 1], []], x') \<and>
     pending bc_queue (path_phy x') = [[69, 1]] \<and> tun_given (path_dev x') = ws \<and> subseq ws [[69, 1], []] \<and> length ws = 1"
proof -
  obtain x' where x': "path_run tun_device buf_mpsc demo_crossing demo_path = Some ([[69, 0, 20]], [[69, 1], []], x')"
    "tun_taken (path_dev x') = [[69, 0, 20], [69, 1]]" "tun_failed (path_dev x') = 1" "bc_queue (outbound_tx (path_phy x')) = []"
    "pumping x'" using demo_path_run by blast
  have start: "pending bc_queue (path_phy demo_path) = []" "bc_queue (inbound_rx (path_phy demo_path)) = []"
    "bc_queue (outbound_tx (path_phy demo_path)) = []" "bc_cap (inbound_rx (path_phy demo_path)) = 1024"
    "bc_cap (outbound_tx (path_phy demo_path)) = 1024" "\<not> rx_closed buf_mpsc (inbound_rx (path_phy demo_path))"
    "\<not> rx_closed buf_mpsc (outbound_tx (path_phy demo_path))" "tun_taken (path_dev demo_path) = []"
    "tun_given (path_dev demo_path) = []" "tun_failed (path_dev demo_path) = 0" "length demo_crossing = 7"
    by (simp_all add: demo_path_def phy_eval pending_def demo_crossing_def)
  from packets_cross_in_order [OF tun_device_laws buf_mpsc_laws buf_open_laws, of demo_crossing demo_path] x'(1)
  obtain pkts acc tx outs ws where "[[69, 0, 20], [69, 1]] = pkts" "acc = pkts"
    "acc = [[69, 0, 20]] @ pending bc_queue (path_phy x')" "tx = [[69, 1], []]" "tx = outs" "tun_given (path_dev x') = ws"
    "subseq ws outs" "length outs = length ws + 1" by (auto simp: start x'(2-5))
  with x'(1) show ?thesis by (intro exI [of _ x'] exI [of _ ws]) auto
qed

end
