(* ===== verification/Cli.thy ===== *)
theory Cli
  imports Runtime
begin

text \<open>
  The program's entry, \<open>src/main.rs\<close>: the arguments, the little duration parser,
  \<open>into_config\<close> and \<open>main\<close>. clap, which fills \<open>Args\<close>, is not modelled; its
  call of \<open>HumantimeDuration::from_str\<close> is that function.
\<close>

section \<open>Definitions\<close>

datatype humantime_duration = HumantimeDuration secs

record args =
  arg_device :: string
  arg_proxy :: string
  arg_mtu :: u16
  arg_fwmark :: u32
  arg_interface :: "string option"
  arg_udp_timeout :: humantime_duration
  arg_log_level :: string

text \<open>The error is the text of the \<open>ParseIntError\<close>, here its kind.\<close>

definition from_str :: "string \<Rightarrow> int_error_kind + humantime_duration" where
  "from_str s0 =
     (let s = trim s0 in
      case strip_suffix ''s'' s of
        Some num \<Rightarrow> rbind (parse_u64 num) (\<lambda>v. Inr (HumantimeDuration v))
      | None \<Rightarrow> rbind (parse_u64 s) (\<lambda>v. Inr (HumantimeDuration v)))"

definition into_config :: "args \<Rightarrow> config" where
  "into_config self =
     \<lparr>device = arg_device self, proxy = arg_proxy self, cfg_mtu = arg_mtu self, fwmark = arg_fwmark self,
      interface = arg_interface self,
      udp_timeout = (case arg_udp_timeout self of HumantimeDuration d \<Rightarrow> d),
      log_level = arg_log_level self\<rparr>"

text \<open>
  \<open>main\<close> after the arguments have been parsed. \<open>ctrl_c\<close> is what the wait for the
  interrupt returns, \<open>run\<close> what the spawned tasks do until then, and \<open>later\<close> what
  they do from there until \<open>main\<close> has returned. A failed wait drops the runtime on its
  way out, a successful one is followed by \<open>shutdown\<close>. The result is the one of \<open>main\<close>
  together with the tasks as it leaves them, if it started any. A panic in \<open>start\<close> would
  be \<open>None\<close>.
\<close>

datatype 'e main_error = StartFailed start_error | SignalFailed 'e

definition main ::
  "('d, packet) mpsc_ops \<Rightarrow> ('a, 'h accepted) mpsc_ops \<Rightarrow> ('s, unit) mpsc_ops \<Rightarrow> 'k tcp_ops \<Rightarrow>
   ('z, 'h, 'k) set_ops \<Rightarrow> ('i, 'd, 'z) iface_ops \<Rightarrow> ('s \<Rightarrow> 's) \<Rightarrow> instant \<Rightarrow>
   (('i, 'd, 'z, 'h, 'c, 'r, 'a, 's) system \<Rightarrow> ('i, 'd, 'z, 'h, 'c, 'r, 'a, 's) system) \<Rightarrow>
   (('i, 'd, 'z, 'h, 'c, 'r, 'a, 's) system \<Rightarrow> ('i, 'd, 'z, 'h, 'c, 'r, 'a, 's) system) \<Rightarrow> 'e + unit \<Rightarrow> args \<Rightarrow>
   (('e main_error + unit) \<times> ('i, 'd, 'z, 'h, 'c, 'r, 'a, 's) system option) option" where
  "main P A S T Z I drop_tx t run later ctrl_c args0 =
     (let cfg = into_config args0 in
      case start P A S T Z I t cfg of
        None \<Rightarrow> None
      | Some (Inl e) \<Rightarrow> Some (Inl (StartFailed e), None)
      | Some (Inr (rt, ts)) \<Rightarrow>
          let s = run (system_start (task_actor ts)) in
          (case ctrl_c of
             Inl e \<Rightarrow> Some (Inl (SignalFailed e), Some (later (drop_runtime drop_tx s)))
           | Inr _ \<Rightarrow> Some (Inr (), Some (later (shutdown S drop_tx s)))))"

section \<open>Durations\<close>

lemma parse_u64_unat: "parse_u64 s = Inr w \<longleftrightarrow> parse_uint (2 ^ 64 - 1) s = Inr (unat w)"
proof
  assume "parse_u64 s = Inr w"
  then obtain n where n: "parse_uint (2 ^ 64 - 1) s = Inr n" and w: "w = word_of_nat n"
    by (cases "parse_uint (2 ^ 64 - 1) s") (auto simp: parse_u64_def)
  with parse_uint_bound [OF n] have "unat w = n" by (simp add: unat_of_nat)
  with n show "parse_uint (2 ^ 64 - 1) s = Inr (unat w)" by simp
qed (simp add: parse_u64_def)

lemma unat_u64_bound: "unat (w :: u64) \<le> 2 ^ 64 - 1"
  using unsigned_less [of w, where ?'a = nat] by simp

lemma parse_u64_decimal:
  "parse_u64 s = Inr w \<longleftrightarrow> (\<exists>ds. (s = ds \<or> s = CHR ''+'' # ds) \<and> is_decimal ds \<and> unat w = dec_value 0 ds)"
  using unat_u64_bound [of w] by (auto simp: parse_u64_unat parse_uint_Ok)

lemma decimal_no_suffix: "is_decimal ds \<Longrightarrow> \<not> suffix ''s'' (pre @ ds)"
proof
  assume d: "is_decimal ds" and "suffix ''s'' (pre @ ds)"
  then obtain zs where "pre @ ds = zs @ ''s''" by (auto simp: suffix_def)
  then have "last (pre @ ds) = CHR ''s''" by (metis last_snoc)
  with d have "last ds = CHR ''s''" by (simp add: is_decimal_def)
  moreover have "to_digit (last ds) \<noteq> None" using d last_in_set [of ds] by (simp add: is_decimal_def list_all_iff)
  ultimately have "to_digit CHR ''s'' \<noteq> None" by simp
  then show False by (simp add: to_digit_def)
qed

text \<open>
  C39. A duration is accepted exactly when, without the white space around it, it is a decimal
  number of seconds below \<open>2 ^ 64\<close>, with an optional plus sign in front and an optional
  \<open>s\<close> behind; its value is that number, with and without the suffix.
\<close>
theorem from_str_accepts:
  "from_str s = Inr (HumantimeDuration v) \<longleftrightarrow>
     (\<exists>pre ds suf. trim s = pre @ ds @ suf \<and> (pre = [] \<or> pre = ''+'') \<and> (suf = [] \<or> suf = ''s'') \<and>
        is_decimal ds \<and> unat v = dec_value 0 ds)" (is "?L \<longleftrightarrow> ?R")
proof
  assume ?L
  then have "(\<exists>num. trim s = num @ ''s'' \<and> parse_u64 num = Inr v) \<or> parse_u64 (trim s) = Inr v"
    by (auto simp: from_str_def Let_def strip_suffix_Some split: option.splits)
  then show ?R
  proof (elim disjE exE conjE)
    fix num assume t: "trim s = num @ ''s''" and "parse_u64 num = Inr v"
    then obtain ds where "num = ds \<or> num = CHR ''+'' # ds" "is_decimal ds" "unat v = dec_value 0 ds"
      unfolding parse_u64_decimal by blast
    with t show ?R
      by - (rule exI [of _ "if num = ds then [] else ''+''"], rule exI [of _ ds], rule exI [of _ "''s''"], auto)
  next
    assume "parse_u64 (trim s) = Inr v"
    then obtain ds where "trim s = ds \<or> trim s = CHR ''+'' # ds" "is_decimal ds" "unat v = dec_value 0 ds"
      unfolding parse_u64_decimal by blast
    then show ?R
      by - (rule exI [of _ "if trim s = ds then [] else ''+''"], rule exI [of _ ds], rule exI [of _ "[]"], auto)
  qed
next
  assume ?R
  then obtain pre ds suf where t: "trim s = pre @ ds @ suf" "pre = [] \<or> pre = ''+''" "suf = [] \<or> suf = ''s''"
    "is_decimal ds" "unat v = dec_value 0 ds" by blast
  have num: "parse_u64 (pre @ ds) = Inr v" using t(2,4,5) by (auto simp: parse_u64_decimal)
  show ?L
  proof (cases "suf = []")
    case True
    then have "strip_suffix ''s'' (trim s) = None"
      using t(1) decimal_no_suffix [OF t(4), of pre] by (simp add: strip_suffix_def)
    with True t(1) num show ?thesis by (simp add: from_str_def Let_def)
  next
    case False
    then have "strip_suffix ''s'' (trim s) = Some (pre @ ds)" using t(1,3) by (simp add: strip_suffix_Some)
    with num show ?thesis by (simp add: from_str_def Let_def)
  qed
qed

text \<open>Defaults of the command line are those of the configuration.\<close>

lemma default_udp_timeout: "from_str ''60s'' = Inr (HumantimeDuration (udp_timeout config_default))"
proof -
  have t: "trim ''60s'' = ''60s''" by code_simp
  have n: "parse_u64 ''60'' = Inr 60" by (simp add: parse_u64_def to_digit_def)
  show ?thesis unfolding from_str_def Let_def t by (simp add: n strip_suffix_def config_default_def suffix_def)
qed

section \<open>From start to shutdown\<close>

text \<open>
  Nobody but \<open>main\<close> has a stop sender, so the tasks' steps leave the stop channel alone;
  what the actor receives from it, it receives as it stops.
\<close>

definition unattended_step ::
  "('c, 'r conn_cmd) mpsc_ops \<Rightarrow> ('a, 'h accepted) mpsc_ops \<Rightarrow> ('s, unit) mpsc_ops \<Rightarrow> 'k tcp_ops \<Rightarrow>
   ('z, 'h, 'k) set_ops \<Rightarrow> ('i, 'd, 'z) iface_ops \<Rightarrow> ('r \<Rightarrow> 'c \<Rightarrow> bool) \<Rightarrow>
   ('i, 'd, 'z, 'h, 'c, 'r, 'a, 's) system \<Rightarrow> ('i, 'd, 'z, 'h, 'c, 'r, 'a, 's) system \<Rightarrow> bool" where
  "unattended_step M A S T Z I is_closed s s' \<longleftrightarrow>
     system_step M A S T Z I is_closed s s' \<and> stop_rx (actor s') = stop_rx (actor s)"

lemma stopped_only:
  assumes "system_step M A S T Z I is_closed s s'" and "phase s' = Stopped"
  shows "phase s = Stopped \<or> fst (try_recv S (stop_rx (actor s))) \<noteq> None \<or> rx_closed S (stop_rx (actor s))"
  using assms(1)
proof cases
  case step_stop
  then show ?thesis by blast
qed (use assms(2) in simp_all)

text \<open>What holds of the stop channel and the actor in every run that leaves that channel alone.\<close>

interpretation unattended: transition_system "unattended_step M A S T Z I is_closed"
    "\<lambda>s. stack_laws M A T Z I qm cm qa ca \<and> actor_inv Z (actor s) \<and> stop_rx (actor s) = st \<and>
       (fst (try_recv S st) = None \<and> \<not> rx_closed S st \<longrightarrow> phase s \<noteq> Stopped)"
  for M A S T Z I is_closed qm cm qa ca st
proof
  fix s s'
  assume inv: "stack_laws M A T Z I qm cm qa ca \<and> actor_inv Z (actor s) \<and> stop_rx (actor s) = st \<and>
       (fst (try_recv S st) = None \<and> \<not> rx_closed S st \<longrightarrow> phase s \<noteq> Stopped)"
    and step: "unattended_step M A S T Z I is_closed s s'"
  have moved: "system_step M A S T Z I is_closed s s'" using step by (simp add: unattended_step_def)
  from system_step_inv [OF conjunct1 [OF inv] _ moved, of "[]"] inv have "actor_inv Z (actor s')"
    by (simp add: system_inv_def)
  moreover have "phase s' \<noteq> Stopped" if "fst (try_recv S st) = None" "\<not> rx_closed S st"
    using stopped_only [OF moved] inv that by auto
  ultimately show "stack_laws M A T Z I qm cm qa ca \<and> actor_inv Z (actor s') \<and> stop_rx (actor s') = st \<and>
       (fst (try_recv S st) = None \<and> \<not> rx_closed S st \<longrightarrow> phase s' \<noteq> Stopped)"
    using inv step by (simp add: unattended_step_def)
qed

lemma spawn_stop: "spawn A S T Z i p = Some (self, hdl) \<Longrightarrow> stop_rx self = chan_new S 1"
  by (auto simp: spawn_def with_channels_def Let_def)

lemma main_waits:
  assumes L: "stack_laws M A T Z I qm cm qa ca" and S: "mpsc_laws S qs cs" "sender_laws S drop_tx qs"
    and sp: "spawn A S T Z i p = Some (self, hdl)" and run: "(unattended_step M A S T Z I is_closed)\<^sup>*\<^sup>* (system_start self) s"
  shows "actor_inv Z (actor s) \<and> stop_rx (actor s) = chan_new S 1 \<and> phase s \<noteq> Stopped"
proof -
  have "actor_inv Z self" using spawn_start [OF L sp] by (simp add: system_inv_def system_start_def)
  moreover have "fst (try_recv S (chan_new S 1)) = None" "\<not> rx_closed S (chan_new S 1)"
    using S(2) try_recv_Nil [OF S(1), of "chan_new S 1"] chan_new_queue [OF S(1), of 1] by (auto simp: sender_laws_def)
  ultimately show ?thesis
    using unattended.steps_inv [OF run, of qm cm qa ca "chan_new S 1"] L spawn_stop [OF sp] by (simp add: system_start_def)
qed

lemma asked_to_stop:
  assumes L: "stack_laws M A T Z I qm cm qa ca" and inv: "actor_inv Z (actor s)" and closed: "rx_closed S (stop_rx (actor s))"
    and later: "(unattended_step M A S T Z I is_closed)\<^sup>*\<^sup>* s s'"
  shows "stop_rx (actor s') = stop_rx (actor s) \<and>
    (phase s' = Waiting \<longrightarrow> system_step M A S T Z I is_closed s' (s'\<lparr>phase := Stopped\<rparr>)) \<and>
    (\<exists>s''. (system_step M A S T Z I is_closed)\<^sup>*\<^sup>* s' s'' \<and> phase s'' = Stopped)"
proof -
  have "actor_inv Z (actor s') \<and> stop_rx (actor s') = stop_rx (actor s)"
    using unattended.steps_inv [OF later, of qm cm qa ca "stop_rx (actor s)"] L inv closed by simp
  with closed closed_stops_actor [OF L, of s' S is_closed] show ?thesis by (auto intro: step_stop)
qed


section \<open>Witness\<close>

definition demo_args :: args where
  "demo_args = \<lparr>arg_device = ''tun://tun0'', arg_proxy = ''socks5://127.0.0.1:1080'', arg_mtu = 0, arg_fwmark = 0,
     arg_interface = None, arg_udp_timeout = HumantimeDuration 60, arg_log_level = ''info''\<rparr>"

text \<open>The actor polls the interface once and is interrupted.\<close>

definition demo_schedule ::
  "(unit, packet buf_chan, sim_socket sim_set, nat, nat conn_cmd buf_chan, nat, nat accepted buf_chan, unit buf_chan) system \<Rightarrow>
   (unit, packet buf_chan, sim_socket sim_set, nat, nat conn_cmd buf_chan, nat, nat accepted buf_chan, unit buf_chan) system" where
  "demo_schedule s = (if phase s = Polling then s\<lparr>now := 7, phase := Accepting\<rparr> else s)"

lemma demo_schedule_steps:
  "(unattended_step buf_mpsc buf_mpsc buf_mpsc sim_tcp sim_sets sim_iface nobody_gone)\<^sup>*\<^sup>* s (demo_schedule s)"
proof (cases "phase s = Polling")
  case True
  have "system_step buf_mpsc buf_mpsc buf_mpsc sim_tcp sim_sets sim_iface nobody_gone s
      (s\<lparr>actor := (actor s)\<lparr>iface := (), phy_dev := phy_dev (actor s), sockets := sockets (actor s)\<rparr>,
         now := 7, phase := Accepting\<rparr>)"
    by (rule step_poll [OF True]) (simp add: sim_iface_def)
  moreover have "a\<lparr>iface := ()\<rparr> = a" for a :: demo_actor_type by (cases a) simp
  ultimately have "unattended_step buf_mpsc buf_mpsc buf_mpsc sim_tcp sim_sets sim_iface nobody_gone s (demo_schedule s)"
    using True by (cases s) (simp add: unattended_step_def demo_schedule_def)
  then show ?thesis by blast
qed (simp add: demo_schedule_def)

lemma demo_args_config: "into_config demo_args = demo_config"
  by (simp add: into_config_def demo_args_def demo_config_def config_default_def)

lemma demo_accepted_config: "start P A S T Z I t demo_config \<noteq> Some (Inl e)"
proof -
  have "device demo_config \<noteq> []" "proxy demo_config \<noteq> []" by (simp_all add: demo_config_def)
  with demo_config_url show ?thesis by (auto simp: start_def Let_def split: prod.splits)
qed


end
