(* ===== verification/Spec2Isabelle.thy ===== *)
theory Spec2Isabelle
  imports Joint_Run Tun_Path Cli
begin

text \<open>
  A verification of \<open>smoltcp-socks\<close>, a program that takes the IP packets of a TUN device,
  terminates their TCP connections in a userspace stack (smoltcp) and relays each connection
  through a SOCKS5 proxy.

  \<^bold>\<open>The program's parts and how they interact.\<close> \<open>Runtime::start\<close> parses the proxy URL,
  makes the device bridge, builds the smoltcp interface, spawns the netstack actor and the TUN
  pump. The pump moves packets between the device and two bounded channels. The actor owns the
  stack: in each turn it polls smoltcp, turns established listener sockets into connections,
  serves the commands of the relays, and polls for egress. A dispatcher starts a relay for
  each connection; the relay dials the proxy, performs the SOCKS5 handshake for the
  connection's original destination and copies bytes both ways, through \<open>VConn\<close> calls
  that the actor answers over oneshot channels.

  \<^bold>\<open>Theories.\<close> Source names are relative to \<open>src/src\<close>.

  \<^item> \<open>Socks_Prelude\<close>: machine types, results, effects, the parts of Rust's standard
    library that are used (strings, integer parsing and printing, octets), and the locales
    \<open>transition_system\<close> and \<open>live_system\<close> for step relations.
  \<^item> \<open>Tokio_Iface\<close>, \<open>Smoltcp_Iface\<close>: the third-party interfaces as records of
    operations, what the program relies on as predicates \<open>stream_laws\<close>,
    \<open>reliable_stream\<close>, \<open>mpsc_laws\<close>, \<open>open_laws\<close>, \<open>sender_laws\<close>, \<open>tcp_laws\<close>, \<open>listen_laws\<close>,
    \<open>set_laws\<close>, and concrete instances of each, used by the witnesses only.
  \<^item> \<open>Socks5\<close> (\<open>socks5.rs\<close>): \<open>BindAddr\<close>, \<open>write_request\<close>,
    \<open>client_handshake\<close>, \<open>auth_userpass\<close>, \<open>read_bind_addr\<close>,
    \<open>Socks5Proxy::connect\<close>. Shown: soundness and completeness of the handshake against an
    inductive specification of the conversation, the order of what is sent, every rejection,
    round trips with decoders of RFC 1928 and 1929.
  \<^item> \<open>Proxy_Url\<close> (\<open>proxy.rs\<close>): URL parsing. Shown: round trip with a printer, what a
    parsed URL satisfies, the errors.
  \<^item> \<open>Vconn\<close> (\<open>netstack/vconn.rs\<close>): the commands and the four calls.
  \<^item> \<open>Conn_State\<close> (\<open>ConnState\<close> of \<open>netstack/actor.rs\<close>): one connection's
    pending read and write and its command loop. Shown: the loop ends, each request is answered
    at most once and none is lost, bytes are delivered in order, a request waits only while
    the socket is not ready, end of stream and closing.
  \<^item> \<open>Conn_Turn\<close>: one service call of a connection as a transaction: the commands it
    answers, with which replies, and what it hands to the socket.
  \<^item> \<open>Device_Phy\<close> (\<open>device.rs\<close>): the device bridge; its inbound side interprets the
    locale \<open>fifo\<close> of first-in first-out queues.
  \<^item> \<open>Config\<close>, \<open>Netstack\<close> (\<open>config.rs\<close>, \<open>netstack/mod.rs\<close>): the
    configuration, interface setup and the effective MTU.
  \<^item> \<open>Netstack_Actor\<close> (\<open>NetstackActor\<close> of \<open>netstack/actor.rs\<close>): the listener
    pool, accepting, the sweep over the connections, \<open>spawn\<close>, and \<open>run\<close> with the
    dispatcher as the step relation \<open>system_step\<close>. Shown: in every reachable state each
    socket is one of four listeners or one connection's, the actor is never stuck, connections
    are accepted with their endpoints, reaped exactly when abandoned, relayed in order.
  \<^item> \<open>Relay\<close> (\<open>relay.rs\<close>): both copy directions, \<open>pipe\<close>, and the locale
    \<open>vconn_contract\<close>, the contract between a relay and its virtual connection, in which
    the relay's invariant is proved; it is a sublocale of \<open>transition_system\<close>.
  \<^item> \<open>Vconn_Actor\<close>: the calls of \<open>VConn\<close> answered by \<open>ConnState\<close>, one call at
    a time, keep that contract, by interpretation; so a relay whose calls do not overlap copies
    both ways without loss, repetition or reordering. Overlapping calls are the subject of the
    next theories.
  \<^item> \<open>Relay_Link\<close>: the same calls with their two awaits apart. A link is the
    actor's end of one connection with the replies it has sent; \<open>begin_call\<close> sends a command,
    \<open>poll_call\<close> takes the reply, \<open>link_turn\<close> is the actor's turn. Shown: commands are
    answered once, properly, and what a turn moves is what its callers will be told.
  \<^item> \<open>Relay_Tasks\<close> (\<open>relay.rs\<close> as it runs): \<open>pipe\<close> stopping at every await as the
    step relation \<open>relay_step\<close>, interleaved with the actor's turns, the network, the
    upstream's other end and a stop of the actor. Shown: copying in order and without loss in
    every interleaving, no conflict between the directions, of the actor's answers waiting only
    for those the network holds up, at most one write call per byte of a chunk, and that a
    relay which has lost its actor waits for nothing but its upstream.
    \<open>moves\<close> runs these steps along a given schedule.
  \<^item> \<open>Actor_Links\<close>: the loop of the whole actor, with all its connections, refines the
    turns of \<open>Relay_Tasks\<close>, phase by phase and with the replies sent, and accepting starts them; \<open>link_follow\<close> is what each
    phase of the loop does to one connection.
  \<^item> \<open>Joint_Run\<close>: whole runs of the actor, the dispatcher, the network and one relay,
    from accepting its connection to reaping it, as the step relation \<open>joint_step\<close>, with
    every other relay, the pump and the handle as its environment. Shown: the copying
    properties on the actor's own socket set, that the connection is held exactly as long as
    its relay lives, that the actor can always take its next phase, and that computed runs of
    the tasks are runs of the joint system.
  \<^item> \<open>Runtime\<close> (\<open>runtime.rs\<close>): start, shutdown, the pump, device names.
  \<^item> \<open>Tun_Path\<close>: the pump and the device bridge on their two shared channels. Shown:
    packets cross whole and in order in both directions, however the pump and the stack
    interleave, and none is lost while there is room and the device works. The device moves
    whole packets (\<open>tun_laws\<close>).
  \<^item> \<open>Cli\<close> (\<open>main.rs\<close>): the arguments, the duration parser, and \<open>main\<close> from start
    through the interrupt to the request to stop, which \<open>main\<close> does not wait for.
  \<^item> This theory: the property that spans accepting, the URL, the dialer and the handshake.

  \<^bold>\<open>State and errors.\<close> A struct is a record with the source's fields, an enum a datatype.
  \<open>Result\<close> is a sum, \<open>Inl\<close> the error. A panic, and an await or loop that does not
  return, is \<open>None\<close>; the theorems that a call returns show \<open>Some\<close>. Sending on a oneshot
  channel is an entry in a log of replies. A \<open>HashMap\<close> is a map, and the order in which
  \<open>retain\<close> visits it is an arbitrary argument. The sending half of a command channel is
  named by the handle of the connection that owns the receiving half.

  \<^bold>\<open>Loops.\<close> \<open>service_loop\<close>, \<open>refill\<close> and \<open>await_reply\<close> are partial functions
  in the option monad; the first two are proved to return. No fuel is used in the model;
  \<open>pump_loop\<close> and \<open>path_run\<close> run along an arbitrary sequence of choices.

  \<^bold>\<open>Granularity.\<close> A channel does not change while one synchronous call of the actor drains
  it; between the phases of the actor's turn other tasks may change every channel in any way.
  In \<open>Relay_Tasks\<close> sending a command, each turn of the actor and receiving the reply are
  steps of their own, and the two directions of a relay are at different awaits, so that a read
  and a write may be in the channel or pending in the actor at once. An await on the upstream
  stream and the dial are one step each, which takes effect when it completes. A read is over
  only when the stream is \<open>readable\<close>, a write or flush when it is \<open>writable\<close>; the
  other end, \<open>peer_moves\<close>, decides whether that ever happens, and nothing is assumed about
  when the dial is over. No theorem claims that an upstream await ends. A relay that has
  lost its actor takes at most nine more steps: at most three upward and four downward, one to join the
  directions and one to close, counted by \<open>tasks_left\<close>. In \<open>Joint_Run\<close> one relay is
  followed; the theorems hold for every connection, so for all relays of a run. The replies to
  one relay are kept in its link, since each arrives on a oneshot channel of its own; dropping
  the last \<open>VConn\<close> is a step of its own, after which the actor may reap.

  \<^bold>\<open>Not modelled.\<close> smoltcp's protocol machine, tokio's scheduler and the \<open>tun\<close> crate
  are parameters, and so are the result of the signal wait and what the tasks do until \<open>main\<close>
  has returned; tokio's own shutdown, which then cancels what still runs, is not modelled.
  Logging with its setup in \<open>main\<close>, clap's argument parsing, and \<open>lib.rs\<close>, which only
  declares modules, have no definitions. Real time
  occurs only as the instant passed to smoltcp and the length of the actor's sleep.
\<close>

section \<open>From the TUN device to the proxy\<close>

text \<open>
  C1. A connection accepted from the TUN side reaches the proxy with its own destination: for
  every connection that accepting queues for a relay, if the relay's dial to the connection's
  destination through the proxy of the parsed URL succeeds, then the server dialled is the
  URL's host and port, and the request it got decodes to a CONNECT to exactly the local
  endpoint of the established socket, the address the client had asked for.
\<close>
theorem accepted_destination_requested:
  assumes "listen_laws T" and "set_laws Z" and "mpsc_laws A queue cap" and "actor_inv Z self"
    and "try_accept M A T Z self = Some self'"
    and "(vc, m) \<in> set (drop (length (queue (accepted_tx self))) (queue (accepted_tx self')))"
    and "parse raw = Inr url" and "stream_laws S sent rcvd"
    and "connect D S (into_proxy url) (destination vc) = Inr up"
  shows "\<exists>k local s0 pre req. set_get Z (cmd vc) (sockets self) = Some k \<and> local_endpoint T k = Some local \<and>
    tcp_connect D (url_host url @ '':'' @ show_u16 (url_port url)) = Inr s0 \<and>
    sent (up_stream up) = sent (set_nodelay D s0) @ pre @ req \<and>
    decode_request req = Some (CONNECT, Ip (sa_ip local), sa_port local, [])"
proof -
  from try_accept_outcome [OF assms(1-4), of M] assms(5) obtain new where
    new: "queue (accepted_tx self') = queue (accepted_tx self) @ vconns_of new"
    "\<forall>hm \<in> set new. accepted_as T Z (sockets self) hm" by auto
  with assms(6) obtain h where h: "(h, m) \<in> set new" "vc = vconn_new m h" by (auto simp: vconns_of_def)
  with new(2) have "accepted_as T Z (sockets self) (h, m)" by blast
  then obtain k where k: "set_get Z h (sockets self) = Some k" "local_endpoint T k = Some (dst m)"
    by (auto simp: accepted_as_def split: option.splits)
  have vc: "cmd vc = h" "destination vc = dst m" using h(2) by (simp_all add: vconn_new_def destination_def)
  have addr: "server_addr (into_proxy url) = url_host url @ '':'' @ show_u16 (url_port url)"
    by (simp add: server_addr_def into_proxy_def socks5_proxy_new_def Let_def)
  from connect_request [OF assms(8,9)] obtain s0 out inp pre where
    c: "tcp_connect D (server_addr (into_proxy url)) = Inr s0"
    "sent (up_stream up) = sent (set_nodelay D s0) @ out"
    "out = pre @ write_request (Ip (sa_ip (destination vc))) [VERSION, CONNECT, 0x00] (sa_port (destination vc))"
    "decode_request (drop (length pre) out) = Some (CONNECT, Ip (sa_ip (destination vc)), sa_port (destination vc), [])"
    by blast
  show ?thesis
    by (rule exI [of _ k], rule exI [of _ "dst m"], rule exI [of _ s0], rule exI [of _ pre],
        rule exI [of _ "drop (length pre) out"])
      (use k vc c addr in simp)
qed

section \<open>Witness\<close>

abbreviation demo_config_proxy :: proxy_url where
  "demo_config_proxy \<equiv> \<lparr>url_scheme = ''socks5'', url_host = ''127.0.0.1'', url_port = 1080,
     url_username = None, url_password = None\<rparr>"

lemma demo_end_to_end_run:
  "\<exists>up. connect (demo_dial demo_plain) script_stream (into_proxy demo_config_proxy)
     (destination (vconn_new demo_meta (1 :: nat))) = Inr up"
proof -
  have px: "server_addr (into_proxy demo_config_proxy) = ''127.0.0.1:1080''" "creds (into_proxy demo_config_proxy) = None"
    by code_simp+
  have "\<exists>s. client_handshake script_stream (dst demo_meta) None demo_plain = (Inr (), s)"
    by (simp add: demo_eval demo_meta_def)
  with px show ?thesis
    by (auto simp: connect_def Let_def demo_dial_def handshake_def destination_def vconn_new_def)
qed

theorem accepted_destination_requested_witness:
  "\<exists>up k local s0 pre req. connect (demo_dial demo_plain) script_stream (into_proxy demo_config_proxy)
       (destination (vconn_new demo_meta (1 :: nat))) = Inr up \<and>
     set_get sim_sets 1 (sockets demo_actor) = Some k \<and> local_endpoint sim_tcp k = Some local \<and>
     written (up_stream up) = written (set_nodelay (demo_dial demo_plain) s0) @ pre @ req \<and>
     decode_request req = Some (CONNECT, Ip (sa_ip local), sa_port local, [])"
proof -
  obtain up where up: "connect (demo_dial demo_plain) script_stream (into_proxy demo_config_proxy)
      (destination (vconn_new demo_meta (1 :: nat))) = Inr up" using demo_end_to_end_run by blast
  have "(vconn_new demo_meta 1, demo_meta) \<in>
      set (drop (length (bc_queue (accepted_tx demo_actor))) (bc_queue (accepted_tx demo_accepted)))"
    by (simp add: demo_accepted_def demo_actor_def buf_mpsc_def)
  from accepted_destination_requested [OF sim_listen_laws sim_sets_laws buf_mpsc_laws demo_actor_inv demo_accept_run
      this demo_config_url script_stream_laws up] up
  show ?thesis by (fastforce simp: vconn_new_def)
qed

end
